(* ===== verification/Prelude.thy ===== *)
theory Prelude
  imports Main "HOL-Library.Word"
begin

text \<open>
  The shared vocabulary of the development: the machine integers of the C++ code as words,
  little-endian byte strings (the code copies raw bytes into structs with \<open>memcpy\<close> and
  \<open>read\<close> on a little-endian x86-64 target), and the list and word lemmas that
  several components use. \<open>word_nat\<close> collects the rules that move a word comparison
  to the naturals.
\<close>

type_synonym u8 = "8 word"
type_synonym u16 = "16 word"
type_synonym u32 = "32 word"
type_synonym u64 = "64 word"

named_theorems word_nat \<open>rules that read words as naturals\<close>

section \<open>Words\<close>

lemma unat_bound: "unat (x :: 'a::len word) < 2 ^ LENGTH('a)"
  by (rule unsigned_less)

lemmas [word_nat] = word_le_nat_alt word_less_nat_alt unat_mod word_unat_eq_iff

lemma unat_add_no_wrap:
  fixes a b :: "'a::len word"
  assumes "unat a + unat b < 2 ^ LENGTH('a)"
  shows "unat (a + b) = unat a + unat b"
  using assms by (simp add: unat_add_lem)

lemma unat_mult_no_wrap:
  fixes a b :: "'a::len word"
  assumes "unat a * unat b < 2 ^ LENGTH('a)"
  shows "unat (a * b) = unat a * unat b"
  using assms by (simp add: unat_mult_lem)

lemma unat_diff_le:
  fixes a b :: "'a::len word"
  assumes "unat b \<le> unat a"
  shows "unat (a - b) = unat a - unat b"
  using assms by (simp add: unat_sub word_le_nat_alt)

lemma unat_u64_bound: "unat (x :: u64) < 2 ^ 64"
  using unat_bound [of x] by simp

lemma unat_word_of_nat_less: "n < 2 ^ LENGTH('a) \<Longrightarrow> unat (word_of_nat n :: 'a::len word) = n"
  by (simp add: unat_of_nat)

lemma of_nat_eq_unat: "of_nat (unat x) = (x :: 'a::len word)"
  by simp

section \<open>Little-endian byte strings\<close>

primrec le_nat :: "u8 list \<Rightarrow> nat" where
  "le_nat [] = 0"
| "le_nat (b # bs) = unat b + 256 * le_nat bs"

primrec nat_le :: "nat \<Rightarrow> nat \<Rightarrow> u8 list" where
  "nat_le 0 n = []"
| "nat_le (Suc k) n = word_of_nat (n mod 256) # nat_le k (n div 256)"

definition le_word :: "u8 list \<Rightarrow> 'a::len word" where
  "le_word bs = word_of_nat (le_nat bs)"

definition word_le :: "nat \<Rightarrow> 'a::len word \<Rightarrow> u8 list" where
  "word_le k w = nat_le k (unat w)"

lemma length_nat_le [simp]: "length (nat_le k n) = k"
  by (induction k arbitrary: n) simp_all

lemma length_word_le [simp]: "length (word_le k w) = k"
  by (simp add: word_le_def)

lemma le_nat_bound: "le_nat bs < 256 ^ length bs"
proof (induction bs)
  case Nil
  then show ?case by simp
next
  case (Cons b bs)
  have "unat b < 256" using unat_bound [of b] by simp
  with Cons show ?case by simp
qed

lemma le_nat_nat_le: "le_nat (nat_le k n) = n mod 256 ^ k"
proof (induction k arbitrary: n)
  case 0
  then show ?case by simp
next
  case (Suc k)
  have "unat (word_of_nat (n mod 256) :: u8) = n mod 256"
    by (simp add: unat_of_nat)
  moreover have "n mod (256 * 256 ^ k) = n mod 256 + 256 * (n div 256 mod 256 ^ k)"
    by (simp add: mod_mult2_eq)
  ultimately show ?case by (simp add: Suc.IH)
qed

lemma nat_le_le_nat: "length bs = k \<Longrightarrow> nat_le k (le_nat bs) = bs"
proof (induction bs arbitrary: k)
  case Nil
  then show ?case by simp
next
  case (Cons b bs)
  have b: "unat b < 256" using unat_bound [of b] by simp
  then have "(unat b + 256 * le_nat bs) mod 256 = unat b"
    and "(unat b + 256 * le_nat bs) div 256 = le_nat bs" by simp_all
  with Cons show ?case by auto
qed

lemma le_word_word_le:
  fixes w :: "'a::len word"
  assumes "LENGTH('a) \<le> 8 * k"
  shows "le_word (word_le k w) = w"
proof -
  have "unat w < 2 ^ LENGTH('a)" by (rule unat_bound)
  also have "\<dots> \<le> 2 ^ (8 * k)" using assms by (intro power_increasing) simp_all
  also have "(2::nat) ^ (8 * k) = 256 ^ k" by (simp add: power_mult)
  finally show ?thesis by (simp add: le_word_def word_le_def le_nat_nat_le)
qed

text \<open>Reading the \<open>n\<close> bytes at offset \<open>off\<close> of a byte string that has them.\<close>

definition slice_at :: "nat \<Rightarrow> nat \<Rightarrow> 'a list \<Rightarrow> 'a list" where
  "slice_at off n bs = take n (drop off bs)"

lemma length_slice_at [simp]: "off + n \<le> length bs \<Longrightarrow> length (slice_at off n bs) = n"
  by (simp add: slice_at_def)

lemma slice_at_append_left:
  "off + n \<le> length xs \<Longrightarrow> slice_at off n (xs @ ys) = slice_at off n xs"
  by (simp add: slice_at_def)

lemma slice_at_append_right:
  "off = length xs \<Longrightarrow> slice_at off n (xs @ ys) = take n ys"
  by (simp add: slice_at_def)

section \<open>Lists\<close>

lemma length_filter_split:
  "length (filter P xs) + length (filter (\<lambda>x. \<not> P x) xs) = length xs"
  by (induction xs) simp_all

end
