(* ===== verification/Diagnostics.thy ===== *)
theory Diagnostics
  imports Prelude
begin

text \<open>
  How \<open>src/main.cpp\<close> stops on an error: \<open>die\<close>, \<open>die_errno\<close>, \<open>ring_label\<close> and
  \<open>diagnose_perf_open_failure\<close>. Each call that ends the process is a value of
  \<open>fatal\<close>, one constructor per message; all of these exit with status 1. Reads outside the
  mapped ring, undefined in C++, are the value \<open>Undefined_Behaviour\<close>, so that a theorem
  can say that they do not happen.
\<close>

section \<open>Decimal labels\<close>

fun dec_digits :: "nat \<Rightarrow> string" where
  "dec_digits n = (if n < 10 then [char_of (48 + n)] else dec_digits (n div 10) @ [char_of (48 + n mod 10)])"

declare dec_digits.simps [simp del]

text \<open>\<open>std::to_string(int)\<close>.\<close>

definition to_string :: "int \<Rightarrow> string" where
  "to_string i = (if i < 0 then CHR ''-'' # dec_digits (nat (- i)) else dec_digits (nat i))"

definition ring_label :: "string \<Rightarrow> int \<Rightarrow> string" where
  "ring_label event_label cpu = event_label @ ''@cpu'' @ to_string cpu"

text \<open>Reading a decimal back: the labels of distinct rings differ.\<close>

definition dec_value :: "string \<Rightarrow> nat" where
  "dec_value cs = foldl (\<lambda>v c. 10 * v + (of_char c - 48)) 0 cs"

lemma dec_value_digits: "dec_value (dec_digits n) = n"
proof (induction n rule: dec_digits.induct)
  case (1 n)
  then show ?case
    by (cases "n < 10") (simp_all add: dec_digits.simps [of n] dec_value_def)
qed

lemma dec_digits_inj: "dec_digits m = dec_digits n \<Longrightarrow> m = n"
  by (metis dec_value_digits)

lemma dec_digits_not_minus: "c \<in> set (dec_digits n) \<Longrightarrow> c \<noteq> CHR ''-''"
proof (induction n rule: dec_digits.induct)
  case (1 n)
  have "char_of (48 + k) \<noteq> CHR ''-''" if "k < 10" for k :: nat
  proof
    assume "char_of (48 + k) = CHR ''-''"
    then have "of_char (char_of (48 + k)) = (of_char CHR ''-'' :: nat)" by simp
    with that show False by simp
  qed
  then have last: "char_of (48 + n mod 10) \<noteq> CHR ''-''" "n < 10 \<Longrightarrow> char_of (48 + n) \<noteq> CHR ''-''"
    by simp_all
  show ?case
  proof (cases "n < 10")
    case True
    with last(2) 1(2) show ?thesis by (simp add: dec_digits.simps [of n])
  next
    case False
    with last(1) 1 show ?thesis by (auto simp: dec_digits.simps [of n])
  qed
qed

lemma to_string_inj: "to_string i = to_string j \<Longrightarrow> i = j"
proof -
  assume eq: "to_string i = to_string j"
  have nm: "CHR ''-'' # xs \<noteq> dec_digits n" for xs n
    using dec_digits_not_minus [of "CHR ''-''" n] by (metis list.set_intros(1))
  from eq nm nm [symmetric] show "i = j"
    by (auto simp: to_string_def split: if_splits dest: dec_digits_inj)
qed

lemma ring_label_inj: "ring_label l i = ring_label l j \<longleftrightarrow> i = j"
  using to_string_inj by (auto simp: ring_label_def)

section \<open>Fatal errors\<close>

text \<open>The errno values that \<open>diagnose_perf_open_failure\<close> tells apart.\<close>

definition EPERM :: int where "EPERM = 1"
definition ENOENT :: int where "ENOENT = 2"
definition EACCES :: int where "EACCES = 13"
definition EINTR :: int where "EINTR = 4"

datatype open_diagnosis = Paranoid_Too_Restrictive | Event_Not_Implemented | No_Diagnosis

datatype fatal =
    Die string
  | Die_Errno string int
  | Perf_Open_Failed string int open_diagnosis
  | Ring_Overflow string
  | Header_Too_Small string
  | Header_Past_Head string
  | Throttled string
  | Undefined_Behaviour

definition diagnose_perf_open_failure :: "string \<Rightarrow> int \<Rightarrow> fatal" where
  "diagnose_perf_open_failure event_label errno =
     (if errno = EACCES \<or> errno = EPERM
      then Perf_Open_Failed event_label errno Paranoid_Too_Restrictive
      else if errno = ENOENT
      then Perf_Open_Failed event_label errno Event_Not_Implemented
      else Perf_Open_Failed event_label errno No_Diagnosis)"

text \<open>The dash of some messages, in the UTF-8 encoding of the source.\<close>

definition em_dash :: string where
  "em_dash = [CHR 0xE2, CHR 0x80, CHR 0x94]"

text \<open>\<open>": %s (errno %d)\\n"\<close>, after the texts of \<open>strerror\<close>.\<close>

definition errno_text :: "(int \<Rightarrow> string) \<Rightarrow> int \<Rightarrow> string" where
  "errno_text strerror errno = '': '' @ strerror errno @ '' (errno '' @ to_string errno @ '')'' @ [CHR 0x0A]"

fun diagnosis_text :: "open_diagnosis \<Rightarrow> string" where
  "diagnosis_text Paranoid_Too_Restrictive =
     ''  Diagnosis: kernel.perf_event_paranoid is likely too restrictive.'' @ [CHR 0x0A]"
| "diagnosis_text Event_Not_Implemented =
     ''  Diagnosis: this event is not implemented by the running PMU.'' @ [CHR 0x0A]"
| "diagnosis_text No_Diagnosis = []"

text \<open>What the process writes to \<open>stderr\<close>; after undefined behaviour nothing is promised.\<close>

fun fatal_text :: "(int \<Rightarrow> string) \<Rightarrow> fatal \<Rightarrow> string option" where
  "fatal_text strerror (Die what) = Some (''cachelens: fatal: '' @ what @ [CHR 0x0A])"
| "fatal_text strerror (Die_Errno what errno) = Some (''cachelens: fatal: '' @ what @ errno_text strerror errno)"
| "fatal_text strerror (Perf_Open_Failed label errno diagnosis) =
     Some (''cachelens: fatal: perf_event_open('' @ label @ '')'' @ errno_text strerror errno @ diagnosis_text diagnosis)"
| "fatal_text strerror (Ring_Overflow label) =
     Some (''cachelens: fatal: ring buffer overflow on '' @ label @ '': data_head - data_tail exceeds data_size '' @ em_dash @
       '' unread samples were overwritten; this build does not attempt recovery.'' @ [CHR 0x0A])"
| "fatal_text strerror (Header_Too_Small label) =
     Some (''cachelens: fatal: malformed ring buffer record on '' @ label @ '': header.size too small'' @ [CHR 0x0A])"
| "fatal_text strerror (Header_Past_Head label) =
     Some (''cachelens: fatal: malformed ring buffer record on '' @ label @ '': header.size runs past data_head'' @ [CHR 0x0A])"
| "fatal_text strerror (Throttled label) =
     Some (''cachelens: fatal: PERF_RECORD_THROTTLE/UNTHROTTLE observed on '' @ label @
       '': the kernel changed the effective sampling rate mid-run. The sample-count-to-aggregate relationship no longer holds for this ring. With 24 independently-throttled rings (Gate 7), this is materially more likely than it was with 2.'' @
       [CHR 0x0A])"
| "fatal_text strerror Undefined_Behaviour = None"

text \<open>\<open>std::exit(1)\<close> after every message; after undefined behaviour nothing is promised.\<close>

definition fatal_exit_code :: "fatal \<Rightarrow> int option" where
  "fatal_exit_code f = (case f of Undefined_Behaviour \<Rightarrow> None | _ \<Rightarrow> Some 1)"

end
