(* ===== verification/Cli.thy ===== *)
theory Cli
  imports Diagnostics
begin

text \<open>
  The command line of \<open>src/main.cpp\<close>: \<open>main\<close> up to \<open>target_argv\<close>, with the
  \<open>std::strtoll\<close> it calls (base 10, \<open>long long\<close>, clamped when out of range).
\<close>

section \<open>strtoll\<close>

definition is_space :: "char \<Rightarrow> bool" where
  "is_space c \<longleftrightarrow> c = CHR '' '' \<or> (9 \<le> (of_char c :: nat) \<and> (of_char c :: nat) \<le> 13)"

definition is_digit :: "char \<Rightarrow> bool" where
  "is_digit c \<longleftrightarrow> 48 \<le> (of_char c :: nat) \<and> (of_char c :: nat) \<le> 57"

definition LLONG_MAX :: int where "LLONG_MAX = 2 ^ 63 - 1"
definition LLONG_MIN :: int where "LLONG_MIN = - (2 ^ 63)"

definition clamp_llong :: "int \<Rightarrow> int" where
  "clamp_llong v = max LLONG_MIN (min LLONG_MAX v)"

text \<open>The value, and \<open>*end\<close>: all of the argument where no digits were found.\<close>

definition strtoll :: "string \<Rightarrow> int \<times> string" where
  "strtoll s =
     (let t = dropWhile is_space s;
          (neg, u) = (case t of
             [] \<Rightarrow> (False, [])
           | c # cs \<Rightarrow> if c = CHR ''-'' then (True, cs) else if c = CHR ''+'' then (False, cs) else (False, t));
          digits = takeWhile is_digit u
      in if digits = [] then (0, s)
         else (clamp_llong (if neg then - int (dec_value digits) else int (dec_value digits)),
               dropWhile is_digit u))"

section \<open>Arguments\<close>

datatype cli = Usage_Error string int | Profile "u64 option" "string list"

definition parse_target :: "u64 option \<Rightarrow> string list \<Rightarrow> nat \<Rightarrow> cli" where
  "parse_target override argv argi =
     (if length argv \<le> argi \<or> argv ! argi \<noteq> ''--'' \<or> length argv \<le> argi + 1
      then Usage_Error (''usage: '' @ hd argv @ '' [--period N] -- <command> [args...]'') 2
      else Profile override (drop (argi + 1) argv))"

definition parse_args :: "string list \<Rightarrow> cli" where
  "parse_args argv =
     (if 1 < length argv \<and> argv ! 1 = ''--period'' then
        (if length argv \<le> 2 then Usage_Error ''cachelens: --period needs a value'' 2
         else (let (v, end) = strtoll (argv ! 2) in
               if end = argv ! 2 \<or> end \<noteq> [] \<or> v \<le> 0
               then Usage_Error ''cachelens: --period value must be a positive integer'' 2
               else parse_target (Some (word_of_int v)) argv 3))
      else parse_target None argv 1)"

text \<open>The line that \<open>main\<close> prints for the period of each event before it measures.\<close>

definition period_line :: "string \<Rightarrow> u64 \<Rightarrow> u64 option \<Rightarrow> string" where
  "period_line label period override =
     ''period['' @ label @ '']: '' @ dec_digits (unat period) @
     (case override of None \<Rightarrow> '' (calibrated)'' | Some _ \<Rightarrow> '' (override)'') @ [CHR 0x0A]"

section \<open>Reading back what the program prints\<close>

lemma dec_digits_are_digits: "c \<in> set (dec_digits n) \<Longrightarrow> is_digit c"
proof (induction n rule: dec_digits.induct)
  case (1 n)
  have dig: "is_digit (char_of (48 + k))" if "k < 10" for k :: nat
    using that by (simp add: is_digit_def)
  show ?case
  proof (cases "n < 10")
    case True
    with 1(2) dig show ?thesis by (simp add: dec_digits.simps [of n])
  next
    case False
    with 1 dig [of "n mod 10"] show ?thesis by (auto simp: dec_digits.simps [of n])
  qed
qed

lemma dec_digits_not_Nil: "dec_digits n \<noteq> []"
  by (subst dec_digits.simps) simp

lemma digit_not_special: "is_digit c \<Longrightarrow> \<not> is_space c \<and> c \<noteq> CHR ''-'' \<and> c \<noteq> CHR ''+''"
  by (auto simp: is_digit_def is_space_def)

lemma strtoll_digits: "strtoll (dec_digits n) = (clamp_llong (int n), [])"
proof -
  obtain c cs where cs: "dec_digits n = c # cs" using dec_digits_not_Nil by (cases "dec_digits n") auto
  then have "is_digit c" using dec_digits_are_digits [of c n] by simp
  note c = digit_not_special [OF this]
  have all: "takeWhile is_digit (dec_digits n) = dec_digits n" "dropWhile is_digit (dec_digits n) = []"
    using dec_digits_are_digits by (simp_all add: takeWhile_eq_all_conv dropWhile_eq_Nil_conv)
  have "dropWhile is_space (dec_digits n) = dec_digits n" using c cs by simp
  then show ?thesis using all c cs dec_value_digits [of n] by (simp add: strtoll_def)
qed

lemma clamp_llong_nat: "n < 2 ^ 63 \<Longrightarrow> clamp_llong (int n) = int n"
  by (simp add: clamp_llong_def LLONG_MAX_def LLONG_MIN_def)

lemma parse_period:
  assumes "0 < n" "cmd \<noteq> []"
  shows "parse_args ([prog, ''--period'', dec_digits n, ''--''] @ cmd) =
    Profile (Some (word_of_int (clamp_llong (int n)))) cmd"
proof -
  have "0 < clamp_llong (int n)" using assms(1) by (simp add: clamp_llong_def LLONG_MAX_def LLONG_MIN_def)
  moreover have "\<not> length cmd + 4 \<le> 4" using assms(2) by simp
  ultimately show ?thesis
    using dec_digits_not_Nil [of n]
    by (simp add: parse_args_def strtoll_digits parse_target_def eval_nat_numeral)
qed

text \<open>The number in the line of an event with this label.\<close>

definition printed_number :: "string \<Rightarrow> string \<Rightarrow> string" where
  "printed_number label line = takeWhile is_digit (drop (length (''period['' @ label @ '']: '')) line)"

lemma printed_number_line: "printed_number label (period_line label period override) = dec_digits (unat period)"
proof -
  have "takeWhile is_digit (dec_digits n @ CHR '' '' # rest) = dec_digits n" for n rest
    by (subst takeWhile_append2) (auto simp: is_digit_def dest: dec_digits_are_digits)
  then show ?thesis by (cases override) (simp_all add: printed_number_def period_line_def)
qed

section \<open>Properties\<close>

text \<open>
  C37: The number in a printed period line, given back with --period in front of any
  command, is parsed to the same period and the same command, whatever the label, the
  origin and the period below 2^63.
\<close>

theorem printed_period_replays:
  assumes "0 < unat period" "unat period < 2 ^ 63" "cmd \<noteq> []"
  shows "parse_args ([prog, ''--period'', printed_number label (period_line label period override), ''--''] @ cmd) =
    Profile (Some period) cmd"
proof -
  have "clamp_llong (int (unat period)) = int (unat period)" by (rule clamp_llong_nat [OF assms(2)])
  then show ?thesis unfolding printed_number_line using parse_period [OF assms(1,3)] by simp
qed

theorem printed_period_replays_witness:
  "parse_args ([''cachelens'', ''--period'', printed_number ''miss'' (period_line ''miss'' 4099 None), ''--''] @ [''./matrix_bad'']) =
    Profile (Some 4099) [''./matrix_bad'']"
  using printed_period_replays [of 4099 "[''./matrix_bad'']" "''cachelens''" "''miss''" None] by simp

theorem large_period_is_clamped:
  assumes "2 ^ 63 \<le> n" "cmd \<noteq> []"
  shows "parse_args ([prog, ''--period'', dec_digits n, ''--''] @ cmd) = Profile (Some (2 ^ 63 - 1)) cmd"
proof -
  have "clamp_llong (int n) = 2 ^ 63 - 1"
    using assms(1) by (simp add: clamp_llong_def LLONG_MAX_def LLONG_MIN_def)
  moreover have "0 < n" using assms(1) by simp
  ultimately show ?thesis using parse_period [OF _ assms(2), of n prog] by simp
qed

theorem large_period_is_clamped_witness:
  "parse_args ([''cachelens'', ''--period'', dec_digits (10 ^ 20), ''--''] @ [''./a'']) =
    Profile (Some (2 ^ 63 - 1)) [''./a'']"
  by (rule large_period_is_clamped) simp_all

end
