(* ===== verification/Ring_Drain.thy ===== *)
theory Ring_Drain
  imports Diagnostics
begin

text \<open>
  The ring-buffer consumer of \<open>src/main.cpp\<close>: \<open>Sample\<close>, \<open>RecordHistogram\<close>,
  \<open>copy_wrapped\<close> and \<open>drain\<close>. The mapped data area is a byte list; positions and sizes
  are \<open>uint64_t\<close>/\<open>size_t\<close> words that wrap. A copy that would leave the data area is
  \<open>None\<close>. The loop is a partial function: \<open>None\<close> is a drain that never returns.
\<close>

section \<open>State\<close>

record sample =
  s_ip :: u64
  s_pid :: u32
  s_tid :: u32
  s_period :: u64

record record_histogram =
  h_sample :: u64
  h_lost_records :: u64
  h_lost_events :: u64
  h_exit_records :: u64
  h_other :: u64

definition empty_histogram :: record_histogram where
  "empty_histogram = \<lparr>h_sample = 0, h_lost_records = 0, h_lost_events = 0, h_exit_records = 0, h_other = 0\<rparr>"

text \<open>What \<open>drain\<close> updates through its reference parameters.\<close>

record drain_state =
  d_tail :: u64
  d_samples :: "sample list"
  d_hist :: record_histogram

record event_header =
  eh_type :: u32
  eh_misc :: u16
  eh_size :: u16

definition sizeof_header :: u64 where "sizeof_header = 8"

text \<open>The record types of \<open>linux/perf_event.h\<close> that the switch names.\<close>

definition PERF_RECORD_LOST :: u32 where "PERF_RECORD_LOST = 2"
definition PERF_RECORD_EXIT :: u32 where "PERF_RECORD_EXIT = 4"
definition PERF_RECORD_THROTTLE :: u32 where "PERF_RECORD_THROTTLE = 5"
definition PERF_RECORD_UNTHROTTLE :: u32 where "PERF_RECORD_UNTHROTTLE = 6"
definition PERF_RECORD_SAMPLE :: u32 where "PERF_RECORD_SAMPLE = 9"

lemmas record_types = PERF_RECORD_LOST_def PERF_RECORD_EXIT_def PERF_RECORD_THROTTLE_def
  PERF_RECORD_UNTHROTTLE_def PERF_RECORD_SAMPLE_def

section \<open>Operations\<close>

definition read_mem :: "u8 list \<Rightarrow> nat \<Rightarrow> nat \<Rightarrow> u8 list option" where
  "read_mem data off n = (if off + n \<le> length data then Some (slice_at off n data) else None)"

definition copy_wrapped :: "u8 list \<Rightarrow> u64 \<Rightarrow> u64 \<Rightarrow> u64 \<Rightarrow> u8 list option" where
  "copy_wrapped data data_size off len =
     (let first = min len (data_size - off) in
      Option.bind (read_mem data (unat off) (unat first)) (\<lambda>dst.
        if first < len
        then map_option (\<lambda>rest. dst @ rest) (read_mem data 0 (unat (len - first)))
        else Some dst))"

definition decode_header :: "u8 list \<Rightarrow> event_header" where
  "decode_header bs =
     \<lparr>eh_type = le_word (slice_at 0 4 bs), eh_misc = le_word (slice_at 4 2 bs),
      eh_size = le_word (slice_at 6 2 bs)\<rparr>"

definition decode_sample :: "u8 list \<Rightarrow> sample" where
  "decode_sample bs =
     \<lparr>s_ip = le_word (slice_at 0 8 bs), s_pid = le_word (slice_at 8 4 bs),
      s_tid = le_word (slice_at 12 4 bs), s_period = le_word (slice_at 16 8 bs)\<rparr>"

text \<open>The body of a lost record: \<open>id\<close>, then \<open>lost\<close>.\<close>

definition decode_lost :: "u8 list \<Rightarrow> u64 \<times> u64" where
  "decode_lost bs = (le_word (slice_at 0 8 bs), le_word (slice_at 8 8 bs))"

text \<open>The switch on the record type, at ring offset \<open>off\<close>.\<close>

definition drain_switch ::
  "string \<Rightarrow> u8 list \<Rightarrow> u64 \<Rightarrow> u64 \<Rightarrow> event_header \<Rightarrow> drain_state \<Rightarrow> fatal + drain_state" where
  "drain_switch label data data_size off hdr s =
     (if eh_type hdr = PERF_RECORD_SAMPLE then
        (case copy_wrapped data data_size ((off + sizeof_header) mod data_size) 24 of
           None \<Rightarrow> Inl Undefined_Behaviour
         | Some body \<Rightarrow>
             Inr (s\<lparr>d_samples := d_samples s @ [decode_sample body],
                    d_hist := (d_hist s)\<lparr>h_sample := h_sample (d_hist s) + 1\<rparr>\<rparr>))
      else if eh_type hdr = PERF_RECORD_LOST then
        (case copy_wrapped data data_size ((off + sizeof_header) mod data_size) 16 of
           None \<Rightarrow> Inl Undefined_Behaviour
         | Some body \<Rightarrow>
             Inr (s\<lparr>d_hist := (d_hist s)
               \<lparr>h_lost_events := h_lost_events (d_hist s) + snd (decode_lost body),
                h_lost_records := h_lost_records (d_hist s) + 1\<rparr>\<rparr>))
      else if eh_type hdr = PERF_RECORD_EXIT then
        Inr (s\<lparr>d_hist := (d_hist s)\<lparr>h_exit_records := h_exit_records (d_hist s) + 1\<rparr>\<rparr>)
      else if eh_type hdr = PERF_RECORD_THROTTLE \<or> eh_type hdr = PERF_RECORD_UNTHROTTLE then
        Inl (Throttled label)
      else Inr (s\<lparr>d_hist := (d_hist s)\<lparr>h_other := h_other (d_hist s) + 1\<rparr>\<rparr>))"

text \<open>One iteration of the loop.\<close>

definition drain_record ::
  "string \<Rightarrow> u8 list \<Rightarrow> u64 \<Rightarrow> u64 \<Rightarrow> drain_state \<Rightarrow> fatal + drain_state" where
  "drain_record label data data_size head s =
     (let off = d_tail s mod data_size in
      case copy_wrapped data data_size off sizeof_header of
        None \<Rightarrow> Inl Undefined_Behaviour
      | Some bytes \<Rightarrow>
          let hdr = decode_header bytes; size = (ucast (eh_size hdr) :: u64) in
          if size < sizeof_header then Inl (Header_Too_Small label)
          else if head < d_tail s + size then Inl (Header_Past_Head label)
          else
            (case drain_switch label data data_size off hdr s of
               Inl e \<Rightarrow> Inl e
             | Inr s' \<Rightarrow> Inr (s'\<lparr>d_tail := d_tail s' + size\<rparr>)))"

partial_function (option) drain_loop ::
  "string \<Rightarrow> u8 list \<Rightarrow> u64 \<Rightarrow> u64 \<Rightarrow> drain_state \<Rightarrow> (fatal + drain_state) option" where
  "drain_loop label data data_size head s =
     (if d_tail s < head then
        (case drain_record label data data_size head s of
           Inl e \<Rightarrow> Some (Inl e)
         | Inr s' \<Rightarrow> drain_loop label data data_size head s')
      else Some (Inr s))"

text \<open>
  \<open>drain\<close> reads \<open>data_head\<close> once, and publishes the final tail as \<open>data_tail\<close>: the
  result pairs the two.
\<close>

definition drain ::
  "string \<Rightarrow> u64 \<Rightarrow> u8 list \<Rightarrow> u64 \<Rightarrow> drain_state \<Rightarrow> (fatal + u64 \<times> drain_state) option" where
  "drain label data_head data data_size s =
     (if data_size < data_head - d_tail s then Some (Inl (Ring_Overflow label))
      else map_option (map_sum id (\<lambda>s'. (d_tail s', s')))
             (drain_loop label data data_size data_head s))"

section \<open>Reading the ring\<close>

text \<open>
  A ring that the kernel set up: the data area is as long as \<open>data_size\<close> says, holds at
  least the largest fixed-size body, and leaves room for \<open>off + sizeof(hdr)\<close>.
\<close>

definition ring_ok :: "u8 list \<Rightarrow> u64 \<Rightarrow> bool" where
  "ring_ok data data_size \<longleftrightarrow>
     length data = unat data_size \<and> 24 \<le> unat data_size \<and> unat data_size + 8 \<le> 2 ^ 64"

text \<open>The bytes at the \<open>n\<close> positions from \<open>pos\<close> on, positions taken modulo the size.\<close>

definition ring_view :: "u8 list \<Rightarrow> nat \<Rightarrow> nat \<Rightarrow> u8 list" where
  "ring_view data pos n = map (\<lambda>i. data ! ((pos + i) mod length data)) [0..<n]"

lemma length_ring_view [simp]: "length (ring_view data pos n) = n"
  by (simp add: ring_view_def)

lemma ring_view_add: "ring_view data pos (m + n) = ring_view data pos m @ ring_view data (pos + m) n"
proof -
  have "map f [m..<m + n] = map (\<lambda>i. f (m + i)) [0..<n]" for f :: "nat \<Rightarrow> u8"
    by (rule nth_equalityI) simp_all
  then show ?thesis unfolding ring_view_def upt_add_eq_append [OF le0] map_append
    by (simp add: add.assoc)
qed

lemma take_ring_view: "n \<le> m \<Longrightarrow> take n (ring_view data pos m) = ring_view data pos n"
  by (simp add: ring_view_def take_map)

lemma drop_ring_view: "drop n (ring_view data pos (n + m)) = ring_view data (pos + n) m"
  by (simp add: ring_view_add)

lemma ring_view_mod: "ring_view data (pos mod length data) n = ring_view data pos n"
  by (simp add: ring_view_def mod_add_left_eq)

lemma ring_view_straight:
  "off + n \<le> length data \<Longrightarrow> ring_view data off n = slice_at off n data"
  by (rule nth_equalityI) (simp_all add: ring_view_def slice_at_def)

lemma copy_wrapped_view:
  assumes "length data = unat data_size" "unat off < unat data_size" "unat len \<le> unat data_size"
  shows "copy_wrapped data data_size off len = Some (ring_view data (unat off) (unat len))"
proof -
  let ?room = "unat data_size - unat off"
  have room: "unat (data_size - off) = ?room"
    using assms by (simp add: unat_diff_le)
  show ?thesis
  proof (cases "len \<le> data_size - off")
    case True
    then have "unat off + unat len \<le> length data" using room assms by (simp add: word_nat)
    with True show ?thesis
      by (simp add: copy_wrapped_def read_mem_def min_absorb1 ring_view_straight)
  next
    case False
    then have lt: "?room < unat len" using room by (simp add: word_nat)
    have rest: "unat (len - (data_size - off)) = unat len - ?room"
      using lt room by (simp add: unat_diff_le)
    have first: "ring_view data (unat off) ?room = slice_at (unat off) ?room data"
      using assms by (intro ring_view_straight) simp
    have "ring_view data (unat off + ?room) (unat len - ?room)
        = ring_view data 0 (unat len - ?room)"
      using assms ring_view_mod [of data "unat off + ?room"] by simp
    also have "\<dots> = slice_at 0 (unat len - ?room) data"
      using assms lt by (intro ring_view_straight) linarith
    finally have "ring_view data (unat off) (unat len)
        = slice_at (unat off) ?room data @ slice_at 0 (unat len - ?room) data"
      using ring_view_add [of data "unat off" ?room "unat len - ?room"] lt first by simp
    moreover from False have "data_size - off < len" and "min len (data_size - off) = data_size - off"
      by simp_all
    ultimately show ?thesis using lt room rest assms
      by (simp add: copy_wrapped_def read_mem_def)
  qed
qed

text \<open>The two copies that \<open>drain\<close> makes at a tail: the header, and a body behind it.\<close>

lemma copy_header:
  assumes "ring_ok data data_size"
  shows "copy_wrapped data data_size (tail mod data_size) sizeof_header
    = Some (ring_view data (unat tail) 8)"
proof -
  from assms have "unat (tail mod data_size) < unat data_size" by (simp add: ring_ok_def unat_mod)
  with assms copy_wrapped_view [of data data_size "tail mod data_size" sizeof_header] show ?thesis
    using ring_view_mod [of data "unat tail" 8]
    by (simp add: ring_ok_def sizeof_header_def unat_mod)
qed

lemma copy_body:
  assumes "ring_ok data data_size" "unat n \<le> 24"
  shows "copy_wrapped data data_size ((tail mod data_size + sizeof_header) mod data_size) n
    = Some (ring_view data (unat tail + 8) (unat n))"
proof -
  let ?off = "(tail mod data_size + sizeof_header) mod data_size"
  have "unat tail mod unat data_size < unat data_size" using assms by (simp add: ring_ok_def)
  then have "unat tail mod unat data_size + 8 < 2 ^ 64"
    using assms unfolding ring_ok_def by linarith
  then have "unat (tail mod data_size + sizeof_header) = unat tail mod unat data_size + 8"
    by (subst unat_add_no_wrap) (simp_all add: unat_mod sizeof_header_def)
  then have off: "unat ?off = (unat tail + 8) mod unat data_size"
    by (simp add: unat_mod mod_add_left_eq)
  moreover from assms have "(unat tail + 8) mod unat data_size < unat data_size"
    by (simp add: ring_ok_def)
  ultimately show ?thesis
    using assms copy_wrapped_view [of data data_size ?off n]
      ring_view_mod [of data "unat tail + 8" "unat n"]
    by (simp add: ring_ok_def)
qed

section \<open>Any ring contents: the drain returns, in bounds\<close>

lemma unat_ucast_u16: "unat (ucast (w :: u16) :: u64) = unat w"
  using unat_bound [of w] by (simp add: unsigned_ucast_eq take_bit_nat_eq_self)

lemma ucast_u16_bound: "unat (ucast (w :: u16) :: u64) < 2 ^ 16"
  using unat_bound [of w] by (simp add: unat_ucast_u16)

lemma drain_switch_tail: "drain_switch label data data_size off hdr s = Inr s' \<Longrightarrow> d_tail s' = d_tail s"
  by (auto simp: drain_switch_def split: if_splits option.splits)

lemma drain_switch_defined:
  "ring_ok data data_size \<Longrightarrow>
   drain_switch label data data_size (tail mod data_size) hdr s \<noteq> Inl Undefined_Behaviour"
  by (simp add: drain_switch_def copy_body)

lemma drain_record_defined:
  "ring_ok data data_size \<Longrightarrow> drain_record label data data_size head s \<noteq> Inl Undefined_Behaviour"
  using drain_switch_defined [of data data_size label "d_tail s"]
  by (auto simp: drain_record_def copy_header Let_def split: sum.splits)

text \<open>A step that succeeds moves the tail forward, by at least a header and not past the head.\<close>

lemma drain_record_advances:
  assumes "ring_ok data data_size" "drain_record label data data_size head s = Inr s'"
    and "unat (d_tail s) + 2 ^ 16 \<le> 2 ^ 64"
  shows "unat (d_tail s) + 8 \<le> unat (d_tail s')" and "unat (d_tail s') \<le> unat head"
proof -
  let ?size = "ucast (eh_size (decode_header (ring_view data (unat (d_tail s)) 8))) :: u64"
  from assms(1,2) have tail: "d_tail s' = d_tail s + ?size"
    and size: "\<not> ?size < sizeof_header" and head: "\<not> head < d_tail s + ?size"
    by (auto simp: drain_record_def copy_header Let_def drain_switch_tail
        split: sum.splits if_splits)
  have "unat (d_tail s) + unat ?size < 2 ^ 64"
    using assms(3) ucast_u16_bound [of "eh_size (decode_header (ring_view data (unat (d_tail s)) 8))"]
    by linarith
  then have "unat (d_tail s + ?size) = unat (d_tail s) + unat ?size"
    by (intro unat_add_no_wrap) simp
  with tail size show "unat (d_tail s) + 8 \<le> unat (d_tail s')"
    by (simp add: word_less_nat_alt sizeof_header_def)
  from tail head show "unat (d_tail s') \<le> unat head" by (simp add: word_less_nat_alt)
qed

lemma drain_loop_returns:
  assumes "ring_ok data data_size" "unat (d_tail s) \<le> unat head" "unat head + 2 ^ 16 \<le> 2 ^ 64"
  shows "\<exists>r. drain_loop label data data_size head s = Some r \<and> r \<noteq> Inl Undefined_Behaviour \<and>
    (\<forall>s'. r = Inr s' \<longrightarrow> d_tail s' = head)"
  using assms(2)
proof (induction "unat head - unat (d_tail s)" arbitrary: s rule: less_induct)
  case less
  show ?case
  proof (cases "d_tail s < head")
    case False
    with less.prems have "d_tail s = head" by (simp add: word_nat)
    with False show ?thesis by (subst drain_loop.simps) simp
  next
    case True
    show ?thesis
    proof (cases "drain_record label data data_size head s")
      case (Inl e)
      with True drain_record_defined [OF assms(1)] show ?thesis
        by (subst drain_loop.simps) (auto dest: sym)
    next
      case (Inr s')
      from less.prems assms(3) have "unat (d_tail s) + 2 ^ 16 \<le> 2 ^ 64" by linarith
      note adv = drain_record_advances [OF assms(1) Inr this]
      from True have "unat (d_tail s) < unat head" by (simp add: word_nat)
      with adv have "unat head - unat (d_tail s') < unat head - unat (d_tail s)" by linarith
      with less.hyps adv(2) have "\<exists>r. drain_loop label data data_size head s' = Some r \<and>
        r \<noteq> Inl Undefined_Behaviour \<and> (\<forall>s'. r = Inr s' \<longrightarrow> d_tail s' = head)" by blast
      with True Inr show ?thesis by (subst drain_loop.simps) simp
    qed
  qed
qed

section \<open>What the kernel writes\<close>

text \<open>
  A record as the kernel lays it out: a header whose \<open>size\<close> counts header and body, then
  the body. \<open>apply_record\<close> is what a consumer owes to one record.
\<close>

record perf_record =
  pr_type :: u32
  pr_misc :: u16
  pr_body :: "u8 list"

definition record_size :: "perf_record \<Rightarrow> nat" where
  "record_size r = 8 + length (pr_body r)"

definition enc_record :: "perf_record \<Rightarrow> u8 list" where
  "enc_record r = word_le 4 (pr_type r) @ word_le 2 (pr_misc r) @
     word_le 2 (word_of_nat (record_size r) :: u16) @ pr_body r"

definition wf_record :: "perf_record \<Rightarrow> bool" where
  "wf_record r \<longleftrightarrow> record_size r < 2 ^ 16 \<and>
     (pr_type r = PERF_RECORD_SAMPLE \<longrightarrow> 24 \<le> length (pr_body r)) \<and>
     (pr_type r = PERF_RECORD_LOST \<longrightarrow> 16 \<le> length (pr_body r))"

definition throttles :: "perf_record \<Rightarrow> bool" where
  "throttles r \<longleftrightarrow> pr_type r = PERF_RECORD_THROTTLE \<or> pr_type r = PERF_RECORD_UNTHROTTLE"

definition apply_record :: "perf_record \<Rightarrow> drain_state \<Rightarrow> drain_state" where
  "apply_record r s =
     (let s = s\<lparr>d_tail := d_tail s + word_of_nat (record_size r)\<rparr>; h = d_hist s in
      if pr_type r = PERF_RECORD_SAMPLE then
        s\<lparr>d_samples := d_samples s @ [decode_sample (take 24 (pr_body r))],
          d_hist := h\<lparr>h_sample := h_sample h + 1\<rparr>\<rparr>
      else if pr_type r = PERF_RECORD_LOST then
        s\<lparr>d_hist := h\<lparr>h_lost_events := h_lost_events h + snd (decode_lost (take 16 (pr_body r))),
                      h_lost_records := h_lost_records h + 1\<rparr>\<rparr>
      else if pr_type r = PERF_RECORD_EXIT then
        s\<lparr>d_hist := h\<lparr>h_exit_records := h_exit_records h + 1\<rparr>\<rparr>
      else s\<lparr>d_hist := h\<lparr>h_other := h_other h + 1\<rparr>\<rparr>)"

text \<open>The ring holds the byte string \<open>bs\<close> from position \<open>pos\<close> on.\<close>

definition ring_holds :: "u8 list \<Rightarrow> nat \<Rightarrow> u8 list \<Rightarrow> bool" where
  "ring_holds data pos bs \<longleftrightarrow> ring_view data pos (length bs) = bs"

lemma ring_holds_append:
  "ring_holds data pos (xs @ ys) \<longleftrightarrow> ring_holds data pos xs \<and> ring_holds data (pos + length xs) ys"
  by (simp add: ring_holds_def ring_view_add)

lemma length_enc_record: "length (enc_record r) = record_size r"
  by (simp add: enc_record_def record_size_def)

lemma decode_header_enc:
  "decode_header (take 8 (enc_record r)) =
     \<lparr>eh_type = pr_type r, eh_misc = pr_misc r, eh_size = word_of_nat (record_size r)\<rparr>"
  by (simp add: decode_header_def enc_record_def slice_at_def le_word_word_le)

lemma ring_holds_record:
  assumes "ring_holds data pos (enc_record r)"
  shows "ring_view data pos 8 = take 8 (enc_record r)"
    and "n \<le> length (pr_body r) \<Longrightarrow> ring_view data (pos + 8) n = take n (pr_body r)"
proof -
  have enc: "enc_record r = take 8 (enc_record r) @ pr_body r" "length (take 8 (enc_record r)) = 8"
    by (simp_all add: enc_record_def)
  from assms enc have h: "ring_holds data pos (take 8 (enc_record r) @ pr_body r)" by metis
  with enc(2) show "ring_view data pos 8 = take 8 (enc_record r)"
    by (simp only: ring_holds_append) (simp add: ring_holds_def)
  from h enc(2) have "ring_view data (pos + 8) (length (pr_body r)) = pr_body r"
    by (simp only: ring_holds_append) (simp add: ring_holds_def)
  then show "n \<le> length (pr_body r) \<Longrightarrow> ring_view data (pos + 8) n = take n (pr_body r)"
    by (metis take_ring_view)
qed

section \<open>Decoding what the kernel wrote\<close>

lemma drain_record_decodes:
  assumes "ring_ok data data_size" "wf_record r"
    and "ring_holds data (unat (d_tail s)) (enc_record r)"
    and "unat (d_tail s) + record_size r \<le> unat head"
  shows "drain_record label data data_size head s =
    (if throttles r then Inl (Throttled label) else Inr (apply_record r s))"
proof -
  let ?size = "ucast (word_of_nat (record_size r) :: u16) :: u64"
  have sz: "unat ?size = record_size r"
    using assms(2) by (simp add: unat_ucast_u16 wf_record_def unat_of_nat)
  then have szw: "?size = word_of_nat (record_size r)" by (metis of_nat_eq_unat)
  have ge: "\<not> ?size < sizeof_header"
    using sz by (simp add: word_less_nat_alt sizeof_header_def record_size_def)
  have "unat (d_tail s + ?size) = unat (d_tail s) + record_size r"
    using assms(4) unat_u64_bound [of head] sz by (subst unat_add_no_wrap) simp_all
  then have le: "\<not> head < d_tail s + ?size" using assms(4) by (simp add: word_less_nat_alt)
  note view = ring_holds_record [OF assms(3)]
  have wf: "pr_type r = PERF_RECORD_SAMPLE \<Longrightarrow> 24 \<le> length (pr_body r)"
    "pr_type r = PERF_RECORD_LOST \<Longrightarrow> 16 \<le> length (pr_body r)"
    using assms(2) by (simp_all add: wf_record_def)
  have "drain_record label data data_size head s =
    (case drain_switch label data data_size (d_tail s mod data_size)
        \<lparr>eh_type = pr_type r, eh_misc = pr_misc r, eh_size = word_of_nat (record_size r)\<rparr> s of
       Inl e \<Rightarrow> Inl e | Inr s' \<Rightarrow> Inr (s'\<lparr>d_tail := d_tail s' + ?size\<rparr>))"
    using ge le by (simp add: drain_record_def copy_header [OF assms(1)] view(1) decode_header_enc)
  also have "\<dots> = (if throttles r then Inl (Throttled label) else Inr (apply_record r s))"
    using wf unfolding szw
    by (auto simp: drain_switch_def copy_body [OF assms(1)] view(2) apply_record_def Let_def
        throttles_def record_types)
  finally show ?thesis .
qed

text \<open>A run of records, up to the first one that reports throttling.\<close>

fun consume :: "string \<Rightarrow> perf_record list \<Rightarrow> drain_state \<Rightarrow> fatal + drain_state" where
  "consume label [] s = Inr s"
| "consume label (r # rs) s =
     (if throttles r then Inl (Throttled label) else consume label rs (apply_record r s))"

definition stream_size :: "perf_record list \<Rightarrow> nat" where
  "stream_size rs = length (concat (map enc_record rs))"

lemma stream_size_simps [simp]:
  "stream_size [] = 0"
  "stream_size (r # rs) = record_size r + stream_size rs"
  by (simp_all add: stream_size_def length_enc_record)

lemma tail_apply_record: "d_tail (apply_record r s) = d_tail s + word_of_nat (record_size r)"
  by (simp add: apply_record_def Let_def)

lemma drain_loop_decodes:
  assumes "ring_ok data data_size" "\<forall>r\<in>set rs. wf_record r"
    and "ring_holds data (unat (d_tail s)) (concat (map enc_record rs))"
    and "unat (d_tail s) + stream_size rs = unat head"
  shows "drain_loop label data data_size head s = Some (consume label rs s)"
  using assms(2-)
proof (induction rs arbitrary: s)
  case Nil
  then have "d_tail s = head" by (simp add: word_unat_eq_iff)
  then show ?case by (subst drain_loop.simps) simp
next
  case (Cons r rs)
  have "d_tail s < head" using Cons.prems(3) by (simp add: word_less_nat_alt record_size_def)
  moreover have "drain_record label data data_size head s =
      (if throttles r then Inl (Throttled label) else Inr (apply_record r s))"
    using Cons.prems by (intro drain_record_decodes [OF assms(1)]) (simp_all add: ring_holds_append)
  moreover have "drain_loop label data data_size head (apply_record r s)
      = Some (consume label rs (apply_record r s))"
  proof -
    have t: "unat (d_tail (apply_record r s)) = unat (d_tail s) + record_size r"
      using Cons.prems(3) unat_u64_bound [of head] unfolding tail_apply_record
      by (subst unat_add_no_wrap) (simp_all add: unat_of_nat)
    show ?thesis
      using Cons.prems by (intro Cons.IH) (simp_all add: t ring_holds_append length_enc_record)
  qed
  ultimately show ?case by (subst drain_loop.simps) simp
qed

lemma drain_decodes:
  assumes "ring_ok data data_size" "\<forall>r\<in>set rs. wf_record r"
    and "ring_holds data (unat (d_tail s)) (concat (map enc_record rs))"
    and "unat (d_tail s) + stream_size rs = unat head" "stream_size rs \<le> unat data_size"
  shows "drain label head data data_size s =
    Some (map_sum id (\<lambda>s'. (d_tail s', s')) (consume label rs s))"
proof -
  have "unat (head - d_tail s) = stream_size rs"
    using assms(4) by (subst unat_diff_le) simp_all
  with assms show ?thesis
    by (simp add: drain_def drain_loop_decodes word_less_nat_alt)
qed

lemma consume_append:
  "consume label (rs @ rs') s =
    (case consume label rs s of Inl e \<Rightarrow> Inl e | Inr s' \<Rightarrow> consume label rs' s')"
  by (induction rs arbitrary: s) simp_all

text \<open>Without a throttle record the samples and the counters are what the stream holds.\<close>

definition sample_of :: "perf_record \<Rightarrow> sample" where
  "sample_of r = decode_sample (take 24 (pr_body r))"

definition of_type :: "u32 \<Rightarrow> perf_record list \<Rightarrow> perf_record list" where
  "of_type t rs = filter (\<lambda>r. pr_type r = t) rs"

definition stream_effect :: "perf_record list \<Rightarrow> drain_state \<Rightarrow> drain_state \<Rightarrow> bool" where
  "stream_effect rs s s' \<longleftrightarrow>
    d_tail s' = d_tail s + word_of_nat (stream_size rs) \<and>
    d_samples s' = d_samples s @ map sample_of (of_type PERF_RECORD_SAMPLE rs) \<and>
    h_sample (d_hist s') = h_sample (d_hist s) + word_of_nat (length (of_type PERF_RECORD_SAMPLE rs)) \<and>
    h_lost_records (d_hist s') =
      h_lost_records (d_hist s) + word_of_nat (length (of_type PERF_RECORD_LOST rs)) \<and>
    h_lost_events (d_hist s') = h_lost_events (d_hist s) +
      (\<Sum>r\<leftarrow>of_type PERF_RECORD_LOST rs. snd (decode_lost (take 16 (pr_body r)))) \<and>
    h_exit_records (d_hist s') =
      h_exit_records (d_hist s) + word_of_nat (length (of_type PERF_RECORD_EXIT rs)) \<and>
    h_other (d_hist s') = h_other (d_hist s) +
      word_of_nat (length (filter (\<lambda>r. pr_type r \<noteq> PERF_RECORD_SAMPLE \<and>
        pr_type r \<noteq> PERF_RECORD_LOST \<and> pr_type r \<noteq> PERF_RECORD_EXIT) rs))"

lemma stream_effect_Nil: "stream_effect [] s s"
  by (simp add: stream_effect_def of_type_def)

lemma stream_effect_Cons:
  "stream_effect rs (apply_record r s) s' \<Longrightarrow> stream_effect (r # rs) s s'"
proof -
  consider "pr_type r = PERF_RECORD_SAMPLE" | "pr_type r = PERF_RECORD_LOST"
    | "pr_type r = PERF_RECORD_EXIT"
    | "pr_type r \<noteq> PERF_RECORD_SAMPLE" "pr_type r \<noteq> PERF_RECORD_LOST" "pr_type r \<noteq> PERF_RECORD_EXIT"
    by blast
  then show "stream_effect rs (apply_record r s) s' \<Longrightarrow> stream_effect (r # rs) s s'"
    by cases (simp_all add: stream_effect_def apply_record_def Let_def of_type_def sample_of_def
        record_types add.assoc)
qed

lemma consume_stream:
  "\<forall>r\<in>set rs. \<not> throttles r \<Longrightarrow> \<exists>s'. consume label rs s = Inr s' \<and> stream_effect rs s s'"
proof (induction rs arbitrary: s)
  case Nil
  then show ?case by (simp add: stream_effect_Nil)
next
  case (Cons r rs)
  then obtain s' where "consume label rs (apply_record r s) = Inr s'"
    and "stream_effect rs (apply_record r s) s'" by auto
  with Cons.prems show ?case by (auto intro: stream_effect_Cons)
qed

text \<open>Sample records round trip through the ring.\<close>

definition enc_sample :: "sample \<Rightarrow> u8 list" where
  "enc_sample x = word_le 8 (s_ip x) @ word_le 4 (s_pid x) @ word_le 4 (s_tid x) @ word_le 8 (s_period x)"

definition sample_record :: "u16 \<Rightarrow> sample \<Rightarrow> perf_record" where
  "sample_record misc x = \<lparr>pr_type = PERF_RECORD_SAMPLE, pr_misc = misc, pr_body = enc_sample x\<rparr>"

lemma decode_enc_sample: "decode_sample (enc_sample x) = x"
  by (simp add: decode_sample_def enc_sample_def slice_at_def le_word_word_le)

lemma length_enc_sample [simp]: "length (enc_sample x) = 24"
  by (simp add: enc_sample_def)

lemma sample_of_record [simp]: "sample_of (sample_record misc x) = x"
  by (simp add: sample_of_def sample_record_def decode_enc_sample)

lemma wf_sample_record [simp]: "wf_record (sample_record misc x)"
  by (simp add: wf_record_def sample_record_def record_size_def record_types)

lemma sample_record_type [simp]:
  "pr_type (sample_record misc x) = PERF_RECORD_SAMPLE" "\<not> throttles (sample_record misc x)"
  by (simp_all add: sample_record_def throttles_def record_types)

lemma body_sample_record [simp]: "pr_body (sample_record misc x) = enc_sample x"
  by (simp add: sample_record_def)

lemma record_size_sample [simp]: "record_size (sample_record misc x) = 32"
  by (simp add: record_size_def sample_record_def)

lemma length_enc_sample_record [simp]: "length (enc_record (sample_record misc x)) = 32"
  by (simp add: length_enc_record)

text \<open>A byte string written at a position of a ring of its own length.\<close>

lemma ring_holds_rotate:
  assumes "(m + pos) mod length bs = 0"
  shows "ring_holds (rotate m bs) pos bs"
  unfolding ring_holds_def ring_view_def
proof (rule nth_equalityI)
  fix i assume "i < length (map (\<lambda>i. rotate m bs ! ((pos + i) mod length (rotate m bs))) [0..<length bs])"
  then have i: "i < length bs" by simp
  have "(m + (pos + i) mod length bs) mod length bs = ((m + pos) mod length bs + i) mod length bs"
    by (simp add: mod_add_left_eq mod_add_right_eq add.assoc)
  moreover from i have "(pos + i) mod length bs < length bs" by (intro mod_less_divisor) linarith
  ultimately show "map (\<lambda>i. rotate m bs ! ((pos + i) mod length (rotate m bs))) [0..<length bs] ! i = bs ! i"
    using assms i by (simp add: nth_rotate)
qed simp

lemma stream_effect_tail:
  assumes "stream_effect rs s s'" "unat (d_tail s) + stream_size rs = unat head"
  shows "d_tail s' = head"
proof -
  have "head = word_of_nat (unat (d_tail s) + stream_size rs)" unfolding assms(2) by simp
  with assms(1) show ?thesis by (simp add: stream_effect_def)
qed

lemma stream_size_append [simp]: "stream_size (rs @ rs') = stream_size rs + stream_size rs'"
  by (simp add: stream_size_def)

lemma consume_throttled:
  "\<exists>r\<in>set rs. throttles r \<Longrightarrow> consume label rs s = Inl (Throttled label)"
  by (induction rs arbitrary: s) auto

text \<open>The overflow message can only come from the check before the loop.\<close>

lemma drain_record_no_overflow: "drain_record label data data_size head s \<noteq> Inl (Ring_Overflow l)"
  by (auto simp: drain_record_def drain_switch_def Let_def split: option.splits sum.splits if_splits)

lemma drain_loop_no_overflow: "drain_loop label data data_size head s \<noteq> Some (Inl (Ring_Overflow l))"
proof
  assume ret: "drain_loop label data data_size head s = Some (Inl (Ring_Overflow l))"
  have "Inl (Ring_Overflow l) \<noteq> (Inl (Ring_Overflow l) :: fatal + drain_state)"
  proof (rule drain_loop.raw_induct
      [where P = "\<lambda>_ _ _ _ _ r. r \<noteq> Inl (Ring_Overflow l)", OF _ ret])
    fix f label data data_size head s r
    assume "\<And>label data data_size head s r.
        f label data data_size head s = Some r \<Longrightarrow> r \<noteq> Inl (Ring_Overflow l)"
      and "(if d_tail s < head then
          case drain_record label data data_size head s of
            Inl e \<Rightarrow> Some (Inl e) | Inr s' \<Rightarrow> f label data data_size head s'
        else Some (Inr s)) = Some r"
    then show "r \<noteq> Inl (Ring_Overflow l)"
      using drain_record_no_overflow [of label data data_size head s l]
      by (auto split: if_splits sum.splits)
  qed
  then show False by simp
qed

section \<open>Properties\<close>

text \<open>
  C3: When the ring holds well-formed kernel records, none of them a throttle, from
  data_tail to data_head, at any ring offset and wrapped or not, drain returns,
  publishes data_head as data_tail, appends exactly the decoded samples in order and
  counts every record, lost event and exit record, whatever was there before.
\<close>

theorem drain_delivers_stream:
  assumes "ring_ok data data_size"
    and "\<forall>r\<in>set rs. wf_record r \<and> \<not> throttles r"
    and "ring_holds data (unat (d_tail s)) (concat (map enc_record rs))"
    and "unat (d_tail s) + stream_size rs = unat head" "stream_size rs \<le> unat data_size"
  shows "\<exists>s'. drain label head data data_size s = Some (Inr (head, s')) \<and> stream_effect rs s s'"
proof -
  obtain s' where s': "consume label rs s = Inr s'" "stream_effect rs s s'"
    using consume_stream [of rs label s] assms(2) by auto
  have "d_tail s' = head" using s'(2) assms(4) by (rule stream_effect_tail)
  with s'(1) have "map_sum id (\<lambda>s'. (d_tail s', s')) (consume label rs s) = Inr (head, s')" by simp
  with s'(2) show ?thesis using drain_decodes [of data data_size rs s head label] assms by simp
qed

theorem drain_delivers_stream_witness:
  "\<exists>s'. drain ''miss@cpu3'' 60 (rotate 4 (enc_record (sample_record 2
        \<lparr>s_ip = 4198400, s_pid = 7, s_tid = 8, s_period = 4099\<rparr>))) 32
      \<lparr>d_tail = 28, d_samples = [], d_hist = empty_histogram\<rparr> = Some (Inr (60, s')) \<and>
    stream_effect [sample_record 2 \<lparr>s_ip = 4198400, s_pid = 7, s_tid = 8, s_period = 4099\<rparr>]
      \<lparr>d_tail = 28, d_samples = [], d_hist = empty_histogram\<rparr> s'"
  by (rule drain_delivers_stream) (simp_all add: ring_ok_def ring_holds_rotate)

theorem successive_drains_compose:
  assumes "ring_ok data data_size" "ring_ok data' data_size"
    and "\<forall>r\<in>set rs \<union> set rs'. wf_record r \<and> \<not> throttles r"
    and "ring_holds data (unat (d_tail s)) (concat (map enc_record rs))"
    and "ring_holds data' (unat head) (concat (map enc_record rs'))"
    and "unat (d_tail s) + stream_size rs = unat head" "stream_size rs \<le> unat data_size"
    and "unat head + stream_size rs' = unat head'" "stream_size rs' \<le> unat data_size"
  shows "\<exists>s1 s2. drain label head data data_size s = Some (Inr (head, s1)) \<and>
    drain label head' data' data_size s1 = Some (Inr (head', s2)) \<and>
    stream_effect (rs @ rs') s s2"
proof -
  obtain s2 where s2: "consume label (rs @ rs') s = Inr s2" "stream_effect (rs @ rs') s s2"
    using consume_stream [of "rs @ rs'" label s] assms(3) by auto
  then obtain s1 where s1: "consume label rs s = Inr s1" "consume label rs' s1 = Inr s2"
    by (auto simp: consume_append split: sum.splits)
  have "stream_effect rs s s1" using consume_stream [of rs label s] assms(3) s1 by auto
  then have t1: "d_tail s1 = head" using assms(6) by (rule stream_effect_tail)
  have t2: "d_tail s2 = head'"
    using s2(2) assms(6,8) by (intro stream_effect_tail [of "rs @ rs'" s s2]) simp_all
  have "drain label head data data_size s = Some (Inr (head, s1))"
    using drain_decodes [of data data_size rs s head label] assms s1 t1 by simp
  moreover have "drain label head' data' data_size s1 = Some (Inr (head', s2))"
    using drain_decodes [of data' data_size rs' s1 head' label] assms s1 t1 t2 by simp
  ultimately show ?thesis using s2(2) by blast
qed

theorem successive_drains_compose_witness:
  "\<exists>s1 s2. drain ''access@cpu0'' 32
        (enc_record (sample_record 2 \<lparr>s_ip = 4198400, s_pid = 7, s_tid = 8, s_period = 4099\<rparr>)) 32
      \<lparr>d_tail = 0, d_samples = [], d_hist = empty_histogram\<rparr> = Some (Inr (32, s1)) \<and>
    drain ''access@cpu0'' 64
        (enc_record (sample_record 2 \<lparr>s_ip = 4198404, s_pid = 7, s_tid = 9, s_period = 4099\<rparr>)) 32 s1
      = Some (Inr (64, s2)) \<and>
    stream_effect
      ([sample_record 2 \<lparr>s_ip = 4198400, s_pid = 7, s_tid = 8, s_period = 4099\<rparr>] @
       [sample_record 2 \<lparr>s_ip = 4198404, s_pid = 7, s_tid = 9, s_period = 4099\<rparr>])
      \<lparr>d_tail = 0, d_samples = [], d_hist = empty_histogram\<rparr> s2"
  using ring_holds_rotate [of 0 0] ring_holds_rotate [of 0 32]
  by (intro successive_drains_compose) (simp_all add: ring_ok_def)

text \<open>
  C23: For arbitrary ring contents, corrupt ones included, drain returns, never reads
  outside the mapped data area, and if it succeeds it has consumed everything up to
  data_head.
\<close>

theorem drain_returns_in_bounds:
  assumes "ring_ok data data_size"
    and "unat (d_tail s) \<le> unat head" "unat head + 2 ^ 16 \<le> 2 ^ 64"
  shows "\<exists>r. drain label head data data_size s = Some r \<and> r \<noteq> Inl Undefined_Behaviour \<and>
    (\<forall>published s'. r = Inr (published, s') \<longrightarrow> published = head \<and> d_tail s' = head)"
proof (cases "data_size < head - d_tail s")
  case True
  then show ?thesis by (simp add: drain_def)
next
  case False
  obtain r where r: "drain_loop label data data_size head s = Some r" "r \<noteq> Inl Undefined_Behaviour"
    "\<forall>s'. r = Inr s' \<longrightarrow> d_tail s' = head"
    using drain_loop_returns [OF assms] by blast
  with False show ?thesis by (cases r) (auto simp: drain_def)
qed

theorem drain_returns_in_bounds_witness:
  "\<exists>r. drain ''miss@cpu0'' 40 (replicate 64 0) 64
      \<lparr>d_tail = 8, d_samples = [], d_hist = empty_histogram\<rparr> = Some r \<and>
    r \<noteq> Inl Undefined_Behaviour \<and>
    (\<forall>published s'. r = Inr (published, s') \<longrightarrow> published = 40 \<and> d_tail s' = 40)"
  by (rule drain_returns_in_bounds) (simp_all add: ring_ok_def)

text \<open>
  C24: If the stream contains a THROTTLE or UNTHROTTLE record anywhere, the drain ends
  the process with the throttle message of that ring, whatever precedes the record.
\<close>

theorem drain_stops_on_throttle:
  assumes "ring_ok data data_size" "\<forall>r\<in>set rs. wf_record r"
    and "ring_holds data (unat (d_tail s)) (concat (map enc_record rs))"
    and "unat (d_tail s) + stream_size rs = unat head" "stream_size rs \<le> unat data_size"
    and "\<exists>r\<in>set rs. throttles r"
  shows "drain label head data data_size s = Some (Inl (Throttled label))"
  using drain_decodes [OF assms(1-5)] consume_throttled [OF assms(6)] by simp

theorem drain_stops_on_throttle_witness:
  "drain ''miss@cpu1'' 40 (enc_record (sample_record 2
        \<lparr>s_ip = 4198400, s_pid = 7, s_tid = 8, s_period = 4099\<rparr>) @
      enc_record \<lparr>pr_type = PERF_RECORD_THROTTLE, pr_misc = 0, pr_body = []\<rparr>) 40
    \<lparr>d_tail = 0, d_samples = [], d_hist = empty_histogram\<rparr> = Some (Inl (Throttled ''miss@cpu1''))"
  using ring_holds_rotate [of 0 0]
  by (intro drain_stops_on_throttle [where rs = "[sample_record 2
        \<lparr>s_ip = 4198400, s_pid = 7, s_tid = 8, s_period = 4099\<rparr>,
      \<lparr>pr_type = PERF_RECORD_THROTTLE, pr_misc = 0, pr_body = []\<rparr>]"])
    (simp_all add: ring_ok_def length_enc_record record_size_def wf_record_def record_types
      throttles_def)

theorem drain_overflow_iff:
  "drain label head data data_size s = Some (Inl (Ring_Overflow label)) \<longleftrightarrow>
     data_size < head - d_tail s"
proof (cases "data_size < head - d_tail s")
  case True
  then show ?thesis by (simp add: drain_def)
next
  case False
  then show ?thesis
    using drain_loop_no_overflow [of label data data_size head s]
    by (auto simp: drain_def map_sum_def split: sum.splits option.splits)
qed

text \<open>
  C28: A SAMPLE record whose size covers only its header is accepted: the drain decodes
  the 24 bytes behind data_head, which the kernel has not published, as a sample.
\<close>

theorem drain_reads_past_short_sample:
  assumes "ring_ok data data_size"
    and "ring_view data (unat (d_tail s)) 8 =
      enc_record \<lparr>pr_type = PERF_RECORD_SAMPLE, pr_misc = misc, pr_body = []\<rparr>"
    and "unat (d_tail s) + 8 = unat head"
  shows "\<exists>s'. drain label head data data_size s = Some (Inr (head, s')) \<and>
    d_samples s' = d_samples s @ [decode_sample (ring_view data (unat head) 24)]"
proof -
  let ?s = "s\<lparr>d_tail := head, d_samples := d_samples s @ [decode_sample (ring_view data (unat head) 24)],
    d_hist := (d_hist s)\<lparr>h_sample := h_sample (d_hist s) + 1\<rparr>\<rparr>"
  have hdr: "decode_header (ring_view data (unat (d_tail s)) 8) =
      \<lparr>eh_type = PERF_RECORD_SAMPLE, eh_misc = misc, eh_size = 8\<rparr>"
    using decode_header_enc [of "\<lparr>pr_type = PERF_RECORD_SAMPLE, pr_misc = misc, pr_body = []\<rparr>"]
    unfolding assms(2) by (simp add: length_enc_record record_size_def)
  have "head = word_of_nat (unat (d_tail s) + 8)" unfolding assms(3) by simp
  then have tail: "d_tail s + 8 = head" by simp
  have size8: "(ucast (8 :: u16) :: u64) = 8"
    by (simp add: word_unat_eq_iff unat_ucast_u16)
  have ge: "\<not> (8 :: u64) < sizeof_header" by (simp add: sizeof_header_def)
  have "drain_record label data data_size head s = Inr ?s"
    using assms(1,3) tail
    by (simp add: drain_record_def copy_header hdr ge size8 drain_switch_def copy_body)
  moreover have "d_tail s < head" using assms(3) by (simp add: word_less_nat_alt)
  ultimately have "drain_loop label data data_size head s = Some (Inr ?s)"
    by (subst drain_loop.simps) (simp add: drain_loop.simps [of label data data_size head ?s])
  moreover have "head - d_tail s = 8" unfolding tail [symmetric] by simp
  with assms(1) have "\<not> data_size < head - d_tail s"
    by (simp add: word_less_nat_alt ring_ok_def)
  ultimately show ?thesis by (simp add: drain_def)
qed

theorem drain_reads_past_short_sample_witness:
  "\<exists>s'. drain ''miss@cpu0'' 8
      (enc_record \<lparr>pr_type = PERF_RECORD_SAMPLE, pr_misc = 2, pr_body = []\<rparr> @ replicate 24 255) 32
      \<lparr>d_tail = 0, d_samples = [], d_hist = empty_histogram\<rparr> = Some (Inr (8, s')) \<and>
    d_samples s' = [] @ [decode_sample (ring_view
      (enc_record \<lparr>pr_type = PERF_RECORD_SAMPLE, pr_misc = 2, pr_body = []\<rparr> @ replicate 24 255)
      (unat (8 :: u64)) 24)]"
proof -
  have "\<exists>s'. drain ''miss@cpu0'' 8
      (enc_record \<lparr>pr_type = PERF_RECORD_SAMPLE, pr_misc = 2, pr_body = []\<rparr> @ replicate 24 255) 32
      \<lparr>d_tail = 0, d_samples = [], d_hist = empty_histogram\<rparr> = Some (Inr (8, s')) \<and>
    d_samples s' = d_samples \<lparr>d_tail = 0, d_samples = [], d_hist = empty_histogram\<rparr> @
      [decode_sample (ring_view
      (enc_record \<lparr>pr_type = PERF_RECORD_SAMPLE, pr_misc = 2, pr_body = []\<rparr> @ replicate 24 255)
      (unat (8 :: u64)) 24)]"
    by (rule drain_reads_past_short_sample)
      (simp_all add: ring_ok_def length_enc_record record_size_def ring_view_straight slice_at_def)
  then show ?thesis by simp
qed

end
