(* ===== verification/Elf_Image.thy ===== *)
theory Elf_Image
  imports Prelude
begin

text \<open>
  The ELF text range and the address classification of \<open>src/main.cpp\<close>
  (\<open>TextRange\<close>, \<open>get_target_text_range\<close>, \<open>Bucket\<close>, \<open>classify\<close>). The file system is
  a parameter: a path either cannot be opened or names a byte string, of which \<open>read\<close>
  returns what is there, at most the requested count. The structs are those of \<open>elf.h\<close>,
  with the fields the code reads.
\<close>

section \<open>ELF structures\<close>

record elf64_ehdr =
  e_ident :: "u8 list"
  e_phoff :: u64
  e_phnum :: u16

record elf64_phdr =
  p_type :: u32
  p_flags :: u32
  p_vaddr :: u64
  p_memsz :: u64

record text_range =
  lo :: u64
  hi :: u64

definition sizeof_ehdr :: nat where "sizeof_ehdr = 64"
definition sizeof_phdr :: nat where "sizeof_phdr = 56"
definition PT_LOAD :: u32 where "PT_LOAD = 1"
definition PF_X :: u32 where "PF_X = 1"
definition EI_CLASS :: nat where "EI_CLASS = 4"
definition ELFCLASS64 :: u8 where "ELFCLASS64 = 2"
definition ELFMAG :: "u8 list" where "ELFMAG = [0x7f, 0x45, 0x4c, 0x46]"

lemmas elf_consts = sizeof_ehdr_def sizeof_phdr_def EI_CLASS_def ELFCLASS64_def ELFMAG_def

definition decode_ehdr :: "u8 list \<Rightarrow> elf64_ehdr" where
  "decode_ehdr bs = \<lparr>e_ident = slice_at 0 16 bs, e_phoff = le_word (slice_at 32 8 bs),
     e_phnum = le_word (slice_at 56 2 bs)\<rparr>"

definition decode_phdr :: "u8 list \<Rightarrow> elf64_phdr" where
  "decode_phdr bs = \<lparr>p_type = le_word (slice_at 0 4 bs), p_flags = le_word (slice_at 4 4 bs),
     p_vaddr = le_word (slice_at 16 8 bs), p_memsz = le_word (slice_at 40 8 bs)\<rparr>"

section \<open>Reading the range\<close>

text \<open>\<open>read\<close> of a regular file at a file position, and \<open>lseek(SEEK_SET)\<close>, which
  refuses a negative offset.\<close>

definition file_read :: "u8 list \<Rightarrow> nat \<Rightarrow> nat \<Rightarrow> u8 list" where
  "file_read content pos n = slice_at pos n content"

definition lseek_set :: "u64 \<Rightarrow> nat option" where
  "lseek_set off = (if sint off < 0 then None else Some (unat off))"

definition read_phdrs :: "u8 list \<Rightarrow> nat \<Rightarrow> nat \<Rightarrow> elf64_phdr list option" where
  "read_phdrs content pos n =
     (let bytes = file_read content pos (sizeof_phdr * n) in
      if length bytes = sizeof_phdr * n
      then Some (map (\<lambda>i. decode_phdr (slice_at (sizeof_phdr * i) sizeof_phdr bytes)) [0..<n])
      else None)"

definition is_text_segment :: "elf64_phdr \<Rightarrow> bool" where
  "is_text_segment ph \<longleftrightarrow> p_type ph = PT_LOAD \<and> and (p_flags ph) PF_X \<noteq> 0"

text \<open>One iteration over the program headers; \<open>None\<close> is \<open>found = false\<close>.\<close>

definition text_step :: "elf64_phdr \<Rightarrow> text_range option \<Rightarrow> text_range option" where
  "text_step ph found =
     (if is_text_segment ph then
        (let seg_lo = p_vaddr ph; seg_hi = p_vaddr ph + p_memsz ph in
         Some (case found of
                 None \<Rightarrow> \<lparr>lo = seg_lo, hi = seg_hi\<rparr>
               | Some r \<Rightarrow> \<lparr>lo = min (lo r) seg_lo, hi = max (hi r) seg_hi\<rparr>))
      else found)"

definition get_target_text_range :: "(string \<Rightarrow> u8 list option) \<Rightarrow> string \<Rightarrow> text_range option" where
  "get_target_text_range open_file path =
     (case open_file path of
        None \<Rightarrow> None
      | Some content \<Rightarrow>
          let hdr = file_read content 0 sizeof_ehdr; eh = decode_ehdr hdr in
          if length hdr = sizeof_ehdr \<and> take 4 (e_ident eh) = ELFMAG \<and>
             e_ident eh ! EI_CLASS = ELFCLASS64
          then (case lseek_set (e_phoff eh) of
                  None \<Rightarrow> None
                | Some pos \<Rightarrow>
                   (case read_phdrs content pos (unat (e_phnum eh)) of
                      None \<Rightarrow> None
                    | Some phdrs \<Rightarrow> fold text_step phdrs None))
          else None)"

section \<open>Classification\<close>

datatype bucket = KTarget | KOtherUser | KKernel | KUnclassifiable

definition kKernelHalfStart :: u64 where "kKernelHalfStart = 0xffff800000000000"
definition kUserHalfEnd :: u64 where "kUserHalfEnd = 0x0000800000000000"

definition classify :: "u64 \<Rightarrow> text_range \<Rightarrow> bucket" where
  "classify ip target =
     (if kKernelHalfStart \<le> ip then KKernel
      else if kUserHalfEnd \<le> ip then KUnclassifiable
      else if lo target \<le> ip \<and> ip < hi target then KTarget
      else KOtherUser)"

section \<open>The range is the hull of the executable segments\<close>

text \<open>What the ELF format calls a loaded, executable segment: \<open>PT_LOAD\<close> is 1, \<open>PF_X\<close> is bit 0.\<close>

definition exec_load :: "elf64_phdr \<Rightarrow> bool" where
  "exec_load ph \<longleftrightarrow> p_type ph = 1 \<and> bit (p_flags ph) 0"

lemma is_text_segment_exec: "is_text_segment ph \<longleftrightarrow> exec_load ph"
  by (simp add: is_text_segment_def exec_load_def PT_LOAD_def PF_X_def and_one_eq bit_0 odd_iff_mod_2_eq_one)

lemma text_step_simps:
  "exec_load ph \<Longrightarrow> text_step ph None = Some \<lparr>lo = p_vaddr ph, hi = p_vaddr ph + p_memsz ph\<rparr>"
  "exec_load ph \<Longrightarrow> text_step ph (Some r) =
     Some \<lparr>lo = min (lo r) (p_vaddr ph), hi = max (hi r) (p_vaddr ph + p_memsz ph)\<rparr>"
  "\<not> exec_load ph \<Longrightarrow> text_step ph found = found"
  by (simp_all add: text_step_def is_text_segment_exec Let_def)

definition text_hull :: "elf64_phdr list \<Rightarrow> text_range option" where
  "text_hull phdrs =
     (let segs = filter exec_load phdrs in
      if segs = [] then None
      else Some \<lparr>lo = Min (p_vaddr ` set segs), hi = Max ((\<lambda>ph. p_vaddr ph + p_memsz ph) ` set segs)\<rparr>)"

lemma text_hull_snoc: "text_hull (phdrs @ [ph]) = text_step ph (text_hull phdrs)"
proof (cases "exec_load ph")
  case True
  show ?thesis
  proof (cases "filter exec_load phdrs = []")
    case False
    then have "{x \<in> set phdrs. exec_load x} \<noteq> {}" by (auto simp: filter_empty_conv)
    with True False show ?thesis
      by (simp add: text_hull_def text_step_simps min.commute max.commute)
  qed (use True in \<open>simp add: text_hull_def text_step_simps\<close>)
next
  case False
  then show ?thesis by (simp add: text_hull_def text_step_simps)
qed

lemma fold_text_step: "fold text_step phdrs None = text_hull phdrs"
proof (induction phdrs rule: rev_induct)
  case Nil
  then show ?case by (simp add: text_hull_def)
next
  case (snoc ph phdrs)
  then show ?case by (simp add: text_hull_snoc)
qed

lemma text_hull_None: "text_hull phdrs = None \<longleftrightarrow> (\<forall>ph\<in>set phdrs. \<not> exec_load ph)"
  by (auto simp: text_hull_def Let_def filter_empty_conv)

lemma text_hull_covers:
  assumes "text_hull phdrs = Some r" "ph \<in> set phdrs" "exec_load ph"
  shows "lo r \<le> p_vaddr ph" and "p_vaddr ph + p_memsz ph \<le> hi r"
  using assms by (auto simp: text_hull_def Let_def split: if_splits)

lemma text_hull_attained:
  assumes "text_hull phdrs = Some r"
  shows "\<exists>ph\<in>set phdrs. exec_load ph \<and> lo r = p_vaddr ph"
    and "\<exists>ph\<in>set phdrs. exec_load ph \<and> hi r = p_vaddr ph + p_memsz ph"
proof -
  let ?segs = "set (filter exec_load phdrs)"
  from assms have ne: "?segs \<noteq> {}" and lo: "lo r = Min (p_vaddr ` ?segs)"
    and hi: "hi r = Max ((\<lambda>ph. p_vaddr ph + p_memsz ph) ` ?segs)"
    by (auto simp: text_hull_def Let_def filter_empty_conv split: if_splits)
  from ne have "lo r \<in> p_vaddr ` ?segs" unfolding lo by (intro Min_in) auto
  then show "\<exists>ph\<in>set phdrs. exec_load ph \<and> lo r = p_vaddr ph" by auto
  from ne have "hi r \<in> (\<lambda>ph. p_vaddr ph + p_memsz ph) ` ?segs" unfolding hi by (intro Max_in) auto
  then show "\<exists>ph\<in>set phdrs. exec_load ph \<and> hi r = p_vaddr ph + p_memsz ph" by auto
qed

section \<open>Images\<close>

text \<open>
  An ELF image as a linker writes it: a header whose fields outside those the code reads
  are arbitrary bytes, and the program headers at the offset it names.
\<close>

definition enc_phdr :: "elf64_phdr \<Rightarrow> u8 list \<Rightarrow> u8 list" where
  "enc_phdr ph pad = word_le 4 (p_type ph) @ word_le 4 (p_flags ph) @ take 8 pad @
     word_le 8 (p_vaddr ph) @ take 16 (drop 8 pad) @ word_le 8 (p_memsz ph) @ drop 24 pad"

definition enc_ehdr :: "u64 \<Rightarrow> u16 \<Rightarrow> u8 list \<Rightarrow> u8 list" where
  "enc_ehdr phoff phnum pad = ELFMAG @ [ELFCLASS64] @ take 27 pad @ word_le 8 phoff @
     take 16 (drop 27 pad) @ word_le 2 phnum @ drop 43 pad"

lemma length_enc_phdr: "length pad = 32 \<Longrightarrow> length (enc_phdr ph pad) = sizeof_phdr"
  by (simp add: enc_phdr_def elf_consts)

lemma decode_enc_phdr: "length pad = 32 \<Longrightarrow> decode_phdr (enc_phdr ph pad) = ph"
  by (simp add: decode_phdr_def enc_phdr_def slice_at_def le_word_word_le)

lemma length_enc_ehdr: "length pad = 49 \<Longrightarrow> length (enc_ehdr phoff phnum pad) = sizeof_ehdr"
  by (simp add: enc_ehdr_def elf_consts)

lemma decode_enc_ehdr:
  assumes "length pad = 49"
  shows "take 4 (e_ident (decode_ehdr (enc_ehdr phoff phnum pad))) = ELFMAG"
    and "e_ident (decode_ehdr (enc_ehdr phoff phnum pad)) ! EI_CLASS = ELFCLASS64"
    and "e_phoff (decode_ehdr (enc_ehdr phoff phnum pad)) = phoff"
    and "e_phnum (decode_ehdr (enc_ehdr phoff phnum pad)) = phnum"
  using assms
  by (simp_all add: decode_ehdr_def enc_ehdr_def slice_at_def le_word_word_le ELFMAG_def EI_CLASS_def)

definition elf_image :: "u8 list \<Rightarrow> u8 list \<Rightarrow> (elf64_phdr \<times> u8 list) list \<Rightarrow> u8 list \<Rightarrow> u8 list" where
  "elf_image pad gap phs rest =
     enc_ehdr (word_of_nat (sizeof_ehdr + length gap)) (word_of_nat (length phs)) pad @ gap @
     concat (map (\<lambda>(ph, p). enc_phdr ph p) phs) @ rest"

lemma slice_phdrs:
  assumes "\<forall>x\<in>set phs. length (snd x) = 32" "i < length phs"
  shows "slice_at (sizeof_phdr * i) sizeof_phdr (concat (map (\<lambda>(ph, p). enc_phdr ph p) phs) @ rest)
    = enc_phdr (fst (phs ! i)) (snd (phs ! i))"
  using assms
proof (induction phs arbitrary: i)
  case Nil
  then show ?case by simp
next
  case (Cons x phs)
  have lx: "length (enc_phdr (fst x) (snd x)) = sizeof_phdr"
    using Cons.prems(1) by (simp add: length_enc_phdr)
  show ?case
  proof (cases i)
    case 0
    with lx show ?thesis by (simp add: slice_at_def case_prod_beta)
  next
    case (Suc k)
    with Cons.prems have "slice_at (sizeof_phdr * k) sizeof_phdr
        (concat (map (\<lambda>(ph, p). enc_phdr ph p) phs) @ rest)
      = enc_phdr (fst (phs ! k)) (snd (phs ! k))" by (intro Cons.IH) simp_all
    with lx Suc show ?thesis by (cases x) (simp add: slice_at_def)
  qed
qed

lemma length_phdrs:
  "\<forall>x\<in>set phs. length (snd x) = 32 \<Longrightarrow>
   length (concat (map (\<lambda>(ph, p). enc_phdr ph p) phs)) = sizeof_phdr * length phs"
  by (induction phs) (auto simp: length_enc_phdr)

lemma read_phdrs_image:
  assumes "\<forall>x\<in>set phs. length (snd x) = 32" "pos = length pre"
  shows "read_phdrs (pre @ concat (map (\<lambda>(ph, p). enc_phdr ph p) phs) @ rest) pos (length phs)
    = Some (map fst phs)"
proof -
  let ?body = "concat (map (\<lambda>(ph, p). enc_phdr ph p) phs)"
  have bytes: "file_read (pre @ ?body @ rest) pos (sizeof_phdr * length phs) = ?body"
    using assms length_phdrs [OF assms(1)] by (simp add: file_read_def slice_at_def)
  have "map (\<lambda>i. decode_phdr (slice_at (sizeof_phdr * i) sizeof_phdr ?body)) [0..<length phs] = map fst phs"
  proof (rule nth_equalityI)
    fix i assume "i < length (map (\<lambda>i. decode_phdr (slice_at (sizeof_phdr * i) sizeof_phdr ?body)) [0..<length phs])"
    then have i: "i < length phs" by simp
    with slice_phdrs [OF assms(1) i, of "[]"] assms(1)
    show "map (\<lambda>i. decode_phdr (slice_at (sizeof_phdr * i) sizeof_phdr ?body)) [0..<length phs] ! i
      = map fst phs ! i"
      by (simp add: decode_enc_phdr)
  qed simp
  with bytes length_phdrs [OF assms(1)] show ?thesis by (simp add: read_phdrs_def Let_def)
qed

lemma lseek_set_small: "unat off < 2 ^ 63 \<Longrightarrow> lseek_set off = Some (unat off)"
proof -
  assume "unat off < 2 ^ 63"
  then have "int (unat off) < int (2 ^ 63)" by (simp only: of_nat_less_iff)
  then have "uint off < 2 ^ 63" unfolding uint_nat by (simp only: of_nat_power of_nat_numeral)
  then have "sint off = uint off"
  proof -
    have "- (2 ^ 63) \<le> (0 :: int)" by simp
    also have "0 \<le> uint off" by (rule uint_ge_0)
    finally show ?thesis using \<open>uint off < 2 ^ 63\<close>
      unfolding sint_uint by (intro signed_take_bit_int_eq_self) simp_all
  qed
  then show ?thesis by (simp add: lseek_set_def)
qed

text \<open>Reading an image gives the hull of its executable segments.\<close>

lemma parse_image:
  assumes "open_file path = Some (elf_image pad gap phs rest)"
    and "length pad = 49" "\<forall>x\<in>set phs. length (snd x) = 32"
    and "length phs < 2 ^ 16" "sizeof_ehdr + length gap < 2 ^ 63"
  shows "get_target_text_range open_file path = text_hull (map fst phs)"
proof -
  let ?off = "word_of_nat (sizeof_ehdr + length gap) :: u64"
  have off: "unat ?off = sizeof_ehdr + length gap"
    using assms(5) by (simp only: unat_of_nat) simp
  then have seek: "lseek_set ?off = Some (sizeof_ehdr + length gap)"
    using assms(5) by (simp add: lseek_set_small)
  have num: "unat (word_of_nat (length phs) :: u16) = length phs" using assms(4) by (simp add: unat_of_nat)
  let ?eh = "enc_ehdr ?off (word_of_nat (length phs)) pad"
  have "elf_image pad gap phs rest = ?eh @ gap @ concat (map (\<lambda>(ph, p). enc_phdr ph p) phs) @ rest"
    by (simp add: elf_image_def)
  moreover from this have "file_read (elf_image pad gap phs rest) 0 sizeof_ehdr = ?eh"
    using assms(2) by (simp add: file_read_def slice_at_def length_enc_ehdr)
  moreover have "read_phdrs ((?eh @ gap) @ concat (map (\<lambda>(ph, p). enc_phdr ph p) phs) @ rest)
      (sizeof_ehdr + length gap) (length phs) = Some (map fst phs)"
    using assms(2,3) by (intro read_phdrs_image) (simp_all add: length_enc_ehdr)
  ultimately show ?thesis
    using assms(1,2) seek num
    by (simp add: get_target_text_range_def decode_enc_ehdr length_enc_ehdr fold_text_step)
qed

section \<open>Properties\<close>

text \<open>
  C25: For an ELF64 file laid out from a list of program headers, the range found is
  the hull of the executable PT_LOAD segments: its ends are the lowest start and the
  highest end of such a segment; and no range is found if no segment is an executable
  PT_LOAD.
\<close>

theorem text_range_of_image:
  assumes "open_file path = Some (elf_image pad gap phs rest)"
    and "length pad = 49" "\<forall>x\<in>set phs. length (snd x) = 32"
    and "length phs < 2 ^ 16" "sizeof_ehdr + length gap < 2 ^ 63"
  shows "case get_target_text_range open_file path of
      None \<Rightarrow> \<forall>y\<in>set phs. \<not> exec_load (fst y)
    | Some r \<Rightarrow>
        (\<exists>y\<in>set phs. exec_load (fst y) \<and> lo r = p_vaddr (fst y)) \<and>
        (\<exists>y\<in>set phs. exec_load (fst y) \<and> hi r = p_vaddr (fst y) + p_memsz (fst y)) \<and>
        (\<forall>y\<in>set phs. exec_load (fst y) \<longrightarrow>
           lo r \<le> p_vaddr (fst y) \<and> p_vaddr (fst y) + p_memsz (fst y) \<le> hi r)"
proof -
  have range: "get_target_text_range open_file path = text_hull (map fst phs)"
    using parse_image [of open_file path pad gap phs rest] assms by simp
  show ?thesis
  proof (cases "text_hull (map fst phs)")
    case None
    then show ?thesis using text_hull_None [of "map fst phs"] by (simp add: range)
  next
    case (Some r)
    then show ?thesis
      using text_hull_attained [OF Some] text_hull_covers [OF Some] by (simp add: range)
  qed
qed

theorem text_range_of_image_witness:
  "(\<exists>r. get_target_text_range
     [''a.out'' \<mapsto> elf_image (replicate 49 0) []
        [(\<lparr>p_type = 1, p_flags = 4, p_vaddr = 0x400000, p_memsz = 0x500\<rparr>, replicate 32 (0 :: u8)),
         (\<lparr>p_type = 1, p_flags = 5, p_vaddr = 0x401000, p_memsz = 0x2d5\<rparr>, replicate 32 (0 :: u8))] []]
     ''a.out'' = Some r \<and> lo r = 0x401000 \<and> hi r = 0x4012d5) \<and>
   get_target_text_range
     [''a.out'' \<mapsto> elf_image (replicate 49 0) []
        [(\<lparr>p_type = 1, p_flags = 4, p_vaddr = 0x400000, p_memsz = 0x500\<rparr>, replicate 32 (0 :: u8))] []]
     ''a.out'' = None"
  using text_range_of_image [of "[''a.out'' \<mapsto> elf_image (replicate 49 0) []
        [(\<lparr>p_type = 1, p_flags = 4, p_vaddr = 0x400000, p_memsz = 0x500\<rparr>, replicate 32 (0 :: u8)),
         (\<lparr>p_type = 1, p_flags = 5, p_vaddr = 0x401000, p_memsz = 0x2d5\<rparr>, replicate 32 (0 :: u8))] []]"
      "''a.out''" "replicate 49 0" "[]"
      "[(\<lparr>p_type = 1, p_flags = 4, p_vaddr = 0x400000, p_memsz = 0x500\<rparr>, replicate 32 (0 :: u8)),
         (\<lparr>p_type = 1, p_flags = 5, p_vaddr = 0x401000, p_memsz = 0x2d5\<rparr>, replicate 32 (0 :: u8))]" "[]"]
    text_range_of_image [of "[''a.out'' \<mapsto> elf_image (replicate 49 0) []
        [(\<lparr>p_type = 1, p_flags = 4, p_vaddr = 0x400000, p_memsz = 0x500\<rparr>, replicate 32 (0 :: u8))] []]"
      "''a.out''" "replicate 49 0" "[]"
      "[(\<lparr>p_type = 1, p_flags = 4, p_vaddr = 0x400000, p_memsz = 0x500\<rparr>, replicate 32 (0 :: u8))]" "[]"]
  by (simp add: sizeof_ehdr_def exec_load_def split: option.splits)

theorem text_range_accepts_only_elf64:
  assumes "get_target_text_range open_file path = Some r"
  shows "\<exists>content eh phdrs. open_file path = Some content \<and> sizeof_ehdr \<le> length content \<and>
    take 4 content = ELFMAG \<and> content ! EI_CLASS = ELFCLASS64 \<and>
    eh = decode_ehdr (take sizeof_ehdr content) \<and> 0 \<le> sint (e_phoff eh) \<and>
    read_phdrs content (unat (e_phoff eh)) (unat (e_phnum eh)) = Some phdrs \<and>
    (\<exists>ph\<in>set phdrs. exec_load ph) \<and> text_hull phdrs = Some r"
proof -
  from assms obtain content where c: "open_file path = Some content"
    by (auto simp: get_target_text_range_def split: option.splits)
  let ?eh = "decode_ehdr (take sizeof_ehdr content)"
  from assms c have len: "length (take sizeof_ehdr content) = sizeof_ehdr"
    and magic: "take 4 (e_ident ?eh) = ELFMAG" "e_ident ?eh ! EI_CLASS = ELFCLASS64"
    by (auto simp: get_target_text_range_def file_read_def slice_at_def Let_def split: if_splits)
  from assms c obtain phdrs where ph: "0 \<le> sint (e_phoff ?eh)"
      "read_phdrs content (unat (e_phoff ?eh)) (unat (e_phnum ?eh)) = Some phdrs"
      "text_hull phdrs = Some r"
    by (auto simp: get_target_text_range_def file_read_def slice_at_def Let_def lseek_set_def
        fold_text_step split: if_splits option.splits)
  have ident: "e_ident ?eh = take 16 content"
    by (simp add: decode_ehdr_def slice_at_def sizeof_ehdr_def)
  from magic have "take 4 content = ELFMAG" "content ! EI_CLASS = ELFCLASS64"
    unfolding ident by (simp_all add: EI_CLASS_def)
  moreover from ph(3) have "\<exists>ph\<in>set phdrs. exec_load ph" using text_hull_None by force
  moreover from len have "sizeof_ehdr \<le> length content" by simp
  ultimately show ?thesis using c ph by blast
qed

theorem text_range_accepts_only_elf64_witness:
  "\<exists>r content eh phdrs. [''a.out'' \<mapsto> elf_image (replicate 49 0) []
        [(\<lparr>p_type = 1, p_flags = 5, p_vaddr = 0x401000, p_memsz = 0x2d5\<rparr>, replicate 32 (0 :: u8))] []] ''a.out''
      = Some content \<and> sizeof_ehdr \<le> length content \<and>
    take 4 content = ELFMAG \<and> content ! EI_CLASS = ELFCLASS64 \<and>
    eh = decode_ehdr (take sizeof_ehdr content) \<and> 0 \<le> sint (e_phoff eh) \<and>
    read_phdrs content (unat (e_phoff eh)) (unat (e_phnum eh)) = Some phdrs \<and>
    (\<exists>ph\<in>set phdrs. exec_load ph) \<and> text_hull phdrs = Some r"
proof -
  let ?phs = "[(\<lparr>p_type = 1, p_flags = 5, p_vaddr = 0x401000, p_memsz = 0x2d5\<rparr>, replicate 32 (0 :: u8))]"
  let ?fs = "[''a.out'' \<mapsto> elf_image (replicate 49 0) [] ?phs []]"
  have "get_target_text_range ?fs ''a.out'' = text_hull (map fst ?phs)"
    using parse_image [of ?fs "''a.out''" "replicate 49 0" "[]" ?phs "[]"]
    by (simp add: sizeof_ehdr_def)
  also have "\<dots> = Some \<lparr>lo = 0x401000, hi = 0x4012d5\<rparr>"
    by (simp add: text_hull_def exec_load_def)
  finally show ?thesis by (intro exI [of _ "\<lparr>lo = 0x401000, hi = 0x4012d5\<rparr>"])
      (rule text_range_accepts_only_elf64)
qed

theorem classify_text_segment:
  assumes "text_hull phdrs = Some r" "ph \<in> set phdrs" "exec_load ph"
    and "unat (p_vaddr ph) + unat (p_memsz ph) \<le> 2 ^ 47"
    and "p_vaddr ph \<le> ip" "unat ip < unat (p_vaddr ph) + unat (p_memsz ph)"
  shows "classify ip r = KTarget"
proof -
  have "unat (p_vaddr ph + p_memsz ph) = unat (p_vaddr ph) + unat (p_memsz ph)"
    using assms(4) by (intro unat_add_no_wrap) simp
  with assms(6) have "ip < p_vaddr ph + p_memsz ph" by (simp add: word_less_nat_alt)
  with text_hull_covers [OF assms(1-3)] assms(5) have "lo r \<le> ip" "ip < hi r" by auto
  moreover have "unat ip < 2 ^ 47" using assms(4,6) by linarith
  then have "ip < kUserHalfEnd" "ip < kKernelHalfStart"
    by (simp_all add: word_less_nat_alt kUserHalfEnd_def kKernelHalfStart_def)
  ultimately show ?thesis by (auto simp: classify_def)
qed

theorem classify_text_segment_witness:
  "classify 0x401146 \<lparr>lo = 0x401000, hi = 0x4012d5\<rparr> = KTarget"
  by (rule classify_text_segment
      [of "[\<lparr>p_type = 1, p_flags = 5, p_vaddr = 0x401000, p_memsz = 0x2d5\<rparr>]" _
          "\<lparr>p_type = 1, p_flags = 5, p_vaddr = 0x401000, p_memsz = 0x2d5\<rparr>"])
    (simp_all add: text_hull_def exec_load_def)

end
