(* ===== verification/Std_Lib.thy ===== *)
theory Std_Lib
  imports Prelude "HOL-Library.Char_ord" "HOL-Library.List_Lexorder" "HOL-Library.Multiset"
begin

text \<open>
  The parts of the C++ standard library that the profiler's aggregation relies on.
  A \<open>std::map\<close> is its key/value sequence in iteration order (strictly ascending keys),
  with \<open>find\<close> and assignment through \<open>operator[]\<close>. \<open>std::sort\<close> takes the comparator
  the code passes; the standard leaves the order of equivalent elements open, and no
  theorem below depends on it. \<open>std::unique\<close> followed by \<open>erase\<close> is \<open>remdups_adj\<close>.
  A source site is a \<open>std::pair\<close> of file name and line, ordered as pairs are.
\<close>

section \<open>Source sites\<close>

datatype site = Site (site_file: string) (site_line: int)

instantiation site :: linorder
begin

definition less_site :: "site \<Rightarrow> site \<Rightarrow> bool" where
  "less_site a b \<longleftrightarrow> site_file a < site_file b \<or>
     \<not> site_file b < site_file a \<and> site_line a < site_line b"

definition less_eq_site :: "site \<Rightarrow> site \<Rightarrow> bool" where
  "less_eq_site a b \<longleftrightarrow> \<not> b < (a :: site)"

instance
proof
  fix x y z :: site
  show "x < y \<longleftrightarrow> x \<le> y \<and> \<not> y \<le> x" by (auto simp: less_site_def less_eq_site_def)
  show "x \<le> x" by (simp add: less_site_def less_eq_site_def)
  show "x \<le> y \<Longrightarrow> y \<le> z \<Longrightarrow> x \<le> z" by (auto simp: less_site_def less_eq_site_def)
  show "x \<le> y \<Longrightarrow> y \<le> x \<Longrightarrow> x = y"
    by (cases x; cases y) (auto simp: less_site_def less_eq_site_def)
  show "x \<le> y \<or> y \<le> x" by (auto simp: less_site_def less_eq_site_def)
qed

end

section \<open>std::map\<close>

text \<open>The contract of an ordered map, as its clients use it.\<close>

locale ordered_map =
  fixes mempty :: 'm
    and mfind :: "'m \<Rightarrow> 'k::linorder \<Rightarrow> 'v option"
    and mset_at :: "'k \<Rightarrow> 'v \<Rightarrow> 'm \<Rightarrow> 'm"
    and mentries :: "'m \<Rightarrow> ('k \<times> 'v) list"
    and minv :: "'m \<Rightarrow> bool"
  assumes inv_empty: "minv mempty"
    and find_empty: "mfind mempty k = None"
    and inv_set: "minv m \<Longrightarrow> minv (mset_at k v m)"
    and find_set: "minv m \<Longrightarrow> mfind (mset_at k v m) j = (if j = k then Some v else mfind m j)"
    and entries_find: "minv m \<Longrightarrow> (k, v) \<in> set (mentries m) \<longleftrightarrow> mfind m k = Some v"
    and entries_sorted: "minv m \<Longrightarrow> sorted_wrt (<) (map fst (mentries m))"
begin

lemma entries_distinct: "minv m \<Longrightarrow> distinct (map fst (mentries m))"
  using entries_sorted strict_sorted_iff by blast

lemma keys_dom: "minv m \<Longrightarrow> fst ` set (mentries m) = {k. mfind m k \<noteq> None}"
  by (auto simp: entries_find) (metis entries_find fst_conv image_eqI)

lemma entries_empty: "mentries mempty = []"
proof -
  have "(k, v) \<notin> set (mentries mempty)" for k v
    by (simp add: entries_find [OF inv_empty] find_empty)
  then show ?thesis by (metis list.set_intros(1) neq_Nil_conv surj_pair)
qed

end

text \<open>
  Counting with an ordered map: \<open>++m[k]\<close> reads the value at \<open>k\<close>, 0 where there is none.
\<close>

locale counting_map = ordered_map mempty mfind mset_at mentries minv
  for mempty :: 'm
    and mfind :: "'m \<Rightarrow> 'k::linorder \<Rightarrow> 'n::{comm_monoid_add, one} option"
    and mset_at and mentries and minv
begin

abbreviation count_at :: "'m \<Rightarrow> 'k \<Rightarrow> 'n" where
  "count_at m k \<equiv> (case mfind m k of None \<Rightarrow> 0 | Some c \<Rightarrow> c)"

abbreviation count_up :: "'k \<Rightarrow> 'm \<Rightarrow> 'm" where
  "count_up k m \<equiv> mset_at k (count_at m k + 1) m"

lemma count_at_up: "minv m \<Longrightarrow> count_at (count_up k m) j = count_at m j + (if j = k then 1 else 0)"
  by (simp add: find_set)

lemma inv_up: "minv m \<Longrightarrow> minv (count_up k m)"
  by (rule inv_set)

lemma total_up:
  assumes "minv m"
  shows "sum_list (map snd (mentries (count_up k m))) = sum_list (map snd (mentries m)) + 1"
proof -
  have total: "sum_list (map snd (mentries m')) = (\<Sum>j \<in> A. count_at m' j)"
    if m': "minv m'" and A: "finite A" "{j. mfind m' j \<noteq> None} \<subseteq> A" for m' A
  proof -
    have "sum_list (map snd (mentries m')) = sum_list (map (\<lambda>(j, v). count_at m' j) (mentries m'))"
      using m' by (intro arg_cong [of _ _ sum_list] map_cong) (auto simp: entries_find)
    also have "\<dots> = sum_list (map (count_at m') (map fst (mentries m')))"
      by (intro arg_cong [of _ _ sum_list]) (simp add: case_prod_beta comp_def)
    also have "\<dots> = (\<Sum>j \<in> set (map fst (mentries m')). count_at m' j)"
      using m' by (intro sum_list_distinct_conv_sum_set entries_distinct)
    also have "\<dots> = (\<Sum>j \<in> A. count_at m' j)"
      using A keys_dom [OF m'] by (intro sum.mono_neutral_left) (auto split: option.splits)
    finally show ?thesis .
  qed
  let ?A = "insert k (fst ` set (mentries m))"
  have fin: "finite {j. \<exists>y. mfind m j = Some y}"
    using keys_dom [OF assms] finite_imageI [of "set (mentries m)" fst] by simp
  have "sum_list (map snd (mentries (count_up k m))) = (\<Sum>j \<in> ?A. count_at (count_up k m) j)"
    using assms by (intro total inv_up) (auto simp: fin keys_dom find_set split: if_splits)
  also have "\<dots> = (\<Sum>j \<in> ?A. count_at m j) + (\<Sum>j \<in> ?A. if j = k then 1 else 0)"
    by (simp only: count_at_up [OF assms] sum.distrib)
  also have "(\<Sum>j \<in> ?A. count_at m j) = sum_list (map snd (mentries m))"
    using assms by (intro total [symmetric]) (auto simp: fin keys_dom)
  finally show ?thesis by (simp add: sum.delta)
qed

end

text \<open>The sequence model and its operations.\<close>

type_synonym ('k, 'v) std_map = "('k \<times> 'v) list"

fun smap_find :: "('k::linorder, 'v) std_map \<Rightarrow> 'k \<Rightarrow> 'v option" where
  "smap_find [] k = None"
| "smap_find ((j, w) # m) k = (if j = k then Some w else smap_find m k)"

fun smap_set :: "'k::linorder \<Rightarrow> 'v \<Rightarrow> ('k, 'v) std_map \<Rightarrow> ('k, 'v) std_map" where
  "smap_set k v [] = [(k, v)]"
| "smap_set k v ((j, w) # m) =
     (if k < j then (k, v) # (j, w) # m
      else if k = j then (k, v) # m
      else (j, w) # smap_set k v m)"

definition smap_inv :: "('k::linorder, 'v) std_map \<Rightarrow> bool" where
  "smap_inv m \<longleftrightarrow> sorted_wrt (<) (map fst m)"

lemma smap_find_None: "smap_find m k = None \<longleftrightarrow> k \<notin> fst ` set m"
  by (induction m k rule: smap_find.induct) auto

lemma smap_find_mem: "smap_inv m \<Longrightarrow> (k, v) \<in> set m \<longleftrightarrow> smap_find m k = Some v"
  by (induction m k rule: smap_find.induct) (force simp: smap_inv_def)+

lemma keys_smap_set: "fst ` set (smap_set k v m) = insert k (fst ` set m)"
  by (induction k v m rule: smap_set.induct) auto

lemma smap_inv_set: "smap_inv m \<Longrightarrow> smap_inv (smap_set k v m)"
proof (induction k v m rule: smap_set.induct)
  case (2 k v j w m)
  then show ?case
    using keys_smap_set [of k v m] by (auto simp: smap_inv_def simp flip: set_map)
qed (simp add: smap_inv_def)

lemma smap_find_set:
  "smap_inv m \<Longrightarrow> smap_find (smap_set k v m) j = (if j = k then Some v else smap_find m j)"
  by (induction k v m rule: smap_set.induct)
    (auto simp: smap_inv_def smap_find_None split: if_splits)

interpretation smap: ordered_map "[]" smap_find smap_set "\<lambda>m. m" smap_inv
  by unfold_locales
    (simp_all add: smap_inv_set smap_find_set smap_find_mem, simp_all add: smap_inv_def)

text \<open>\<open>++m[k]\<close> on a map of 64-bit counters; a missing key counts from 0.\<close>

definition smap_inc :: "'k::linorder \<Rightarrow> ('k, u64) std_map \<Rightarrow> ('k, u64) std_map" where
  "smap_inc k m = smap_set k ((case smap_find m k of None \<Rightarrow> 0 | Some c \<Rightarrow> c) + 1) m"

definition smap_count :: "('k::linorder, u64) std_map \<Rightarrow> 'k \<Rightarrow> u64" where
  "smap_count m k = (case smap_find m k of None \<Rightarrow> 0 | Some c \<Rightarrow> c)"

interpretation counter: counting_map
  "[] :: ('k::linorder, u64) std_map" smap_find smap_set "\<lambda>m. m" smap_inv
  by unfold_locales

section \<open>std::sort\<close>

text \<open>A comparator that \<open>std::sort\<close> accepts: a strict weak ordering.\<close>

definition strict_weak :: "('a \<Rightarrow> 'a \<Rightarrow> bool) \<Rightarrow> bool" where
  "strict_weak lt \<longleftrightarrow> (\<forall>a b. lt a b \<longrightarrow> \<not> lt b a) \<and>
     (\<forall>a b c. \<not> lt a b \<and> \<not> lt b c \<longrightarrow> \<not> lt a c)"

lemma strict_weakI:
  "(\<And>a b. lt a b \<Longrightarrow> \<not> lt b a) \<Longrightarrow> (\<And>a b c. \<not> lt a b \<Longrightarrow> \<not> lt b c \<Longrightarrow> \<not> lt a c) \<Longrightarrow>
   strict_weak lt"
  unfolding strict_weak_def by blast

lemma strict_weak_less: "strict_weak ((<) :: 'a::linorder \<Rightarrow> 'a \<Rightarrow> bool)"
  by (rule strict_weakI) auto

lemma strict_weak_key: "strict_weak (\<lambda>a b. (f b :: 'b::linorder) < f a)"
  by (rule strict_weakI) auto

text \<open>What the standard promises of the result, and what its callers conclude from it.\<close>

locale std_sort =
  fixes srt :: "('a \<Rightarrow> 'a \<Rightarrow> bool) \<Rightarrow> 'a list \<Rightarrow> 'a list"
  assumes srt_perm: "mset (srt lt xs) = mset xs"
    and srt_ordered: "strict_weak lt \<Longrightarrow> sorted_wrt (\<lambda>a b. \<not> lt b a) (srt lt xs)"
begin

lemma srt_set: "set (srt lt xs) = set xs"
  using srt_perm [of lt xs] by (metis set_mset_mset)

lemma srt_length: "length (srt lt xs) = length xs"
  using srt_perm [of lt xs] by (metis size_mset)

lemma srt_descending: "sorted_wrt (\<lambda>a b. (f b :: 'b::linorder) \<le> f a) (srt (\<lambda>a b. f b < f a) xs)"
  using srt_ordered [OF strict_weak_key, of f xs] by (simp add: not_less)

end

text \<open>For keys that are totally ordered the result is determined.\<close>

lemma sorted_distinct_remdups_adj: "sorted xs \<Longrightarrow> distinct (remdups_adj xs)"
  by (induction xs rule: remdups_adj.induct) (auto simp: le_less)

locale std_sort_keys = std_sort srt for srt :: "('k::linorder \<Rightarrow> 'k \<Rightarrow> bool) \<Rightarrow> 'k list \<Rightarrow> 'k list"
begin

lemma srt_less: "srt (<) xs = sort xs"
proof -
  have "sorted (srt (<) xs)" using srt_ordered [OF strict_weak_less, of xs] by (simp add: not_less)
  then show ?thesis by (metis properties_for_sort srt_perm)
qed

lemma srt_unique: "remdups_adj (srt (<) xs) = sorted_list_of_set (set xs)"
proof (rule sorted_distinct_set_unique)
  show "sorted (remdups_adj (srt (<) xs))" by (simp add: srt_less sorted_remdups_adj)
  show "distinct (remdups_adj (srt (<) xs))"
    by (simp add: srt_less sorted_distinct_remdups_adj)
qed (simp_all add: srt_set)

end

fun sort_insert :: "('a \<Rightarrow> 'a \<Rightarrow> bool) \<Rightarrow> 'a \<Rightarrow> 'a list \<Rightarrow> 'a list" where
  "sort_insert lt x [] = [x]"
| "sort_insert lt x (y # ys) = (if lt y x then y # sort_insert lt x ys else x # y # ys)"

fun sort_by :: "('a \<Rightarrow> 'a \<Rightarrow> bool) \<Rightarrow> 'a list \<Rightarrow> 'a list" where
  "sort_by lt [] = []"
| "sort_by lt (x # xs) = sort_insert lt x (sort_by lt xs)"

lemma mset_sort_insert: "mset (sort_insert lt x xs) = add_mset x (mset xs)"
  by (induction lt x xs rule: sort_insert.induct) auto

lemma set_sort_insert: "set (sort_insert lt x xs) = insert x (set xs)"
  by (induction lt x xs rule: sort_insert.induct) auto

lemma mset_sort_by: "mset (sort_by lt xs) = mset xs"
  by (induction xs) (simp_all add: mset_sort_insert)

lemma sorted_sort_insert:
  "strict_weak lt \<Longrightarrow> sorted_wrt (\<lambda>a b. \<not> lt b a) xs \<Longrightarrow> sorted_wrt (\<lambda>a b. \<not> lt b a) (sort_insert lt x xs)"
proof (induction lt x xs rule: sort_insert.induct)
  case (2 lt x y ys)
  show ?case
  proof (cases "lt y x")
    case True
    from 2(2) True have "\<not> lt x y" unfolding strict_weak_def by blast
    moreover from 2 True have "sorted_wrt (\<lambda>a b. \<not> lt b a) (sort_insert lt x ys)" by simp
    ultimately show ?thesis using True 2(3) by (simp add: set_sort_insert)
  next
    case False
    from 2(2) have "\<And>z. \<not> lt z y \<Longrightarrow> \<not> lt z x"
      using False unfolding strict_weak_def by blast
    with False 2(3) show ?thesis by simp
  qed
qed simp

lemma sorted_sort_by: "strict_weak lt \<Longrightarrow> sorted_wrt (\<lambda>a b. \<not> lt b a) (sort_by lt xs)"
  by (induction xs) (simp_all add: sorted_sort_insert)

interpretation isort: std_sort sort_by
  by unfold_locales (simp_all add: mset_sort_by sorted_sort_by)

interpretation ksort: std_sort_keys "sort_by :: ('k::linorder \<Rightarrow> 'k \<Rightarrow> bool) \<Rightarrow> 'k list \<Rightarrow> 'k list"
  by unfold_locales

end
