(* ===== verification/Attribution.thy ===== *)
theory Attribution
  imports Std_Lib Elf_Image Ring_Drain
begin

text \<open>
  Attribution of samples to source lines (\<open>DwarfResolver::resolve\<close>, \<open>SourceLoc\<close>,
  \<open>AttributionResult\<close>, \<open>classify_and_attribute\<close> of \<open>src/main.cpp\<close>). \<open>libdw\<close> is a
  parameter: \<open>dwfl_module_getsrc\<close> gives the line entry of an address, if any, and
  \<open>dwfl_lineinfo\<close> its file name, possibly null, and line number. A \<open>SourceLoc\<close> is a
  \<open>site\<close>.
\<close>

section \<open>The resolver\<close>

record 'l dwfl =
  dwfl_module_getsrc :: "u64 \<Rightarrow> 'l option"
  dwfl_lineinfo :: "'l \<Rightarrow> string option \<times> int"

definition resolve :: "'l dwfl \<Rightarrow> u64 \<Rightarrow> site option" where
  "resolve dw ip =
     (case dwfl_module_getsrc dw ip of
        None \<Rightarrow> None
      | Some dline \<Rightarrow>
          (case dwfl_lineinfo dw dline of
             (None, line_no) \<Rightarrow> None
           | (Some src, line_no) \<Rightarrow> Some (Site src line_no)))"

section \<open>Aggregation\<close>

record attribution_result =
  bucket_count :: "u64 list"
  kernel_ips :: "u64 list"
  line_counts :: "(site, u64) std_map"
  attributed :: u64
  unattributed :: u64
  ip_lo :: u64
  ip_hi :: u64
  resolve_loc :: "(u64, site) std_map"
  resolve_ok :: "(u64, bool) std_map"

definition empty_result :: attribution_result where
  "empty_result = \<lparr>bucket_count = [0, 0, 0, 0], kernel_ips = [], line_counts = [],
     attributed = 0, unattributed = 0, ip_lo = 0, ip_hi = 0, resolve_loc = [], resolve_ok = []\<rparr>"

text \<open>\<open>static_cast<int>(b)\<close>.\<close>

fun bucket_index :: "bucket \<Rightarrow> nat" where
  "bucket_index KTarget = 0"
| "bucket_index KOtherUser = 1"
| "bucket_index KKernel = 2"
| "bucket_index KUnclassifiable = 3"

text \<open>\<open>resolve_loc[ip]\<close>, which inserts a value-initialised location where there is none.\<close>

definition loc_at :: "u64 \<Rightarrow> attribution_result \<Rightarrow> site \<times> attribution_result" where
  "loc_at ip r =
     (case smap_find (resolve_loc r) ip of
        Some loc \<Rightarrow> (loc, r)
      | None \<Rightarrow> (Site [] 0, r\<lparr>resolve_loc := smap_set ip (Site [] 0) (resolve_loc r)\<rparr>))"

text \<open>The cached resolution of a target address.\<close>

definition lookup_or_resolve ::
  "'l dwfl \<Rightarrow> u64 \<Rightarrow> attribution_result \<Rightarrow> bool \<times> attribution_result" where
  "lookup_or_resolve dw ip r =
     (case smap_find (resolve_ok r) ip of
        None \<Rightarrow>
          (case resolve dw ip of
             None \<Rightarrow> (False, r\<lparr>resolve_ok := smap_set ip False (resolve_ok r)\<rparr>)
           | Some loc \<Rightarrow>
               (True, r\<lparr>resolve_ok := smap_set ip True (resolve_ok r),
                        resolve_loc := smap_set ip loc (resolve_loc r)\<rparr>))
      | Some cached \<Rightarrow> (cached, r))"

text \<open>One iteration of the loop over the samples.\<close>

definition attribute_sample ::
  "text_range \<Rightarrow> 'l dwfl \<Rightarrow> sample \<Rightarrow> attribution_result \<Rightarrow> attribution_result" where
  "attribute_sample target dw s r =
     (let r = r\<lparr>ip_lo := min (ip_lo r) (s_ip s), ip_hi := max (ip_hi r) (s_ip s)\<rparr>;
          b = classify (s_ip s) target;
          i = bucket_index b;
          r = r\<lparr>bucket_count := (bucket_count r)[i := bucket_count r ! i + 1]\<rparr>;
          r = (if b = KKernel then r\<lparr>kernel_ips := kernel_ips r @ [s_ip s]\<rparr> else r)
      in if b = KTarget then
           (let (ok, r) = lookup_or_resolve dw (s_ip s) r in
            if ok then
              (let (loc, r) = loc_at (s_ip s) (r\<lparr>attributed := attributed r + 1\<rparr>) in
               r\<lparr>line_counts := smap_inc loc (line_counts r)\<rparr>)
            else r\<lparr>unattributed := unattributed r + 1\<rparr>)
         else r)"

definition classify_and_attribute ::
  "sample list \<Rightarrow> text_range \<Rightarrow> 'l dwfl \<Rightarrow> attribution_result" where
  "classify_and_attribute samples target dw =
     (case samples of
        [] \<Rightarrow> empty_result
      | s0 # _ \<Rightarrow>
          let r = empty_result\<lparr>ip_lo := s_ip s0, ip_hi := s_ip s0\<rparr>;
              r = fold (attribute_sample target dw) samples r
          in r\<lparr>kernel_ips := remdups_adj (sort_by (<) (kernel_ips r))\<rparr>)"

section \<open>What attribution should compute\<close>

text \<open>The source site of a sample, without any cache: only target addresses have one.\<close>

definition site_of :: "text_range \<Rightarrow> 'l dwfl \<Rightarrow> sample \<Rightarrow> site option" where
  "site_of target dw s =
     (if classify (s_ip s) target = KTarget then resolve dw (s_ip s) else None)"

definition in_bucket :: "text_range \<Rightarrow> bucket \<Rightarrow> sample \<Rightarrow> bool" where
  "in_bucket target b s \<longleftrightarrow> classify (s_ip s) target = b"

definition count_if :: "('a \<Rightarrow> bool) \<Rightarrow> 'a list \<Rightarrow> u64" where
  "count_if P xs = word_of_nat (length (filter P xs))"

lemma count_if_simps [simp]:
  "count_if P [] = 0"
  "count_if P (xs @ [x]) = count_if P xs + (if P x then 1 else 0)"
  by (simp_all add: count_if_def)

text \<open>The caches only hold what the resolver says, and hold a location for each success.\<close>

definition cache_ok :: "'l dwfl \<Rightarrow> attribution_result \<Rightarrow> bool" where
  "cache_ok dw r \<longleftrightarrow> smap_inv (resolve_ok r) \<and> smap_inv (resolve_loc r) \<and>
     (\<forall>ip. smap_find (resolve_ok r) ip = Some True \<longrightarrow>
        resolve dw ip \<noteq> None \<and> smap_find (resolve_loc r) ip = resolve dw ip) \<and>
     (\<forall>ip. smap_find (resolve_ok r) ip = Some False \<longrightarrow> resolve dw ip = None)"

lemma lookup_or_resolve_frame:
  assumes "lookup_or_resolve dw ip r = (ok, r')"
  shows "line_counts r' = line_counts r" "bucket_count r' = bucket_count r"
    "kernel_ips r' = kernel_ips r" "attributed r' = attributed r"
    "unattributed r' = unattributed r" "ip_lo r' = ip_lo r" "ip_hi r' = ip_hi r"
  using assms by (auto simp: lookup_or_resolve_def split: option.splits)

lemma lookup_or_resolve_ok:
  assumes "cache_ok dw r" "lookup_or_resolve dw ip r = (ok, r')"
  shows "cache_ok dw r' \<and> ok = (resolve dw ip \<noteq> None) \<and>
    (ok \<longrightarrow> smap_find (resolve_loc r') ip = resolve dw ip)"
proof (cases "smap_find (resolve_ok r) ip")
  case (Some c)
  with assms(2) have "r' = r" "ok = c" by (simp_all add: lookup_or_resolve_def)
  with assms(1) Some show ?thesis by (cases c) (simp_all add: cache_ok_def)
next
  case None
  then have new: "lookup_or_resolve dw ip r = (resolve dw ip \<noteq> None,
      r\<lparr>resolve_ok := smap_set ip (resolve dw ip \<noteq> None) (resolve_ok r),
        resolve_loc := (case resolve dw ip of None \<Rightarrow> resolve_loc r
                        | Some loc \<Rightarrow> smap_set ip loc (resolve_loc r))\<rparr>)"
    by (simp add: lookup_or_resolve_def split: option.splits)
  show ?thesis
  proof (cases "resolve dw ip")
    case None
    with new assms show ?thesis by (auto simp: cache_ok_def smap_inv_set smap_find_set)
  next
    case (Some loc)
    with new assms show ?thesis by (auto simp: cache_ok_def smap_inv_set smap_find_set)
  qed
qed

text \<open>The loop's invariant after the samples \<open>xs\<close>.\<close>

definition attributed_to ::
  "text_range \<Rightarrow> 'l dwfl \<Rightarrow> sample list \<Rightarrow> attribution_result \<Rightarrow> bool" where
  "attributed_to target dw xs r \<longleftrightarrow> cache_ok dw r \<and> smap_inv (line_counts r) \<and>
     bucket_count r = map (\<lambda>b. count_if (in_bucket target b) xs)
       [KTarget, KOtherUser, KKernel, KUnclassifiable] \<and>
     kernel_ips r = map s_ip (filter (in_bucket target KKernel) xs) \<and>
     (\<forall>site. smap_find (line_counts r) site =
        (if \<exists>s\<in>set xs. site_of target dw s = Some site
         then Some (count_if (\<lambda>s. site_of target dw s = Some site) xs) else None)) \<and>
     sum_list (map snd (line_counts r)) = attributed r \<and>
     attributed r = count_if (\<lambda>s. site_of target dw s \<noteq> None) xs \<and>
     unattributed r = count_if (\<lambda>s. in_bucket target KTarget s \<and> site_of target dw s = None) xs"

lemma attributed_to_start:
  "attributed_to target dw [] (empty_result\<lparr>ip_lo := a, ip_hi := b\<rparr>)"
  by (simp add: attributed_to_def empty_result_def cache_ok_def smap_inv_def)

text \<open>Counting one more target sample whose site is \<open>site\<close>.\<close>

lemma line_counts_step:
  assumes "smap_inv m" "\<forall>site. smap_find m site =
      (if \<exists>s\<in>set xs. f s = Some site then Some (count_if (\<lambda>s. f s = Some site) xs) else None)"
    and "f x = Some loc"
  shows "smap_find (smap_inc loc m) site =
      (if \<exists>s\<in>set (xs @ [x]). f s = Some site
       then Some (count_if (\<lambda>s. f s = Some site) (xs @ [x])) else None)"
proof -
  have zero: "count_if (\<lambda>s. f s = Some loc) xs = 0" if "\<not> (\<exists>s\<in>set xs. f s = Some loc)"
    using that by (simp add: count_if_def filter_empty_conv)
  from assms zero show ?thesis
    by (auto simp: smap_inc_def smap_find_set split: option.splits)
qed

text \<open>Any other sample leaves the line counts as they should be.\<close>

lemma line_counts_skip:
  assumes "\<forall>site. smap_find m site =
      (if \<exists>s\<in>set xs. f s = Some site then Some (count_if (\<lambda>s. f s = Some site) xs) else None)"
    and "f x = None"
  shows "smap_find m site =
      (if \<exists>s\<in>set (xs @ [x]). f s = Some site
       then Some (count_if (\<lambda>s. f s = Some site) (xs @ [x])) else None)"
  using assms by auto

lemma attribute_other:
  assumes "classify (s_ip s) target \<noteq> KTarget" "attributed_to target dw xs r"
  shows "attributed_to target dw (xs @ [s]) (attribute_sample target dw s r)"
proof -
  have "site_of target dw s = None" using assms(1) by (simp add: site_of_def)
  moreover have "smap_find (line_counts r) site =
      (if \<exists>s\<in>set (xs @ [s]). site_of target dw s = Some site
       then Some (count_if (\<lambda>s. site_of target dw s = Some site) (xs @ [s])) else None)" for site
    using assms(2) calculation by (intro line_counts_skip) (simp_all add: attributed_to_def)
  ultimately show ?thesis
    using assms unfolding attributed_to_def
    by (cases "classify (s_ip s) target")
      (simp_all add: attribute_sample_def in_bucket_def cache_ok_def Let_def)
qed

lemma attribute_target:
  assumes "classify (s_ip s) target = KTarget" "attributed_to target dw xs r"
  shows "attributed_to target dw (xs @ [s]) (attribute_sample target dw s r)"
proof -
  let ?r1 = "r\<lparr>ip_lo := min (ip_lo r) (s_ip s), ip_hi := max (ip_hi r) (s_ip s),
    bucket_count := (bucket_count r)[0 := bucket_count r ! 0 + 1]\<rparr>"
  obtain ok r2 where l: "lookup_or_resolve dw (s_ip s) ?r1 = (ok, r2)"
    by (cases "lookup_or_resolve dw (s_ip s) ?r1")
  from assms(2) have "cache_ok dw ?r1" by (simp add: attributed_to_def cache_ok_def)
  note l_ok = lookup_or_resolve_ok [OF this l] and frame = lookup_or_resolve_frame [OF l]
  have site: "site_of target dw s = resolve dw (s_ip s)" using assms(1) by (simp add: site_of_def)
  have m: "smap_inv (line_counts r)"
    and inv: "\<forall>site. smap_find (line_counts r) site =
      (if \<exists>s\<in>set xs. site_of target dw s = Some site
       then Some (count_if (\<lambda>s. site_of target dw s = Some site) xs) else None)"
    using assms(2) by (simp_all add: attributed_to_def)
  show ?thesis
  proof (cases "resolve dw (s_ip s)")
    case None
    with l_ok have no: "\<not> ok" by simp
    have step: "attribute_sample target dw s r = r2\<lparr>unattributed := unattributed r2 + 1\<rparr>"
      using assms(1) l no by (simp add: attribute_sample_def)
    have "site_of target dw s = None" using site None by simp
    from line_counts_skip [OF inv this] this show ?thesis
      unfolding step using assms l_ok unfolding attributed_to_def
      by (simp add: in_bucket_def cache_ok_def frame)
  next
    case (Some loc)
    with l_ok have yes: "ok" by simp
    from Some yes l_ok have "smap_find (resolve_loc r2) (s_ip s) = Some loc" by simp
    then have step: "attribute_sample target dw s r =
        r2\<lparr>attributed := attributed r2 + 1, line_counts := smap_inc loc (line_counts r2)\<rparr>"
      using assms(1) l yes by (simp add: attribute_sample_def loc_at_def)
    have "sum_list (map snd (smap_inc loc (line_counts r))) = attributed r + 1"
      using assms(2) counter.total_up [OF m, of loc] by (simp add: attributed_to_def smap_inc_def)
    moreover have "smap_inv (smap_inc loc (line_counts r))"
      using m by (simp add: smap_inc_def smap_inv_set)
    moreover have "site_of target dw s = Some loc" using site Some by simp
    moreover note line_counts_step [OF m inv this]
    ultimately show ?thesis
      unfolding step using assms l_ok unfolding attributed_to_def
      by (simp add: in_bucket_def cache_ok_def frame)
  qed
qed

lemma attributed_to_step:
  "attributed_to target dw xs r \<Longrightarrow> attributed_to target dw (xs @ [s]) (attribute_sample target dw s r)"
  using attribute_other attribute_target by blast

lemma fold_attributed_to:
  "attributed_to target dw xs (fold (attribute_sample target dw) xs
     (empty_result\<lparr>ip_lo := a, ip_hi := b\<rparr>))"
proof (induction xs rule: rev_induct)
  case Nil
  then show ?case by (simp add: attributed_to_start)
next
  case (snoc s xs)
  then show ?case by (simp add: attributed_to_step)
qed

text \<open>The observed address range.\<close>

lemma attribute_sample_range:
  "ip_lo (attribute_sample target dw s r) = min (ip_lo r) (s_ip s)"
  "ip_hi (attribute_sample target dw s r) = max (ip_hi r) (s_ip s)"
  by (auto simp: attribute_sample_def loc_at_def lookup_or_resolve_def Let_def
      split: option.splits prod.splits if_splits)

lemma fold_range:
  "ip_lo (fold (attribute_sample target dw) xs r) = Min (insert (ip_lo r) (s_ip ` set xs))"
  "ip_hi (fold (attribute_sample target dw) xs r) = Max (insert (ip_hi r) (s_ip ` set xs))"
proof (induction xs rule: rev_induct)
  case Nil
  { case 1 show ?case by simp }
  { case 2 show ?case by simp }
next
  case (snoc s xs)
  have ins: "insert a (s_ip ` set (xs @ [s])) = insert (s_ip s) (insert a (s_ip ` set xs))" for a
    by auto
  { case 1 show ?case unfolding ins using snoc(1)
      by (simp add: attribute_sample_range min.commute) }
  { case 2 show ?case unfolding ins using snoc(2)
      by (simp add: attribute_sample_range max.commute) }
qed

text \<open>The result of the whole function, field by field.\<close>

lemma classify_and_attribute_fields:
  fixes samples target dw
  defines "r \<equiv> classify_and_attribute samples target dw"
  shows "smap_find (line_counts r) site =
      (if \<exists>s\<in>set samples. site_of target dw s = Some site
       then Some (count_if (\<lambda>s. site_of target dw s = Some site) samples) else None)"
    and "smap_inv (line_counts r)"
    and "bucket_count r = map (\<lambda>b. count_if (in_bucket target b) samples)
      [KTarget, KOtherUser, KKernel, KUnclassifiable]"
    and "sum_list (map snd (line_counts r)) = attributed r"
    and "attributed r = count_if (\<lambda>s. site_of target dw s \<noteq> None) samples"
    and "unattributed r = count_if (\<lambda>s. in_bucket target KTarget s \<and> site_of target dw s = None) samples"
    and "kernel_ips r = sorted_list_of_set (s_ip ` {s\<in>set samples. in_bucket target KKernel s})"
proof -
  let ?f = "fold (attribute_sample target dw) samples
    (empty_result\<lparr>ip_lo := s_ip (hd samples), ip_hi := s_ip (hd samples)\<rparr>)"
  have r: "r = (if samples = [] then empty_result
      else ?f\<lparr>kernel_ips := remdups_adj (sort_by (<) (kernel_ips ?f))\<rparr>)"
    by (simp add: r_def classify_and_attribute_def Let_def split: list.splits)
  have empty: "empty_result\<lparr>ip_lo := 0, ip_hi := 0\<rparr> = empty_result" by (simp add: empty_result_def)
  have inv: "attributed_to target dw samples (if samples = [] then empty_result else ?f)"
    using fold_attributed_to attributed_to_start [of target dw 0 0] empty by auto
  from inv show "smap_find (line_counts r) site =
      (if \<exists>s\<in>set samples. site_of target dw s = Some site
       then Some (count_if (\<lambda>s. site_of target dw s = Some site) samples) else None)"
    by (simp add: r attributed_to_def split: if_splits)
  from inv show "smap_inv (line_counts r)" by (simp add: r attributed_to_def split: if_splits)
  from inv show "bucket_count r = map (\<lambda>b. count_if (in_bucket target b) samples)
      [KTarget, KOtherUser, KKernel, KUnclassifiable]"
    by (simp add: r attributed_to_def split: if_splits)
  from inv show "sum_list (map snd (line_counts r)) = attributed r"
    by (simp add: r attributed_to_def split: if_splits)
  from inv show "attributed r = count_if (\<lambda>s. site_of target dw s \<noteq> None) samples"
    by (simp add: r attributed_to_def split: if_splits)
  from inv show "unattributed r =
      count_if (\<lambda>s. in_bucket target KTarget s \<and> site_of target dw s = None) samples"
    by (simp add: r attributed_to_def split: if_splits)
  from inv show "kernel_ips r = sorted_list_of_set (s_ip ` {s\<in>set samples. in_bucket target KKernel s})"
    by (simp add: r attributed_to_def ksort.srt_unique empty_result_def split: if_splits)
qed

text \<open>Disjoint cases add up.\<close>

lemma count_if_disjoint:
  "(\<And>x. x \<in> set xs \<Longrightarrow> \<not> (P x \<and> Q x)) \<Longrightarrow> count_if P xs + count_if Q xs = count_if (\<lambda>x. P x \<or> Q x) xs"
  by (induction xs) (auto simp: count_if_def algebra_simps)

lemma count_if_cong: "(\<And>x. x \<in> set xs \<Longrightarrow> P x = Q x) \<Longrightarrow> count_if P xs = count_if Q xs"
  by (simp add: count_if_def cong: filter_cong)

lemma buckets_total:
  "sum_list (bucket_count (classify_and_attribute samples target dw)) = word_of_nat (length samples)"
proof -
  have "(\<Sum>b\<leftarrow>[KTarget, KOtherUser, KKernel, KUnclassifiable]. count_if (in_bucket target b) xs)
    = word_of_nat (length xs)" for xs
  proof (induction xs)
    case (Cons x xs)
    then show ?case
      by (cases "classify (s_ip x) target") (simp_all add: count_if_def in_bucket_def algebra_simps)
  qed (simp add: count_if_def)
  then show ?thesis unfolding classify_and_attribute_fields(3) .
qed

lemma target_total:
  "attributed (classify_and_attribute samples target dw) + unattributed (classify_and_attribute samples target dw) =
     count_if (in_bucket target KTarget) samples"
  unfolding classify_and_attribute_fields(5,6)
  by (subst count_if_disjoint) (auto intro!: count_if_cong simp: site_of_def in_bucket_def split: if_splits)

section \<open>Properties\<close>

text \<open>
  C4: The count of a source line is the number of samples whose address is in the
  target text range and resolves to that line, and a line has an entry only if there is
  such a sample: the resolution cache never changes an answer.
\<close>

theorem line_counts_are_sample_counts:
  "smap_find (line_counts (classify_and_attribute samples target dw)) site =
     (if \<exists>s\<in>set samples. site_of target dw s = Some site
      then Some (count_if (\<lambda>s. site_of target dw s = Some site) samples) else None)"
  by (rule classify_and_attribute_fields(1))

theorem attribution_conserves_samples:
  "let r = classify_and_attribute samples target dw in
    attributed r + unattributed r = bucket_count r ! bucket_index KTarget \<and>
    sum_list (map snd (line_counts r)) = attributed r \<and>
    sum_list (bucket_count r) = word_of_nat (length samples)"
proof -
  define r where "r = classify_and_attribute samples target dw"
  note f = classify_and_attribute_fields [of samples target dw, folded r_def]
  have "attributed r + unattributed r = count_if (in_bucket target KTarget) samples"
    unfolding r_def by (rule target_total)
  moreover have "sum_list (bucket_count r) = word_of_nat (length samples)"
    unfolding r_def by (rule buckets_total)
  ultimately show ?thesis using f(4) unfolding r_def [symmetric] Let_def by (simp add: f(3))
qed

theorem kernel_ips_and_range:
  assumes "samples \<noteq> []"
  shows "let r = classify_and_attribute samples target dw in
    sorted_wrt (<) (kernel_ips r) \<and>
    set (kernel_ips r) = {s_ip s | s. s \<in> set samples \<and> classify (s_ip s) target = KKernel} \<and>
    ip_lo r = Min (s_ip ` set samples) \<and> ip_hi r = Max (s_ip ` set samples)"
proof -
  define r where "r = classify_and_attribute samples target dw"
  obtain s0 ss where s: "samples = s0 # ss" using assms by (cases samples) auto
  have "ip_lo r = Min (s_ip ` set samples) \<and> ip_hi r = Max (s_ip ` set samples)"
    unfolding r_def s classify_and_attribute_def Let_def
    by (simp add: fold_range attribute_sample_range)
  moreover have "kernel_ips r = sorted_list_of_set (s_ip ` {s\<in>set samples. in_bucket target KKernel s})"
    unfolding r_def by (rule classify_and_attribute_fields(7))
  moreover have "s_ip ` {s\<in>set samples. in_bucket target KKernel s} =
      {s_ip s | s. s \<in> set samples \<and> classify (s_ip s) target = KKernel}"
    by (auto simp: in_bucket_def)
  ultimately show ?thesis unfolding r_def [symmetric] Let_def by (simp add: strict_sorted_iff)
qed

theorem kernel_ips_and_range_witness:
  "let r = classify_and_attribute
      [\<lparr>s_ip = 0x401146, s_pid = 1, s_tid = 1, s_period = 5\<rparr>,
       \<lparr>s_ip = 0xffffffff81000000, s_pid = 1, s_tid = 1, s_period = 5\<rparr>]
      \<lparr>lo = 0x401000, hi = 0x402000\<rparr>
      \<lparr>dwfl_module_getsrc = (\<lambda>ip. Some ip), dwfl_lineinfo = (\<lambda>l. (Some ''m.cpp'', 44))\<rparr> in
    sorted_wrt (<) (kernel_ips r) \<and> ip_lo r = 0x401146 \<and> ip_hi r = 0xffffffff81000000"
  using kernel_ips_and_range [of "[\<lparr>s_ip = 0x401146, s_pid = 1, s_tid = 1, s_period = 5\<rparr>,
       \<lparr>s_ip = 0xffffffff81000000, s_pid = 1, s_tid = 1, s_period = 5\<rparr>]"
      "\<lparr>lo = 0x401000, hi = 0x402000\<rparr>"
      "\<lparr>dwfl_module_getsrc = (\<lambda>ip. Some ip), dwfl_lineinfo = (\<lambda>l. (Some ''m.cpp'', 44))\<rparr>"]
  unfolding Let_def by simp

end
