(* ===== verification/Double_Rounding.thy ===== *)
theory Double_Rounding
  imports Complex_Main Prelude
begin

text \<open>
  The \<open>double\<close> of the C++ code: a real number that every operation rounds to 53 significant
  bits, a tie to the even neighbour. The range of the exponent is not bounded here: the
  counts, periods and rates of \<open>src/main.cpp\<close> are far from its ends. \<open>near\<close> is the
  error calculus: how many roundings lie between a computed value and the exact one.
\<close>

section \<open>Rounding\<close>

text \<open>To the nearest integer, a tie to the even one.\<close>

definition round_half_even :: "real \<Rightarrow> int" where
  "round_half_even x =
     (let f = floor x; d = x - of_int f
      in if d < 1 / 2 \<or> d = 1 / 2 \<and> even f then f else f + 1)"

text \<open>The exponent of the last of the 53 bits of \<open>x\<close>.\<close>

definition last_bit :: "real \<Rightarrow> int" where
  "last_bit x = \<lfloor>log 2 \<bar>x\<bar>\<rfloor> - 52"

definition fl :: "real \<Rightarrow> real" where
  "fl x = (if x = 0 then 0
     else of_int (round_half_even (x / 2 powi last_bit x)) * 2 powi last_bit x)"

text \<open>\<open>static_cast<double>\<close> of a \<open>uint64_t\<close>.\<close>

definition double_of :: "u64 \<Rightarrow> real" where
  "double_of w = fl (real (unat w))"

text \<open>The unit roundoff.\<close>

definition uro :: real where
  "uro = 1 / 2 ^ 53"

lemma uro_bounds: "0 < uro" "uro < 1 / 1000000" "0 < 1 - uro" "1 - uro \<le> 1"
  by (simp_all add: uro_def)

lemma round_half_even_error: "\<bar>of_int (round_half_even x) - x\<bar> \<le> 1 / 2"
  unfolding round_half_even_def Let_def
  using floor_correct [of x] by (auto split: if_splits)

lemma round_half_even_unique:
  assumes "\<bar>x - of_int i\<bar> < 1 / 2"
  shows "round_half_even x = i"
proof -
  have "\<bar>of_int (round_half_even x) - x\<bar> \<le> 1 / 2" by (rule round_half_even_error)
  then have "\<bar>real_of_int (round_half_even x) - of_int i\<bar> < 1" using assms by linarith
  then show ?thesis by linarith
qed

lemma round_half_even_ge: "of_int i \<le> x \<Longrightarrow> i \<le> round_half_even x"
proof -
  assume "of_int i \<le> x"
  then have "i \<le> \<lfloor>x\<rfloor>" by (simp add: le_floor_iff)
  then show ?thesis by (simp add: round_half_even_def Let_def)
qed

lemma round_half_even_le: 
  assumes "x \<le> of_int i"
  shows "round_half_even x \<le> i"
proof (cases "x = of_int i")
  case True
  then show ?thesis by (simp add: round_half_even_def)
next
  case False
  with assms have "\<lfloor>x\<rfloor> < i" by (simp add: floor_less_iff)
  then show ?thesis by (simp add: round_half_even_def Let_def)
qed

lemma last_bit_bounds:
  assumes "x \<noteq> 0"
  shows "2 powi (last_bit x + 52) \<le> \<bar>x\<bar>" "\<bar>x\<bar> < 2 powi (last_bit x + 53)"
proof -
  have "of_int \<lfloor>log 2 \<bar>x\<bar>\<rfloor> \<le> log 2 \<bar>x\<bar>" "log 2 \<bar>x\<bar> < of_int (\<lfloor>log 2 \<bar>x\<bar>\<rfloor> + 1)"
    by linarith+
  then have "2 powr of_int \<lfloor>log 2 \<bar>x\<bar>\<rfloor> \<le> \<bar>x\<bar>" "\<bar>x\<bar> < 2 powr of_int (\<lfloor>log 2 \<bar>x\<bar>\<rfloor> + 1)"
    using le_log_iff [of 2 "\<bar>x\<bar>"] log_less_iff [of 2 "\<bar>x\<bar>"] assms by fastforce+
  then show "2 powi (last_bit x + 52) \<le> \<bar>x\<bar>" "\<bar>x\<bar> < 2 powi (last_bit x + 53)"
    by (simp_all add: last_bit_def powr_real_of_int' add.commute del: of_int_add)
qed

lemma powi_less: "(2 :: real) powi a < 2 powi b \<longleftrightarrow> a < b"
  using power_int_strict_increasing [of a b "2 :: real"] power_int_increasing [of b a "2 :: real"]
  by (auto simp: not_less [symmetric])

lemma last_bit_unique:
  assumes "2 powi (e + 52) \<le> \<bar>x\<bar>" "\<bar>x\<bar> < 2 powi (e + 53)"
  shows "last_bit x = e"
proof -
  have "0 < (2::real) powi (e + 52)" by (simp add: zero_less_power_int)
  with assms(1) have "0 < \<bar>x\<bar>" by linarith
  then have pos: "x \<noteq> 0" by simp
  have "e + 52 < last_bit x + 53"
    using le_less_trans [OF assms(1) last_bit_bounds(2) [OF pos]] by (simp only: powi_less)
  moreover have "last_bit x + 52 < e + 53"
    using le_less_trans [OF last_bit_bounds(1) [OF pos] assms(2)] by (simp only: powi_less)
  ultimately show ?thesis by linarith
qed

lemma fl_0 [simp]: "fl 0 = 0"
  by (simp add: fl_def)

text \<open>The error of a rounding: at most half a unit in the last place.\<close>

lemma fl_error: "\<bar>fl x - x\<bar> \<le> uro * \<bar>x\<bar>"
proof (cases "x = 0")
  case False
  let ?s = "(2::real) powi last_bit x"
  have s: "0 < ?s" by (simp add: zero_less_power_int)
  have "fl x - x = (of_int (round_half_even (x / ?s)) - x / ?s) * ?s"
    using False s by (simp add: fl_def left_diff_distrib)
  then have "\<bar>fl x - x\<bar> = \<bar>of_int (round_half_even (x / ?s)) - x / ?s\<bar> * ?s"
    using s by (simp add: abs_mult)
  also have "\<dots> \<le> 1 / 2 * ?s"
    by (rule mult_right_mono [OF round_half_even_error]) (simp add: s less_imp_le)
  also have "\<dots> = uro * (2 powi (last_bit x + 52))"
    by (simp add: uro_def power_int_add)
  also have "\<dots> \<le> uro * \<bar>x\<bar>"
    using last_bit_bounds(1) [OF False] uro_bounds(1) by simp
  finally show ?thesis .
qed simp

text \<open>Evaluating a rounding.\<close>

lemma fl_eval:
  assumes "2 ^ 52 \<le> i" "i < 2 ^ 53" "\<bar>x - of_int i * 2 powi e\<bar> < 2 powi e / 2" 
    "2 ^ 52 * 2 powi e \<le> x" "x < 2 ^ 53 * 2 powi e"
  shows "fl x = of_int i * 2 powi e"
proof -
  let ?s = "(2::real) powi e"
  have s: "0 < ?s" by (simp add: zero_less_power_int)
  have "2 powi (e + 52) \<le> \<bar>x\<bar>" "\<bar>x\<bar> < 2 powi (e + 53)"
    using assms(4,5) s by (simp_all add: power_int_add mult.commute)
  then have e: "last_bit x = e" by (rule last_bit_unique)
  have "0 < x" using assms(4) s by (smt (verit) mult_pos_pos zero_less_power)
  have "x - of_int i * ?s = (x / ?s - of_int i) * ?s" using s by (simp add: left_diff_distrib)
  then have "\<bar>x / ?s - of_int i\<bar> * ?s < 1 / 2 * ?s" using assms(3) s by (simp add: abs_mult)
  then have "\<bar>x / ?s - of_int i\<bar> < 1 / 2" using s by (simp only: mult_less_cancel_right_pos)
  then have "round_half_even (x / ?s) = i" by (rule round_half_even_unique)
  with e \<open>0 < x\<close> show ?thesis by (simp add: fl_def)
qed

text \<open>Rounding keeps the order against 0 and 1.\<close>

lemma fl_nonneg [simp]: "0 \<le> x \<Longrightarrow> 0 \<le> fl x"
  using fl_error [of x] uro_bounds mult_right_mono [of uro 1 x] by simp

lemma fl_nonpos: "x \<le> 0 \<Longrightarrow> fl x \<le> 0"
  using fl_error [of x] uro_bounds mult_right_mono [of uro 1 "- x"] by simp

lemma fl_neg: "x < 0 \<Longrightarrow> fl x < 0"
  using fl_error [of x] uro_bounds mult_strict_right_mono [of uro 1 "- x"] by linarith

lemma fl_pos: "0 < x \<Longrightarrow> 0 < fl x"
  using fl_error [of x] uro_bounds mult_strict_right_mono [of uro 1 x] by linarith

lemma fl_ge_1:
  assumes "1 \<le> x"
  shows "1 \<le> fl x"
proof -
  let ?s = "(2::real) powi last_bit x"
  have x: "x \<noteq> 0" and s: "0 < ?s" using assms by (simp_all add: zero_less_power_int)
  have "2 powi 0 < (2::real) powi (last_bit x + 53)" using last_bit_bounds(2) [OF x] assms by simp
  then have e: "0 \<le> last_bit x + 52" unfolding powi_less by simp
  have "of_int (2 ^ 52) * ?s \<le> x" using last_bit_bounds(1) [OF x] assms by (simp add: power_int_add mult.commute)
  then have "of_int (2 ^ 52) \<le> x / ?s" using s by (simp only: pos_le_divide_eq)
  then have "2 ^ 52 \<le> round_half_even (x / ?s)" by (rule round_half_even_ge)
  then have "of_int (2 ^ 52) \<le> real_of_int (round_half_even (x / ?s))" by (simp only: of_int_le_iff)
  then have "of_int (2 ^ 52) * ?s \<le> fl x" using x s by (simp add: fl_def)
  moreover have "1 \<le> (2::real) powi (last_bit x + 52)" using e by (simp add: one_le_power_int)
  ultimately show ?thesis by (simp add: power_int_add)
qed

lemma fl_le_1:
  assumes "0 \<le> x" "x \<le> 1"
  shows "fl x \<le> 1"
proof (cases "x = 0 \<or> x = 1")
  case True
  have "fl 1 = of_int (2 ^ 52) * 2 powi (- 52)" by (rule fl_eval) (simp_all add: power_int_minus)
  then show ?thesis using True by (auto simp: power_int_minus)
next
  case False
  let ?s = "(2::real) powi last_bit x"
  have x: "x \<noteq> 0" and s: "0 < ?s" using False by (simp_all add: zero_less_power_int)
  have "(2::real) powi (last_bit x + 52) < 2 powi 0" using last_bit_bounds(1) [OF x] assms False by simp
  then have e: "last_bit x + 53 \<le> 0" unfolding powi_less by simp
  have "x \<le> of_int (2 ^ 53) * ?s" using last_bit_bounds(2) [OF x] assms by (simp add: power_int_add mult.commute)
  then have "x / ?s \<le> of_int (2 ^ 53)" using s by (simp only: pos_divide_le_eq)
  then have "round_half_even (x / ?s) \<le> 2 ^ 53" by (rule round_half_even_le)
  then have "real_of_int (round_half_even (x / ?s)) \<le> of_int (2 ^ 53)" by (simp only: of_int_le_iff)
  then have "fl x \<le> of_int (2 ^ 53) * ?s" using x s by (simp add: fl_def)
  moreover have "(2::real) powi (last_bit x + 53) \<le> 2 powi 0" by (rule power_int_increasing) (use e in simp_all)
  ultimately show ?thesis by (simp add: power_int_add)
qed

lemma fl_1 [simp]: "fl 1 = 1"
  using fl_ge_1 [of 1] fl_le_1 [of 1] by simp

lemma double_of_nonneg [simp]: "0 \<le> double_of w"
  unfolding double_of_def by (rule fl_nonneg) (rule of_nat_0_le_iff)

text \<open>Integers up to 53 bits are not rounded.\<close>

lemma fl_nat:
  assumes "n < 2 ^ 53"
  shows "fl (real n) = real n"
proof (cases "n = 0")
  case False
  let ?e = "last_bit (real n)"
  have "(2 :: real) powi (?e + 52) < 2 powi 53"
    using last_bit_bounds(1) [of "real n"] assms False
    by (metis (no_types, opaque_lifting) abs_of_nat le_less_trans of_nat_eq_0_iff of_nat_less_iff of_nat_numeral of_nat_power power_int_numeral)
  then have e: "?e \<le> 0" unfolding powi_less by simp
  have pow: "(2 :: real) powi ?e * 2 ^ nat (- ?e) = 1"
    using e by (simp flip: power_int_of_nat add: power_int_add [symmetric])
  then have x: "real n / 2 powi ?e = of_int (int (n * 2 ^ nat (- ?e)))"
    by (simp add: field_simps)
  have "round_half_even (real n / 2 powi ?e) = int (n * 2 ^ nat (- ?e))"
    unfolding x by (rule round_half_even_unique) simp
  then show ?thesis using False pow by (simp add: fl_def mult_ac)
qed simp

section \<open>Counting roundings\<close>

definition near :: "nat \<Rightarrow> real \<Rightarrow> real \<Rightarrow> bool" where
  "near k x y \<longleftrightarrow> 0 \<le> y \<and> y * (1 - uro) ^ k \<le> x \<and> x * (1 - uro) ^ k \<le> y"

lemma near_refl: "0 \<le> y \<Longrightarrow> near 0 y y"
  by (simp add: near_def)

lemma near_nonneg: "near k x y \<Longrightarrow> 0 \<le> x"
  using uro_bounds by (auto simp: near_def intro: order_trans [rotated])

lemma uro_power: "0 < (1 - uro) ^ k" "(1 - uro) ^ k \<le> 1"
  using uro_bounds by (simp_all add: power_le_one)

lemma near_mono:
  assumes "near k x y" "k \<le> l"
  shows "near l x y"
proof -
  have le: "(1 - uro) ^ l \<le> (1 - uro) ^ k"
    using assms(2) uro_bounds by (intro power_decreasing) simp_all
  have "y * (1 - uro) ^ l \<le> y * (1 - uro) ^ k" "x * (1 - uro) ^ l \<le> x * (1 - uro) ^ k"
    using le assms(1) near_nonneg [OF assms(1)] by (simp_all add: mult_left_mono near_def)
  with assms(1) show ?thesis unfolding near_def by linarith
qed

lemma near_mult:
  assumes "near k x y" "near l v w"
  shows "near (k + l) (x * v) (y * w)"
proof -
  have nonneg: "0 \<le> x" "0 \<le> v" "0 \<le> y" "0 \<le> w"
    using assms near_nonneg by (auto simp: near_def)
  have "(y * (1 - uro) ^ k) * (w * (1 - uro) ^ l) \<le> x * v" "(x * (1 - uro) ^ k) * (v * (1 - uro) ^ l) \<le> y * w"
    using assms nonneg uro_power by (intro mult_mono; simp add: near_def less_imp_le)+
  then show ?thesis using nonneg by (simp add: near_def power_add mult_ac)
qed

lemma near_inverse:
  assumes "near k x y" "0 < y"
  shows "near k (1 / x) (1 / y)"
proof -
  have "0 < y * (1 - uro) ^ k" using assms(2) uro_power by simp
  then have "0 < x" using assms(1) by (simp add: near_def)
  then show ?thesis using assms by (simp add: near_def field_simps)
qed

lemma near_divide:
  assumes "near k x y" "near l v w" "0 < w"
  shows "near (k + l) (x / v) (y / w)"
  using near_mult [OF assms(1) near_inverse [OF assms(2,3)]] by simp

lemma near_add:
  assumes "near k x y" "near k v w"
  shows "near k (x + v) (y + w)"
  using assms by (simp add: near_def distrib_right)

lemma near_sqrt:
  assumes "near k x y"
  shows "near k (sqrt x) (sqrt y)"
proof -
  have half: "(1 - uro) ^ k \<le> sqrt ((1 - uro) ^ k)"
    using uro_power [of k] by (intro real_le_rsqrt) (simp add: power2_eq_square mult_left_le)
  have "sqrt y * (1 - uro) ^ k \<le> sqrt (y * (1 - uro) ^ k)" "sqrt x * (1 - uro) ^ k \<le> sqrt (x * (1 - uro) ^ k)"
    using half assms near_nonneg [OF assms] by (simp_all add: real_sqrt_mult mult_left_mono near_def)
  moreover have "sqrt (y * (1 - uro) ^ k) \<le> sqrt x" "sqrt (x * (1 - uro) ^ k) \<le> sqrt y"
    using assms by (simp_all add: near_def)
  ultimately show ?thesis using assms unfolding near_def real_sqrt_ge_0_iff
    by (intro conjI) (blast intro: order_trans)+
qed

lemma near_fl:
  assumes "near k x y"
  shows "near (Suc k) (fl x) y"
proof -
  have x: "0 \<le> x" by (rule near_nonneg [OF assms])
  have "x * (1 - uro) \<le> fl x" "fl x \<le> x * (1 + uro)"
    using fl_error [of x] x by (simp_all add: algebra_simps abs_le_iff)
  have "fl x * (1 - uro) \<le> x * (1 + uro) * (1 - uro)"
    using \<open>fl x \<le> x * (1 + uro)\<close> uro_bounds by (intro mult_right_mono) simp_all
  also have "\<dots> = x - x * (uro * uro)" by (simp add: algebra_simps)
  also have "\<dots> \<le> x" using x by simp
  finally have up: "fl x * (1 - uro) \<le> x" .
  have "fl x * (1 - uro) * (1 - uro) ^ k \<le> x * (1 - uro) ^ k"
    using up uro_power [of k] by (intro mult_right_mono) simp_all
  moreover have "y * (1 - uro) ^ k * (1 - uro) \<le> x * (1 - uro)"
    using assms uro_bounds by (intro mult_right_mono) (simp_all add: near_def)
  ultimately show ?thesis
    using assms \<open>x * (1 - uro) \<le> fl x\<close> unfolding near_def by (simp add: mult_ac)
qed

lemmas near_fl_ops = near_fl [OF near_mult] near_fl [OF near_divide] near_fl [OF near_add] near_fl [OF near_sqrt]

text \<open>The distance that \<open>k\<close> roundings can make.\<close>

lemma near_error:
  assumes "near k x y" "k \<le> 1000"
  shows "\<bar>x - y\<bar> \<le> (real k + 1) * uro * y"
proof -
  let ?d = "real k * uro"
  have d: "0 \<le> ?d" "?d \<le> 1000 * uro" using assms(2) uro_bounds by simp_all
  have "1 - ?d \<le> (1 - uro) ^ k"
    using Bernoulli_inequality [of "- uro" k] uro_bounds by (simp add: algebra_simps)
  then have "y * (1 - ?d) \<le> y * (1 - uro) ^ k" "x * (1 - ?d) \<le> x * (1 - uro) ^ k"
    using assms(1) near_nonneg [OF assms(1)] by (simp_all add: mult_left_mono near_def)
  then have low: "y * (1 - ?d) \<le> x" and up: "x * (1 - ?d) \<le> y"
    using assms(1) unfolding near_def by linarith+
  have y: "0 \<le> y" using assms(1) by (simp add: near_def)
  have "?d * (real k + 1) \<le> 1" 
  proof -
    have "?d * (real k + 1) \<le> (1000 * uro) * 1001" using d assms(2) by (intro mult_mono) simp_all
    also have "\<dots> \<le> 1" by (simp add: uro_def)
    finally show ?thesis .
  qed
  then have "?d * (real k + 1) * uro \<le> 1 * uro" using uro_bounds by (intro mult_right_mono) simp_all
  then have "1 \<le> (1 + (real k + 1) * uro) * (1 - ?d)" by (simp add: algebra_simps)
  then have "y \<le> y * ((1 + (real k + 1) * uro) * (1 - ?d))" using y by (simp add: mult_le_cancel_left1)
  then have "x * (1 - ?d) \<le> y * (1 + (real k + 1) * uro) * (1 - ?d)" using up by (simp only: mult.assoc)
  moreover have "0 < 1 - ?d" using d uro_bounds by linarith
  ultimately have "x \<le> y * (1 + (real k + 1) * uro)" by (simp only: mult_le_cancel_right_pos)
  moreover have "y * (1 - (real k + 1) * uro) \<le> y * (1 - ?d)"
    using y uro_bounds by (intro mult_left_mono) (simp_all add: algebra_simps)
  ultimately show ?thesis using low by (simp add: algebra_simps abs_le_iff)
qed

end
