(* ===== verification/Wilson.thy ===== *)
theory Wilson
  imports Double_Rounding
begin

text \<open>
  The score of \<open>src/main.cpp\<close>: \<open>wilson_lower_bound\<close>. The code is written once, over the
  rounding of its operations: \<open>wilson_double\<close> rounds each of them to a \<open>double\<close>, as the
  program does, \<open>wilson_lower_bound\<close> none, which is the formula. The theorems say what the
  formula is, and how far the computed value is from it. The radicand is clamped at 0 as in
  the code, so the square root is never taken of a negative number.
\<close>

section \<open>The code\<close>

definition wilson_lower_bound_with :: "(real \<Rightarrow> real) \<Rightarrow> real \<Rightarrow> real \<Rightarrow> real \<Rightarrow> real" where
  "wilson_lower_bound_with rnd m n z =
     (if n \<le> 0 then 0
      else
        let p = rnd (m / n);
            z2 = rnd (z * z);
            denom = rnd (1 + rnd (z2 / n));
            center = rnd (p + rnd (z2 / rnd (2 * n)));
            variance_term = max 0 (rnd (rnd (rnd (p * rnd (1 - p)) / n) + rnd (z2 / rnd (rnd (4 * n) * n))));
            spread = rnd (z * rnd (sqrt variance_term))
        in rnd (rnd (center - spread) / denom))"

definition wilson_double :: "real \<Rightarrow> real \<Rightarrow> real \<Rightarrow> real" where
  "wilson_double = wilson_lower_bound_with fl"

definition wilson_lower_bound :: "real \<Rightarrow> real \<Rightarrow> real \<Rightarrow> real" where
  "wilson_lower_bound = wilson_lower_bound_with (\<lambda>x. x)"

lemmas wilson_defs = wilson_lower_bound_def wilson_lower_bound_with_def Let_def

section \<open>The quadratic behind it\<close>

text \<open>
  With \<open>p = m / n\<close> the bound \<open>w\<close> is where the squared distance to \<open>p\<close> is
  \<open>z\<^sup>2 w (1 - w) / n\<close>; \<open>gap\<close> is the difference of the two sides, scaled by \<open>n\<close>.
\<close>

definition gap :: "real \<Rightarrow> real \<Rightarrow> real \<Rightarrow> real \<Rightarrow> real" where
  "gap p n z x = n * (p - x)\<^sup>2 - z\<^sup>2 * (x * (1 - x))"

lemma wilson_unfold:
  assumes "0 < n" "0 \<le> z"
  shows "(n + z\<^sup>2) * wilson_lower_bound m n z =
    m + z\<^sup>2 / 2 - z * sqrt (max 0 (m * (1 - m / n) + z\<^sup>2 / 4))"
proof -
  have "n * sqrt (max 0 (m / n * (1 - m / n) / n + z * z / (4 * n * n)))
      = sqrt (n\<^sup>2 * max 0 (m / n * (1 - m / n) / n + z * z / (4 * n * n)))"
    using assms by (simp add: real_sqrt_mult)
  also have "n\<^sup>2 * max 0 (m / n * (1 - m / n) / n + z * z / (4 * n * n))
      = max 0 (n\<^sup>2 * (m / n * (1 - m / n) / n + z * z / (4 * n * n)))"
    using assms by (simp add: max_mult_distrib_left)
  also have "n\<^sup>2 * (m / n * (1 - m / n) / n + z * z / (4 * n * n)) = m * (1 - m / n) + z\<^sup>2 / 4"
    using assms by (simp add: power2_eq_square field_simps)
  finally have s: "n * sqrt (max 0 (m / n * (1 - m / n) / n + z * z / (4 * n * n)))
      = sqrt (max 0 (m * (1 - m / n) + z\<^sup>2 / 4))" .
  have scale: "(n + z\<^sup>2) * ((c - z * S) / (1 + z * z / n)) = n * c - z * (n * S)" for c S
  proof -
    have "n * d * ((c - z * S) / d) = n * c - z * (n * S)" if "0 < d" for d
    proof -
      have "n * d * ((c - z * S) / d) = n * (c - z * S)" using that by simp
      then show ?thesis by (simp only: right_diff_distrib mult.left_commute)
    qed
    moreover have "n + z\<^sup>2 = n * (1 + z * z / n)" using assms by (simp add: power2_eq_square field_simps)
    moreover have "1 + z * z / n > 0" using assms by (intro add_pos_nonneg) simp_all
    ultimately show ?thesis by metis
  qed
  have "(n + z\<^sup>2) * wilson_lower_bound m n z =
      n * (m / n + z * z / (2 * n)) - z * (n * sqrt (max 0 (m / n * (1 - m / n) / n + z * z / (4 * n * n))))"
    using assms scale by (simp add: wilson_defs)
  also have "n * (m / n + z * z / (2 * n)) = m + z\<^sup>2 / 2"
    using assms by (simp add: power2_eq_square field_simps)
  finally show ?thesis by (simp only: s)
qed

text \<open>\<open>gap\<close> as a square against a discriminant.\<close>

lemma gap_square:
  assumes "0 < n"
  shows "(n + z\<^sup>2) * gap (m / n) n z x =
    ((n + z\<^sup>2) * x - (m + z\<^sup>2 / 2))\<^sup>2 - z\<^sup>2 * (m * (1 - m / n) + z\<^sup>2 / 4)"
  using assms by (simp add: gap_def power2_eq_square field_simps)

lemma radicand_nonneg:
  fixes m n z :: real
  assumes "0 \<le> m" "m \<le> n" "0 < n"
  shows "0 \<le> m * (1 - m / n) + z\<^sup>2 / 4"
  using assms by (intro add_nonneg_nonneg mult_nonneg_nonneg) simp_all

lemma wilson_gap_zero:
  assumes "0 \<le> m" "m \<le> n" "0 < n" "0 \<le> z"
  shows "gap (m / n) n z (wilson_lower_bound m n z) = 0"
proof -
  let ?D = "m * (1 - m / n) + z\<^sup>2 / 4"
  have "(n + z\<^sup>2) * gap (m / n) n z (wilson_lower_bound m n z) = (z * sqrt (max 0 ?D))\<^sup>2 - z\<^sup>2 * ?D"
    unfolding gap_square [OF assms(3)] wilson_unfold [OF assms(3,4)] by (simp add: power2_commute)
  also have "\<dots> = 0" using radicand_nonneg [OF assms(1-3), of z] by (simp add: power_mult_distrib)
  finally show ?thesis using assms(3) by (simp add: add_pos_nonneg less_imp_neq [symmetric])
qed

text \<open>The bound is at most the point estimate, also for \<open>m > n\<close>, where the radicand is clamped.\<close>

lemma wilson_le_point:
  assumes "0 \<le> m" "0 < n" "0 \<le> z"
  shows "wilson_lower_bound m n z \<le> m / n"
proof -
  let ?D = "m * (1 - m / n) + z\<^sup>2 / 4"
  have "z * (1 / 2 - m / n) \<le> sqrt (max 0 ?D)"
  proof (cases "m \<le> n")
    case True
    have "(z * (1 / 2 - m / n))\<^sup>2 = z\<^sup>2 / 4 - z\<^sup>2 * (m / n * (1 - m / n))"
      by (simp add: power2_eq_square algebra_simps)
    also have "\<dots> \<le> z\<^sup>2 / 4" using assms True by simp
    also have "\<dots> \<le> ?D" using assms True by simp
    finally have "(z * (1 / 2 - m / n))\<^sup>2 \<le> max 0 ?D" by simp
    then show ?thesis by (rule real_le_rsqrt)
  next
    case False
    then have "1 \<le> m / n" using assms by (simp add: field_simps)
    then have "1 / 2 - m / n \<le> 0" by linarith
    then have "z * (1 / 2 - m / n) \<le> 0" using assms(3) by (intro mult_nonneg_nonpos)
    also have "0 \<le> sqrt (max 0 ?D)" by simp
    finally show ?thesis .
  qed
  then have "z * (z * (1 / 2 - m / n)) \<le> z * sqrt (max 0 ?D)" using assms(3) by (rule mult_left_mono)
  moreover have "(n + z\<^sup>2) * (m / n) = m + z\<^sup>2 / 2 - z * (z * (1 / 2 - m / n))"
    using assms by (simp add: power2_eq_square field_simps)
  ultimately have "(n + z\<^sup>2) * wilson_lower_bound m n z \<le> (n + z\<^sup>2) * (m / n)"
    using wilson_unfold [OF assms(2,3), of m] by linarith
  moreover have "0 < n + z\<^sup>2" using assms by (simp add: add_pos_nonneg)
  ultimately show ?thesis by (simp only: mult_le_cancel_left_pos)
qed

lemma wilson_nonneg:
  assumes "0 \<le> m" "0 < n" "0 \<le> z"
  shows "0 \<le> wilson_lower_bound m n z"
proof -
  let ?D = "m * (1 - m / n) + z\<^sup>2 / 4"
  have alg: "(a + b / 2)\<^sup>2 - b * (a - q + b / 4) = a\<^sup>2 + b * q" for a b q :: real
    by (simp add: power2_eq_square field_simps)
  have "m * (1 - m / n) = m - m * (m / n)" by (simp only: right_diff_distrib mult_1_right)
  then have "(m + z\<^sup>2 / 2)\<^sup>2 - z\<^sup>2 * ?D = m\<^sup>2 + z\<^sup>2 * (m * (m / n))" by (simp only: alg)
  also have "0 \<le> \<dots>" using assms by (intro add_nonneg_nonneg mult_nonneg_nonneg) simp_all
  finally have le: "z\<^sup>2 * ?D \<le> (m + z\<^sup>2 / 2)\<^sup>2" by linarith
  have "(z * sqrt (max 0 ?D))\<^sup>2 = z\<^sup>2 * max 0 ?D" by (simp add: power_mult_distrib)
  also have "\<dots> \<le> (m + z\<^sup>2 / 2)\<^sup>2"
    using le by (cases "0 \<le> ?D") (simp_all only: max_absorb2 max_absorb1 linear not_le less_imp_le mult_zero_right zero_le_power2)
  finally have sq: "(z * sqrt (max 0 ?D))\<^sup>2 \<le> (m + z\<^sup>2 / 2)\<^sup>2" .
  have "0 \<le> m + z\<^sup>2 / 2" using assms(1) by simp
  with sq have "z * sqrt (max 0 ?D) \<le> m + z\<^sup>2 / 2" by (rule power2_le_imp_le)
  then have "0 \<le> (n + z\<^sup>2) * wilson_lower_bound m n z"
    unfolding wilson_unfold [OF assms(2,3)] by simp
  moreover have "0 < n + z\<^sup>2" using assms by (simp add: add_pos_nonneg)
  ultimately show ?thesis by (simp only: zero_le_mult_iff) linarith
qed

text \<open>Any \<open>x\<close> below the point estimate with a non-negative gap lies below the bound.\<close>

lemma wilson_ge:
  assumes "0 \<le> m" "m \<le> n" "0 < n" "0 \<le> z" "x < m / n" "0 \<le> gap (m / n) n z x"
  shows "x \<le> wilson_lower_bound m n z"
proof -
  let ?D = "m * (1 - m / n) + z\<^sup>2 / 4" and ?c = "m + z\<^sup>2 / 2"
  have pos: "0 < n + z\<^sup>2" using assms(3) by (simp add: add_pos_nonneg)
  have D: "0 \<le> ?D" using assms by (intro radicand_nonneg)
  have sq: "z\<^sup>2 * ?D \<le> ((n + z\<^sup>2) * x - ?c)\<^sup>2"
    using gap_square [OF assms(3), of z m x] mult_nonneg_nonneg [OF less_imp_le [OF pos] assms(6)]
    by linarith
  have "(n + z\<^sup>2) * x \<le> ?c"
  proof (rule ccontr)
    assume "\<not> (n + z\<^sup>2) * x \<le> ?c"
    moreover have "(n + z\<^sup>2) * x < (n + z\<^sup>2) * (m / n)" using assms(5) pos by (rule mult_strict_left_mono)
    ultimately have "((n + z\<^sup>2) * x - ?c)\<^sup>2 < ((n + z\<^sup>2) * (m / n) - ?c)\<^sup>2"
      by (intro power_strict_mono) simp_all
    also have "\<dots> = z\<^sup>2 * ?D + (n + z\<^sup>2) * gap (m / n) n z (m / n)"
      using gap_square [OF assms(3), of z m "m / n"] by linarith
    also have "\<dots> \<le> z\<^sup>2 * ?D"
    proof -
      have "0 \<le> m / n" "m / n \<le> 1" using assms by simp_all
      then have "0 \<le> z\<^sup>2 * (m / n * (1 - m / n))" by (intro mult_nonneg_nonneg) simp_all
      then have "gap (m / n) n z (m / n) \<le> 0" unfolding gap_def by (simp only: diff_self) simp
      then show ?thesis using pos by (simp add: mult_nonneg_nonpos)
    qed
    finally show False using sq by linarith
  qed
  moreover have "(z * sqrt ?D)\<^sup>2 \<le> (?c - (n + z\<^sup>2) * x)\<^sup>2"
    using sq D by (simp only: power_mult_distrib real_sqrt_pow2 power2_commute [of ?c])
  ultimately have "z * sqrt ?D \<le> ?c - (n + z\<^sup>2) * x" by (intro power2_le_imp_le [of "z * sqrt ?D"]) simp_all
  then have "(n + z\<^sup>2) * x \<le> (n + z\<^sup>2) * wilson_lower_bound m n z"
    unfolding wilson_unfold [OF assms(3,4)] max_absorb2 [OF D] by linarith
  with pos show ?thesis by (simp only: mult_le_cancel_left_pos)
qed

lemma wilson_lt_point:
  assumes "0 < m" "m \<le> n" "0 < z"
  shows "wilson_lower_bound m n z < m / n"
proof (rule ccontr)
  have n: "0 < n" using assms by linarith
  assume "\<not> wilson_lower_bound m n z < m / n"
  with wilson_le_point [of m n z] assms n have w: "wilson_lower_bound m n z = m / n" by simp
  from wilson_gap_zero [of m n z] assms n have "gap (m / n) n z (m / n) = 0" by (simp add: w)
  then have "m / n = 1" using assms n by (simp add: gap_def)
  then have "m = n" using n by simp
  from wilson_unfold [OF n, of z n] assms(3) have "(n + z\<^sup>2) * wilson_lower_bound n n z = n"
    using n by (simp add: real_sqrt_divide power2_eq_square)
  with w \<open>m = n\<close> n have "n + z\<^sup>2 = n" by simp
  with assms(3) show False by simp
qed

section \<open>Properties\<close>

text \<open>
  C26: For a proportion m/n the bound, computed without rounding, is the smaller root
  of the Wilson score equation n (p - x)^2 = z^2 x (1 - x): it is the Wilson lower
  confidence limit.
\<close>

theorem wilson_score_equation:
  assumes "0 \<le> m" "m \<le> n" "0 < n" "0 \<le> z"
  shows "let w = wilson_lower_bound m n z in
    n * (m / n - w)\<^sup>2 = z\<^sup>2 * (w * (1 - w)) \<and> 0 \<le> w \<and> w \<le> m / n \<and>
    (\<forall>x. x < m / n \<longrightarrow> z\<^sup>2 * (x * (1 - x)) \<le> n * (m / n - x)\<^sup>2 \<longrightarrow> x \<le> w)"
  using wilson_gap_zero [OF assms] wilson_nonneg [OF assms(1,3,4)]
    wilson_le_point [OF assms(1,3,4)] wilson_ge [OF assms]
  by (simp add: gap_def Let_def)

theorem wilson_score_equation_witness:
  "let w = wilson_lower_bound 3000 4000 1.96 in
    4000 * (3000 / 4000 - w)\<^sup>2 = 1.96\<^sup>2 * (w * (1 - w)) \<and> 0 \<le> w \<and> w \<le> 3000 / 4000"
  using wilson_score_equation [of 3000 4000 "1.96"] by (simp add: Let_def)

theorem wilson_rewards_evidence:
  assumes "0 \<le> m" "m \<le> n" "0 < n" "0 < z" "1 \<le> k"
  shows "wilson_lower_bound m n z \<le> wilson_lower_bound (k * m) (k * n) z"
proof (cases "m = 0")
  case True
  have "0 < k * n" using assms by simp
  then have "0 \<le> wilson_lower_bound (k * m) (k * n) z" using assms by (intro wilson_nonneg) simp_all
  moreover have "wilson_lower_bound m n z \<le> 0" using wilson_le_point [of m n z] assms True by simp
  ultimately show ?thesis by linarith
next
  case False
  let ?w = "wilson_lower_bound m n z"
  have k: "0 < k" and p: "k * m / (k * n) = m / n" using assms by simp_all
  have w: "?w < m / n" using assms False by (intro wilson_lt_point) simp_all
  have "gap (m / n) n z ?w = 0" using assms by (intro wilson_gap_zero) simp_all
  then have "n * (m / n - ?w)\<^sup>2 = z\<^sup>2 * (?w * (1 - ?w))" by (simp add: gap_def)
  moreover have "n * (m / n - ?w)\<^sup>2 \<le> k * (n * (m / n - ?w)\<^sup>2)"
    using mult_right_mono [OF assms(5), of "n * (m / n - ?w)\<^sup>2"] assms(3) by simp
  ultimately have "0 \<le> gap (k * m / (k * n)) (k * n) z ?w" unfolding p gap_def by (simp add: mult.assoc)
  then show ?thesis using assms k w p by (intro wilson_ge) simp_all
qed

theorem wilson_rewards_evidence_witness:
  "wilson_lower_bound 3 4 1.96 \<le> wilson_lower_bound (1000 * 3) (1000 * 4) 1.96"
  by (rule wilson_rewards_evidence) simp_all

theorem lucky_small_site_scores_below_evidence:
  "0.43 < wilson_lower_bound 3 3 1.96 \<and> wilson_lower_bound 3 3 1.96 < 0.44 \<and>
   0.73 < wilson_lower_bound 3000 4000 1.96 \<and> wilson_lower_bound 3000 4000 1.96 < 0.75"
proof -
  have "sqrt ((1.96 :: real)\<^sup>2 / 4) = 0.98"
    by (simp add: real_sqrt_divide)
  then have "(3 + 1.96\<^sup>2) * wilson_lower_bound 3 3 1.96 = 3"
    using wilson_unfold [of 3 "1.96" 3] by (simp add: power2_eq_square)
  moreover have "0.735 \<le> wilson_lower_bound 3000 4000 1.96"
    by (rule wilson_ge) (simp_all add: gap_def power2_eq_square)
  moreover have "wilson_lower_bound 3000 4000 1.96 < 3000 / 4000"
    by (rule wilson_lt_point) simp_all
  ultimately show ?thesis by (simp add: power2_eq_square)
qed

end
