(* ===== verification/Wilson_Double.thy ===== *)
theory Wilson_Double
  imports Wilson
begin

text \<open>
  The score that the program computes, \<open>wilson_double\<close>, against the formula: the roundings of
  each operation of \<open>wilson_lower_bound\<close>, and what they add up to.
\<close>

section \<open>The parts of the computation\<close>

definition c_center :: "real \<Rightarrow> real \<Rightarrow> real \<Rightarrow> real" where
  "c_center m n z = fl (fl (m / n) + fl (fl (z * z) / fl (2 * n)))"

definition c_denom :: "real \<Rightarrow> real \<Rightarrow> real" where
  "c_denom n z = fl (1 + fl (fl (z * z) / n))"

definition c_variance :: "real \<Rightarrow> real \<Rightarrow> real \<Rightarrow> real" where
  "c_variance m n z =
     fl (fl (fl (fl (m / n) * fl (1 - fl (m / n))) / n) + fl (fl (z * z) / fl (fl (4 * n) * n)))"

definition c_spread :: "real \<Rightarrow> real \<Rightarrow> real \<Rightarrow> real" where
  "c_spread m n z = fl (z * fl (sqrt (max 0 (c_variance m n z))))"

lemma wilson_double_parts:
  "0 < n \<Longrightarrow> wilson_double m n z = fl (fl (c_center m n z - c_spread m n z) / c_denom n z)"
  by (simp add: wilson_double_def wilson_lower_bound_with_def Let_def c_center_def c_denom_def
      c_variance_def c_spread_def)

lemma near_ratio: "0 \<le> m \<Longrightarrow> 0 < n \<Longrightarrow> near 1 (fl (m / n)) (m / n)"
  using near_fl [OF near_refl [of "m / n"]] by simp

lemma near_z2: "near 1 (fl (z * z)) (z * z)"
  using near_fl [OF near_refl [of "z * z"]] by simp

lemma near_center:
  assumes "0 \<le> m" "0 < n"
  shows "near 4 (c_center m n z) (m / n + z * z / (2 * n))"
proof -
  have d: "near 1 (fl (2 * n)) (2 * n)" using near_fl [OF near_refl [of "2 * n"]] assms(2) by simp
  have q: "near 3 (fl (fl (z * z) / fl (2 * n))) (z * z / (2 * n))"
    by (rule near_mono [OF near_fl [OF near_divide [OF near_z2 d]]]) (use assms(2) in simp_all)
  have p: "near 3 (fl (m / n)) (m / n)" by (rule near_mono [OF near_ratio [OF assms]]) simp
  show ?thesis unfolding c_center_def by (rule near_mono [OF near_fl [OF near_add [OF p q]]]) simp
qed

lemma near_denom:
  assumes "0 < n"
  shows "near 3 (c_denom n z) (1 + z * z / n)"
proof -
  have q: "near 2 (fl (fl (z * z) / n)) (z * z / n)"
    by (rule near_mono [OF near_fl [OF near_divide [OF near_z2 near_refl]]]) (use assms in simp_all)
  have one: "near 2 1 1" by (rule near_mono [OF near_refl]) simp_all
  show ?thesis unfolding c_denom_def by (rule near_mono [OF near_fl [OF near_add [OF one q]]]) simp
qed

lemma near_quarter:
  assumes "0 < n"
  shows "near 4 (fl (fl (z * z) / fl (fl (4 * n) * n))) (z * z / (4 * n * n))"
proof -
  have n4: "near 1 (fl (4 * n)) (4 * n)" using near_fl [OF near_refl [of "4 * n"]] assms by simp
  have d: "near 2 (fl (fl (4 * n) * n)) (4 * n * n)"
    by (rule near_mono [OF near_fl [OF near_mult [OF n4 near_refl]]]) (use assms in simp_all)
  show ?thesis
    by (rule near_mono [OF near_fl [OF near_divide [OF near_z2 d]]]) (use assms in simp_all)
qed

text \<open>The variance is near the one of the rounded ratio.\<close>

definition ratio_variance :: "real \<Rightarrow> real \<Rightarrow> real \<Rightarrow> real" where
  "ratio_variance p n z = p * (1 - p) / n + z * z / (4 * n * n)"

lemma near_variance:
  assumes "0 \<le> m" "m \<le> n" "0 < n"
  shows "near 5 (c_variance m n z) (ratio_variance (fl (m / n)) n z)"
proof -
  let ?p = "fl (m / n)"
  have p: "0 \<le> ?p" "?p \<le> 1" using assms by (simp_all add: fl_le_1)
  have q: "near 1 (fl (1 - ?p)) (1 - ?p)" using near_fl [OF near_refl [of "1 - ?p"]] p by simp
  have pq: "near 2 (fl (?p * fl (1 - ?p))) (?p * (1 - ?p))"
    by (rule near_mono [OF near_fl [OF near_mult [OF near_refl q]]]) (use p in simp_all)
  have v: "near 4 (fl (fl (?p * fl (1 - ?p)) / n)) (?p * (1 - ?p) / n)"
    by (rule near_mono [OF near_fl [OF near_divide [OF pq near_refl]]]) (use assms in simp_all)
  show ?thesis unfolding c_variance_def ratio_variance_def
    by (rule near_mono [OF near_fl [OF near_add [OF v near_quarter [OF assms(3)]]]]) simp
qed

lemma near_spread:
  assumes "0 \<le> m" "m \<le> n" "0 < n" "0 \<le> z"
  shows "near 7 (c_spread m n z) (z * sqrt (ratio_variance (fl (m / n)) n z))"
proof -
  have v: "near 5 (max 0 (c_variance m n z)) (ratio_variance (fl (m / n)) n z)"
    using near_variance [OF assms(1-3), of z] near_nonneg [OF near_variance [OF assms(1-3), of z]] by simp
  have r: "near 6 (fl (sqrt (max 0 (c_variance m n z)))) (sqrt (ratio_variance (fl (m / n)) n z))"
    by (rule near_mono [OF near_fl [OF near_sqrt [OF v]]]) simp
  show ?thesis unfolding c_spread_def
    by (rule near_mono [OF near_fl [OF near_mult [OF near_refl r]]]) (use assms in simp_all)
qed

section \<open>A proportion\<close>

text \<open>Rounding the ratio moves the radicand by at most \<open>uro / n\<close>.\<close>

lemma radicand_shift:
  assumes "0 \<le> m" "m \<le> n" "0 < n"
  shows "\<bar>ratio_variance (fl (m / n)) n z - ratio_variance (m / n) n z\<bar> \<le> uro / n"
proof -
  let ?p = "fl (m / n)" and ?q = "m / n"
  have p: "0 \<le> ?p" "?p \<le> 1" and q: "0 \<le> ?q" "?q \<le> 1" using assms by (simp_all add: fl_le_1)
  have "ratio_variance ?p n z - ratio_variance ?q n z = (?p - ?q) * (1 - ?p - ?q) / n"
    by (simp add: ratio_variance_def diff_divide_distrib [symmetric] algebra_simps)
  moreover have "\<bar>(?p - ?q) * (1 - ?p - ?q)\<bar> \<le> uro * 1"
  proof (unfold abs_mult, rule mult_mono)
    have "\<bar>?p - ?q\<bar> \<le> uro * \<bar>?q\<bar>" by (rule fl_error)
    also have "\<dots> \<le> uro * 1" using q uro_bounds by (intro mult_left_mono) simp_all
    finally show "\<bar>?p - ?q\<bar> \<le> uro" by simp
    show "\<bar>1 - ?p - ?q\<bar> \<le> 1" using p q unfolding abs_le_iff by linarith
  qed (use uro_bounds in simp_all)
  ultimately show ?thesis using assms(3) by (simp add: divide_right_mono)
qed

lemma sqrt_shift:
  assumes "0 < a" "a * a \<le> v" "a * a \<le> w"
  shows "\<bar>sqrt v - sqrt w\<bar> \<le> \<bar>v - w\<bar> / (2 * a)"
proof -
  have a: "a \<le> sqrt v" "a \<le> sqrt w" using assms by (simp_all add: real_le_rsqrt power2_eq_square)
  have vw: "0 \<le> v" "0 \<le> w" using assms zero_le_square [of a] by linarith+
  have "(sqrt v - sqrt w) * (sqrt v + sqrt w) = v - w" using vw by (simp add: algebra_simps)
  then have "\<bar>v - w\<bar> = \<bar>sqrt v - sqrt w\<bar> * (sqrt v + sqrt w)"
    using vw by (metis abs_mult abs_of_nonneg add_nonneg_nonneg real_sqrt_ge_zero)
  moreover have "\<bar>sqrt v - sqrt w\<bar> * (2 * a) \<le> \<bar>sqrt v - sqrt w\<bar> * (sqrt v + sqrt w)"
    using a by (intro mult_left_mono) simp_all
  ultimately show ?thesis using assms(1) by (simp add: pos_le_divide_eq)
qed

lemma radicand_ge:
  assumes "0 \<le> p" "p \<le> 1" "0 < n"
  shows "z / (2 * n) * (z / (2 * n)) \<le> ratio_variance p n z"
  using assms by (simp add: ratio_variance_def mult.assoc)

lemma spread_shift:
  assumes "0 \<le> m" "m \<le> n" "0 < n" "0 < z"
  shows "\<bar>z * sqrt (ratio_variance (fl (m / n)) n z) - z * sqrt (ratio_variance (m / n) n z)\<bar> \<le> uro"
proof -
  let ?v = "ratio_variance (fl (m / n)) n z" and ?w = "ratio_variance (m / n) n z"
  have a: "0 < z / (2 * n)" using assms by simp
  have "\<bar>sqrt ?v - sqrt ?w\<bar> \<le> \<bar>?v - ?w\<bar> / (2 * (z / (2 * n)))"
    by (rule sqrt_shift [OF a]; rule radicand_ge) (use assms in \<open>simp_all add: fl_le_1\<close>)
  also have "\<dots> \<le> (uro / n) / (2 * (z / (2 * n)))"
    using a radicand_shift [OF assms(1-3), of z] by (intro divide_right_mono) simp_all
  also have "\<dots> = uro / z" using assms by simp
  finally have "z * \<bar>sqrt ?v - sqrt ?w\<bar> \<le> z * (uro / z)" using assms(4) by (intro mult_left_mono) simp_all
  then show ?thesis using assms(4) by (simp add: abs_mult right_diff_distrib [symmetric])
qed

lemma exact_parts:
  assumes "0 \<le> m" "m \<le> n" "1 \<le> n" "0 < z" "z \<le> 2"
  defines "s \<equiv> z * sqrt (ratio_variance (m / n) n z)" and "c \<equiv> m / n + z * z / (2 * n)" and "d \<equiv> 1 + z * z / n"
  shows "wilson_lower_bound m n z = (c - s) / d" "0 \<le> s" "s \<le> c" "c \<le> 3" "1 \<le> d" "c \<le> d"
proof -
  have p: "0 \<le> m / n" "m / n \<le> 1" and n: "0 < n" using assms by simp_all
  have v: "0 \<le> ratio_variance (m / n) n z" using radicand_ge [OF p n, of z] zero_le_square [of "z / (2 * n)"] by linarith
  show w: "wilson_lower_bound m n z = (c - s) / d"
    using n v by (simp add: wilson_defs ratio_variance_def s_def c_def d_def)
  show "0 \<le> s" using assms v by (simp add: s_def)
  have d0: "0 \<le> z * z / n" using n by simp
  then show d: "1 \<le> d" by (simp add: d_def)
  have "0 \<le> wilson_lower_bound m n z" using assms n by (intro wilson_nonneg) simp_all
  then show "s \<le> c" using d unfolding w by (simp add: zero_le_divide_iff)
  have half: "z * z / (2 * n) = (z * z / n) / 2" by simp
  show "c \<le> d" using p d0 by (simp add: c_def d_def half)
  have "z * z \<le> 2 * 2" using assms(4,5) by (intro mult_mono) simp_all
  then have "z * z / (2 * n) \<le> 4 / (2 * 1)" using assms(3) by (intro frac_le) simp_all
  then show "c \<le> 3" using p by (simp add: c_def)
qed

lemma wilson_double_error:
  assumes "0 \<le> m" "m \<le> n" "1 \<le> n" "0 < z" "z \<le> 2"
  shows "\<bar>wilson_double m n z - wilson_lower_bound m n z\<bar> \<le> 64 * uro"
proof -
  define s where "s = z * sqrt (ratio_variance (m / n) n z)"
  define c where "c = m / n + z * z / (2 * n)"
  define d where "d = 1 + z * z / n"
  define s' where "s' = z * sqrt (ratio_variance (fl (m / n)) n z)"
  define S C D x where "S = c_spread m n z" and "C = c_center m n z" and "D = c_denom n z" and "x = fl (C - S)"
  have n: "0 < n" using assms by simp
  note parts = exact_parts [OF assms, folded s_def c_def d_def]
  have u: "0 < uro" "uro < 1 / 1000000" by (rule uro_bounds)+
  have shift: "\<bar>s' - s\<bar> \<le> uro" unfolding s'_def s_def using assms n by (intro spread_shift) simp_all
  then have s': "s' \<le> 3 + uro" using parts by linarith
  have "\<bar>S - s'\<bar> \<le> (real 7 + 1) * uro * s'" unfolding S_def s'_def
    using assms n by (intro near_error near_spread) simp_all
  also have "\<dots> \<le> 8 * uro * (3 + uro)" using s' u by (simp add: mult_left_mono)
  also have "\<dots> \<le> 25 * uro" by (simp add: uro_def)
  finally have S: "\<bar>S - s\<bar> \<le> 26 * uro" using shift by linarith
  have "\<bar>C - c\<bar> \<le> (real 4 + 1) * uro * c" unfolding C_def c_def
    using assms n by (intro near_error near_center) simp_all
  also have "\<dots> \<le> 5 * uro * 3" using parts u by (simp add: mult_left_mono)
  finally have "\<bar>C - S - (c - s)\<bar> \<le> 41 * uro" using S by linarith
  moreover have "\<bar>x - (C - S)\<bar> \<le> uro * \<bar>C - S\<bar>" unfolding x_def by (rule fl_error)
  moreover have "uro * \<bar>C - S\<bar> \<le> uro * 4"
    using calculation(1) parts u by (intro mult_left_mono) linarith+
  ultimately have x: "\<bar>x - (c - s)\<bar> \<le> 45 * uro" by linarith
  have "\<bar>D - d\<bar> \<le> (real 3 + 1) * uro * d" unfolding D_def d_def
    using assms n by (intro near_error near_denom) simp_all
  then have D: "\<bar>D - d\<bar> \<le> 4 * uro * d" by simp
  define w where "w = (c - s) / d"
  have w: "0 \<le> w" "w \<le> 1" "w * d = c - s" using parts by (simp_all add: w_def)
  have D1: "1 / 2 \<le> D" "59 * uro \<le> 60 * uro * D"
  proof -
    have "(1 - 4 * uro) * 1 \<le> (1 - 4 * uro) * d" using parts u by (intro mult_left_mono) simp_all
    then have le: "1 - 4 * uro \<le> D" using D by (simp add: algebra_simps)
    then show "1 / 2 \<le> D" using u by linarith
    have "60 * uro * (1 - 4 * uro) \<le> 60 * uro * D" using le u by (intro mult_left_mono) simp_all
    moreover have "59 * uro \<le> 60 * uro * (1 - 4 * uro)" by (simp add: uro_def)
    ultimately show "59 * uro \<le> 60 * uro * D" by linarith
  qed
  have "\<bar>w * (d - D)\<bar> \<le> w * (4 * uro * d)"
    unfolding abs_mult using w(1) D by (simp add: mult_left_mono abs_minus_commute)
  also have "\<dots> = 4 * uro * (c - s)" unfolding w(3) [symmetric] by simp
  also have "\<dots> \<le> 4 * uro * 3" using parts u by (intro mult_left_mono) simp_all
  finally have "\<bar>x - (c - s)\<bar> + \<bar>w * (d - D)\<bar> \<le> 59 * uro" using x u by simp
  then have sum: "\<bar>x - (c - s) + w * (d - D)\<bar> \<le> 59 * uro" by (rule order_trans [OF abs_triangle_ineq])
  have "x / D * D = x" using D1(1) by simp
  then have eq: "x - (c - s) + w * (d - D) = (x / D - w) * D"
    by (simp add: left_diff_distrib right_diff_distrib w(3))
  have "\<bar>x / D - w\<bar> * D \<le> 59 * uro" using sum D1(1) unfolding eq by (simp add: abs_mult)
  then have "\<bar>x / D - w\<bar> * D \<le> 60 * uro * D" using D1(2) by linarith
  then have y: "\<bar>x / D - w\<bar> \<le> 60 * uro" by (rule mult_right_le_imp_le) (use D1(1) in simp)
  have "uro * \<bar>x / D\<bar> \<le> uro * 2" using y w(1,2) u by (intro mult_left_mono) linarith+
  with fl_error [of "x / D"] have "\<bar>fl (x / D) - x / D\<bar> \<le> 2 * uro" by linarith
  with y have "\<bar>fl (x / D) - w\<bar> \<le> 62 * uro" by linarith
  moreover have "wilson_double m n z = fl (x / D)"
    by (simp add: wilson_double_parts [OF n] x_def C_def S_def D_def)
  ultimately show ?thesis using u unfolding parts(1) w_def by simp
qed

section \<open>More successes than trials\<close>

lemma fl_upper: "0 \<le> x \<Longrightarrow> fl x \<le> x * (1 + uro)"
  using fl_error [of x] by (simp add: algebra_simps)

text \<open>The first summand of the radicand is negative then.\<close>

lemma variance_clamped:
  assumes "1 \<le> n" "n < m"
  shows "max 0 (c_variance m n z) \<le> z * z / (4 * n * n) * (1 + 7 * uro)"
proof -
  define b where "b = z * z / (4 * n * n)"
  define A where "A = fl (fl (fl (m / n) * fl (1 - fl (m / n))) / n)"
  define B where "B = fl (fl (z * z) / fl (fl (4 * n) * n))"
  have n: "0 < n" using assms by simp
  have b: "0 \<le> b" using n by (simp add: b_def)
  have "1 \<le> fl (m / n)" using assms by (intro fl_ge_1) simp
  then have A: "A \<le> 0" unfolding A_def
    using n by (intro fl_nonpos divide_nonpos_pos mult_nonneg_nonpos) simp_all
  have B: "near 4 B b" unfolding B_def b_def by (rule near_quarter [OF n])
  then have "\<bar>B - b\<bar> \<le> (real 4 + 1) * uro * b" by (rule near_error) simp
  then have "B \<le> b * (1 + 5 * uro)" by (simp add: algebra_simps abs_le_iff)
  then have "B * (1 + uro) \<le> b * (1 + 5 * uro) * (1 + uro)" using uro_bounds by (intro mult_right_mono) simp_all
  also have "\<dots> = b * ((1 + 5 * uro) * (1 + uro))" by (simp only: mult.assoc)
  also have "\<dots> \<le> b * (1 + 7 * uro)" using b by (intro mult_left_mono) (simp_all add: uro_def)
  finally have up: "B * (1 + uro) \<le> b * (1 + 7 * uro)" .
  have "fl (A + B) \<le> max 0 (B * (1 + uro))"
  proof (cases "0 \<le> A + B")
    case True
    then have "fl (A + B) \<le> (A + B) * (1 + uro)" by (rule fl_upper)
    also have "\<dots> \<le> B * (1 + uro)" using A uro_bounds by (intro mult_right_mono) simp_all
    finally show ?thesis by simp
  next
    case False
    then show ?thesis using fl_nonpos [of "A + B"] by simp
  qed
  moreover have "0 \<le> b * (1 + 7 * uro)" using b uro_bounds by simp
  moreover have "c_variance m n z = fl (A + B)" by (simp add: c_variance_def A_def B_def)
  ultimately show ?thesis using up unfolding b_def by simp
qed

lemma spread_clamped:
  assumes "1 \<le> n" "n < m" "0 < z"
  shows "0 \<le> c_spread m n z" "c_spread m n z \<le> z * z / (2 * n) * (1 + 10 * uro)"
proof -
  define v where "v = max 0 (c_variance m n z)"
  define r where "r = z / (2 * n)"
  have r: "0 \<le> r" and n: "0 < n" and v: "0 \<le> v" using assms by (simp_all add: r_def v_def)
  show "0 \<le> c_spread m n z" using assms by (simp add: c_spread_def)
  have "1 + 7 * uro \<le> (1 + 7 * uro)\<^sup>2" using uro_bounds by (intro self_le_power) simp_all
  then have "r\<^sup>2 * (1 + 7 * uro) \<le> r\<^sup>2 * (1 + 7 * uro)\<^sup>2" by (intro mult_left_mono) simp_all
  moreover have "z * z / (4 * n * n) = r\<^sup>2" by (simp add: r_def power2_eq_square)
  ultimately have "v \<le> r\<^sup>2 * (1 + 7 * uro)\<^sup>2"
    using variance_clamped [OF assms(1,2), of z] unfolding v_def by simp
  then have "sqrt v \<le> r * (1 + 7 * uro)"
    using r uro_bounds by (intro real_le_lsqrt) (simp_all add: power_mult_distrib)
  then have "sqrt v * (1 + uro) \<le> r * (1 + 7 * uro) * (1 + uro)" using uro_bounds by (intro mult_right_mono) simp_all
  with fl_upper [of "sqrt v"] v have "fl (sqrt v) \<le> r * (1 + 7 * uro) * (1 + uro)" by simp
  then have "z * fl (sqrt v) * (1 + uro) \<le> z * (r * (1 + 7 * uro) * (1 + uro)) * (1 + uro)"
    using assms uro_bounds by (intro mult_right_mono mult_left_mono) simp_all
  also have "\<dots> = z * z / (2 * n) * ((1 + 7 * uro) * (1 + uro) * (1 + uro))" by (simp add: r_def)
  also have "\<dots> \<le> z * z / (2 * n) * (1 + 10 * uro)"
    using n by (intro mult_left_mono) (simp_all add: uro_def)
  finally show "c_spread m n z \<le> z * z / (2 * n) * (1 + 10 * uro)"
    unfolding c_spread_def v_def [symmetric] using fl_upper [of "z * fl (sqrt v)"] assms v by simp
qed

lemma wilson_double_excess:
  assumes "1 \<le> n" "n < m" "0 < z" "z \<le> 2"
  shows "0 \<le> wilson_double m n z" "wilson_double m n z \<le> m / n * (1 + 14 * uro)"
proof -
  define h where "h = z * z / (2 * n)"
  define C D S x where "C = c_center m n z" and "D = c_denom n z" and "S = c_spread m n z" and "x = fl (C - S)"
  have n: "0 < n" and m: "0 \<le> m" and p: "1 \<le> m / n" using assms by simp_all
  have u: "0 < uro" "uro < 1 / 1000000" by (rule uro_bounds)+
  have "z * z \<le> 2 * 2" using assms(3,4) by (intro mult_mono) simp_all
  then have "h \<le> 4 / (2 * 1)" unfolding h_def using assms(1) by (intro frac_le) simp_all
  then have h: "0 \<le> h" "h \<le> 2" using n by (simp_all add: h_def)
  have S: "0 \<le> S" "S \<le> h * (1 + 10 * uro)"
    unfolding S_def h_def using spread_clamped [OF assms(1-3)] by simp_all
  have "\<bar>C - (m / n + h)\<bar> \<le> (real 4 + 1) * uro * (m / n + h)"
    unfolding C_def h_def by (rule near_error [OF near_center [OF m n]]) simp
  then have C: "(m / n + h) * (1 - 5 * uro) \<le> C" "C \<le> (m / n + h) * (1 + 5 * uro)"
    by (simp_all add: algebra_simps abs_le_iff)
  have "(1 + h) * (1 - 5 * uro) \<le> (m / n + h) * (1 - 5 * uro)"
    using p u by (intro mult_right_mono) simp_all
  moreover have "uro * h \<le> uro * 2" using h u by (intro mult_left_mono) simp_all
  moreover have "(1 + h) * (1 - 5 * uro) = 1 + h - 5 * uro - 5 * (uro * h)"
    "h * (1 + 10 * uro) = h + 10 * (uro * h)" by (simp_all add: algebra_simps)
  ultimately have CS: "0 \<le> C - S" using C(1) S(2) u by linarith
  have d: "1 + z * z / n = 1 + 2 * h" by (simp add: h_def)
  have "\<bar>D - (1 + 2 * h)\<bar> \<le> (real 3 + 1) * uro * (1 + 2 * h)"
    unfolding D_def d [symmetric] by (rule near_error [OF near_denom [OF n]]) simp
  then have D: "(1 + 2 * h) * (1 - 4 * uro) \<le> D" by (simp add: algebra_simps abs_le_iff)
  have d_pos: "0 < (1 + 2 * h) * (1 - 4 * uro)" using h u by (intro mult_pos_pos) simp_all
  have W: "wilson_double m n z = fl (x / D)"
    by (simp add: wilson_double_parts [OF n] x_def C_def S_def D_def)
  have x: "0 \<le> x" unfolding x_def by (rule fl_nonneg [OF CS])
  then show "0 \<le> wilson_double m n z" unfolding W using D d_pos by simp
  have "x \<le> (C - S) * (1 + uro)" unfolding x_def by (rule fl_upper [OF CS])
  also have "\<dots> \<le> (m / n + h) * (1 + 5 * uro) * (1 + uro)" using C(2) S(1) u by (intro mult_right_mono) simp_all
  finally have "x / D \<le> (m / n + h) * (1 + 5 * uro) * (1 + uro) / ((1 + 2 * h) * (1 - 4 * uro))"
    using D d_pos x by (intro frac_le) simp_all
  also have "\<dots> = (m / n + h) / (1 + 2 * h) * ((1 + 5 * uro) * (1 + uro) / (1 - 4 * uro))" by simp
  also have "\<dots> \<le> m / n * (1 + 12 * uro)"
  proof (rule mult_mono)
    have "h * 1 \<le> h * (m / n)" using p h by (intro mult_left_mono) simp_all
    moreover have "q * (1 + 2 * h) = q + 2 * (h * q)" for q by (simp add: algebra_simps)
    ultimately have "m / n + h \<le> m / n * (1 + 2 * h)" using h by (simp only:)
    then show "(m / n + h) / (1 + 2 * h) \<le> m / n" using h by (simp add: pos_divide_le_eq)
    show "(1 + 5 * uro) * (1 + uro) / (1 - 4 * uro) \<le> 1 + 12 * uro" by (simp add: uro_def)
  qed (use m n u in simp_all)
  finally have "x / D * (1 + uro) \<le> m / n * (1 + 12 * uro) * (1 + uro)" using u by (intro mult_right_mono) simp_all
  also have "\<dots> = m / n * ((1 + 12 * uro) * (1 + uro))" by (simp only: mult.assoc)
  also have "\<dots> \<le> m / n * (1 + 14 * uro)" using m n by (intro mult_left_mono) (simp_all add: uro_def)
  finally show "wilson_double m n z \<le> m / n * (1 + 14 * uro)"
    unfolding W using fl_upper [of "x / D"] x D d_pos by simp
qed

lemma wilson_double_near:
  assumes "0 \<le> m" "1 \<le> n" "0 < z" "z \<le> 2" "m \<le> n"
  shows "\<bar>wilson_double m n z - wilson_lower_bound m n z\<bar> \<le> 1 / 2 ^ 47"
  using wilson_double_error [OF assms(1,5,2,3,4)] by (simp add: uro_def)

lemma wilson_double_range:
  assumes "0 \<le> m" "1 \<le> n" "0 < z" "z \<le> 2"
  shows "- 1 / 2 ^ 47 \<le> wilson_double m n z \<and> wilson_double m n z \<le> m / n + max 1 (m / n) / 2 ^ 47"
proof (cases "m \<le> n")
  case True
  have "0 \<le> wilson_lower_bound m n z" "wilson_lower_bound m n z \<le> m / n"
    using assms by (simp_all add: wilson_nonneg wilson_le_point)
  moreover have "1 / 2 ^ 47 \<le> max 1 (m / n) / 2 ^ 47" by simp
  moreover have "\<bar>wilson_double m n z - wilson_lower_bound m n z\<bar> \<le> 1 / 2 ^ 47"
    by (rule wilson_double_near [OF assms True])
  ultimately show ?thesis unfolding abs_le_iff by linarith
next
  case False
  then have less: "n < m" by simp
  have p: "1 \<le> m / n" using assms less by simp
  have "m / n * (14 * uro) \<le> m / n * (1 / 2 ^ 47)" using p by (intro mult_left_mono) (simp_all add: uro_def)
  then have "m / n * (1 + 14 * uro) \<le> m / n + max 1 (m / n) / 2 ^ 47"
    using p by (simp add: distrib_left max_absorb2)
  moreover have "- 1 / 2 ^ 47 \<le> (0 :: real)" by simp
  ultimately show ?thesis
    using wilson_double_excess [OF assms(2) less assms(3,4)] by (metis order_trans)
qed

section \<open>A site without misses\<close>

text \<open>
  The computation for \<open>m = 0\<close>, \<open>n = 30\<close> and \<open>z = 1.96\<close>, number by number: the spread rounds
  to one unit in the last place more than the center.
\<close>

lemma fl_z: "fl 1.96 = 8827055269646172 / 2 ^ 52"
  by (subst fl_eval [of 8827055269646172 _ "- 52"]) (simp_all add: power_int_minus)

lemma fl_z_squared: "fl (8827055269646172 / 2 ^ 52 * (8827055269646172 / 2 ^ 52)) = 8650514164253248 / 2 ^ 51"
  by (subst fl_eval [of 8650514164253248 _ "- 51"]) (simp_all add: power_int_minus)

lemma fl_small_numerals: "fl 60 = 60" "fl 120 = 120" "fl 3600 = 3600"
proof -
  show "fl 60 = 60" by (subst fl_eval [of "60 * 2 ^ 47" _ "- 47"]) (simp_all add: power_int_minus)
  show "fl 120 = 120" by (subst fl_eval [of "120 * 2 ^ 46" _ "- 46"]) (simp_all add: power_int_minus)
  show "fl 3600 = 3600" by (subst fl_eval [of "3600 * 2 ^ 41" _ "- 41"]) (simp_all add: power_int_minus)
qed

lemma center_without_misses: "c_center 0 30 (fl 1.96) = 4613607554268399 / 2 ^ 56"
proof -
  have "fl (8650514164253248 / 2 ^ 51 / 60) = 4613607554268399 / 2 ^ 56"
    by (subst fl_eval [of 4613607554268399 _ "- 56"]) (simp_all add: power_int_minus)
  moreover have "fl (4613607554268399 / 2 ^ 56) = 4613607554268399 / 2 ^ 56"
    by (subst fl_eval [of 4613607554268399 _ "- 56"]) (simp_all add: power_int_minus)
  moreover have "2 * 30 = (60 :: real)" by simp
  ultimately show ?thesis
    by (simp only: c_center_def fl_z fl_z_squared div_0 fl_0 add_0_left fl_small_numerals)
qed

lemma variance_without_misses: "c_variance 0 30 (fl 1.96) = 4921181391219626 / 2 ^ 62"
proof -
  have "fl (8650514164253248 / 2 ^ 51 / 3600) = 4921181391219626 / 2 ^ 62"
    by (subst fl_eval [of 4921181391219626 _ "- 62"]) (simp_all add: power_int_minus)
  moreover have "fl (4921181391219626 / 2 ^ 62) = 4921181391219626 / 2 ^ 62"
    by (subst fl_eval [of 4921181391219626 _ "- 62"]) (simp_all add: power_int_minus)
  moreover have "4 * 30 = (120 :: real)" "120 * 30 = (3600 :: real)" by simp_all
  ultimately show ?thesis
    by (simp only: c_variance_def fl_z fl_z_squared div_0 fl_0 add_0_left mult_zero_left fl_small_numerals)
qed

lemma spread_without_misses: "c_spread 0 30 (fl 1.96) = 4613607554268400 / 2 ^ 56"
proof -
  define q where "q = sqrt (4921181391219626 / 2 ^ 62)"
  have "(4707762810477959 - 49 / 100) / 2 ^ 57 \<le> q" unfolding q_def
    by (rule real_le_rsqrt) (simp add: power2_eq_square)
  moreover have "q \<le> (4707762810477959 + 49 / 100) / 2 ^ 57" unfolding q_def
    by (rule real_le_lsqrt) (simp_all add: power2_eq_square)
  ultimately have "q - of_int 4707762810477959 * 2 powi (- 57) < 2 powi (- 57) / 2"
      "- (q - of_int 4707762810477959 * 2 powi (- 57)) < 2 powi (- 57) / 2"
      "2 ^ 52 * 2 powi (- 57) \<le> q" "q < 2 ^ 53 * 2 powi (- 57)"
    by (simp_all add: power_int_minus)
  moreover from this(1,2) have "\<bar>q - of_int 4707762810477959 * 2 powi (- 57)\<bar> < 2 powi (- 57) / 2"
    unfolding abs_less_iff by (rule conjI)
  ultimately have "fl q = 4707762810477959 / 2 ^ 57"
    by (subst fl_eval [of 4707762810477959 _ "- 57"]) (simp_all add: power_int_minus)
  then have "fl (sqrt (4921181391219626 / 2 ^ 62)) = 4707762810477959 / 2 ^ 57" by (simp only: q_def)
  moreover have "fl (8827055269646172 / 2 ^ 52 * (4707762810477959 / 2 ^ 57)) = 4613607554268400 / 2 ^ 56"
    by (subst fl_eval [of 4613607554268400 _ "- 56"]) (simp_all add: power_int_minus)
  moreover have "max 0 (4921181391219626 / 2 ^ 62) = (4921181391219626 / 2 ^ 62 :: real)" by simp
  ultimately show ?thesis unfolding c_spread_def variance_without_misses by (simp only: fl_z)
qed

lemma score_without_misses_negative: "wilson_double 0 30 (fl 1.96) < 0"
proof -
  have "c_center 0 30 (fl 1.96) - c_spread 0 30 (fl 1.96) < 0"
    unfolding center_without_misses spread_without_misses by simp
  then have "fl (c_center 0 30 (fl 1.96) - c_spread 0 30 (fl 1.96)) < 0" by (rule fl_neg)
  moreover have "0 < c_denom 30 (fl 1.96)" unfolding c_denom_def by (intro fl_pos add_pos_nonneg) simp_all
  ultimately show ?thesis by (subst wilson_double_parts) (simp_all add: fl_neg divide_neg_pos)
qed

section \<open>Properties\<close>

text \<open>
  C27: The score as computed in double arithmetic, for any m, n at least 1 and z up to
  2: for a proportion it is within 2^-47 of the Wilson bound; it is at least -2^-47 and
  at most m/n, up to 2^-47 of the larger of 1 and m/n; for m above n, where the
  radicand is clamped, it is not negative. It is not bounded by 0 in general: for m =
  0, n = 30 it is negative.
\<close>

theorem computed_score_near_formula:
  assumes "0 \<le> m" "1 \<le> n" "0 < z" "z \<le> 2"
  shows "(m \<le> n \<longrightarrow> \<bar>wilson_double m n z - wilson_lower_bound m n z\<bar> \<le> 1 / 2 ^ 47) \<and>
    - 1 / 2 ^ 47 \<le> wilson_double m n z \<and>
    wilson_double m n z \<le> m / n + max 1 (m / n) / 2 ^ 47 \<and>
    (n < m \<longrightarrow> 0 \<le> wilson_double m n z) \<and>
    wilson_double 0 30 (fl 1.96) < 0"
  using wilson_double_near [OF assms] wilson_double_range [OF assms] wilson_double_excess(1) [OF assms(2) _ assms(3,4)]
    score_without_misses_negative by blast

theorem computed_score_near_formula_witness:
  "\<bar>wilson_double 0 30 1.96 - wilson_lower_bound 0 30 1.96\<bar> \<le> 1 / 2 ^ 47 \<and>
   0 \<le> wilson_double 234147 56750 1.96"
  using computed_score_near_formula [of 0 30 "1.96"] computed_score_near_formula [of 234147 56750 "1.96"] by simp

end
