(* ===== verification/Primes.thy ===== *)
theory Primes
  imports Prelude
begin

text \<open>
  The prime search of \<open>src/main.cpp\<close> (\<open>is_prime\<close>, \<open>nearest_prime\<close>), which picks the
  sample periods. All arithmetic is on \<open>uint64_t\<close>, so \<open>i * i\<close> and \<open>++hi\<close> wrap; the
  loops are \<open>partial_function (option)\<close>, with \<open>None\<close> for a loop that does not return,
  and their termination is proved.
\<close>

section \<open>The code\<close>

partial_function (option) is_prime_loop :: "u64 \<Rightarrow> u64 \<Rightarrow> bool option" where
  "is_prime_loop v i =
     (if i * i \<le> v then
        (if v mod i = 0 then Some False else is_prime_loop v (i + 2))
      else Some True)"

definition is_prime :: "u64 \<Rightarrow> bool option" where
  "is_prime v =
     (if v < 2 then Some False
      else if v mod 2 = 0 then Some (v = 2)
      else is_prime_loop v 3)"

text \<open>
  The search walks outwards from \<open>n\<close>, upwards first. It is written over the primality
  test it calls; the code's search is the one over \<open>is_prime\<close>.
\<close>

partial_function (option) nearest_loop ::
  "(u64 \<Rightarrow> bool option) \<Rightarrow> u64 \<Rightarrow> u64 \<Rightarrow> u64 option" where
  "nearest_loop test lo hi =
     Option.bind (test hi) (\<lambda>hi_prime.
       if hi_prime then Some hi
       else Option.bind (if 2 < lo then test lo else Some False) (\<lambda>lo_prime.
         if lo_prime then Some lo
         else nearest_loop test (if 2 < lo then lo - 1 else lo) (hi + 1)))"

definition nearest_prime :: "u64 \<Rightarrow> u64 option" where
  "nearest_prime n = (let n = (if n < 2 then 2 else n) in nearest_loop is_prime n n)"

section \<open>What a prime is\<close>

definition prime_nat :: "nat \<Rightarrow> bool" where
  "prime_nat n \<longleftrightarrow> 1 < n \<and> (\<forall>d\<in>{2..<n}. \<not> d dvd n)"

lemma prime_nat_gt_1: "prime_nat n \<Longrightarrow> 1 < n"
  by (simp add: prime_nat_def)

lemma not_prime_if_dvd: "d dvd n \<Longrightarrow> 2 \<le> d \<Longrightarrow> d < n \<Longrightarrow> \<not> prime_nat n"
  by (auto simp: prime_nat_def)

lemma prime_nat_3: "prime_nat 3"
  by code_simp

lemma prime_nat_even: "even n \<Longrightarrow> prime_nat n \<longleftrightarrow> n = 2"
  unfolding prime_nat_def by (cases "n \<le> 2") (auto simp: numeral_2_eq_2 le_Suc_eq)

lemma prime_by_sqrt:
  assumes "1 < n" and "n < a * a" and "\<And>d. 2 \<le> d \<Longrightarrow> d < a \<Longrightarrow> \<not> d dvd n"
  shows "prime_nat n"
proof -
  have "\<not> d dvd n" if "2 \<le> d" "d < n" for d
  proof
    assume "d dvd n"
    then obtain e where e: "n = d * e" by (auto simp: dvd_def)
    with that have "2 \<le> e" by (cases e; cases "e - 1") auto
    moreover have "a \<le> d" using assms(3) [of d] that \<open>d dvd n\<close> by fastforce
    moreover have "a \<le> e" using assms(3) [of e] \<open>2 \<le> e\<close> e by fastforce
    ultimately have "a * a \<le> n" using e mult_le_mono by blast
    with assms(2) show False by simp
  qed
  with assms(1) show ?thesis by (simp add: prime_nat_def)
qed

section \<open>The primality test\<close>

text \<open>The largest odd trial divisor whose square does not wrap is \<open>2\<^sup>3\<^sup>2 - 1\<close>.\<close>

definition trial_limit :: nat where
  "trial_limit = (2 ^ 32 - 1) * (2 ^ 32 - 1)"

lemma square_le_or_wraps:
  fixes i v :: u64
  assumes "\<not> i * i \<le> v"
  shows "unat v < unat i * unat i"
proof (cases "unat i * unat i < 2 ^ 64")
  case True
  then show ?thesis using assms by (simp add: word_le_nat_alt unat_mult_no_wrap)
next
  case False
  then show ?thesis using unat_u64_bound [of v] by linarith
qed

lemma next_divisor:
  fixes i v :: u64
  assumes "odd (unat i)" "odd (unat v)" "unat i \<le> unat v" "unat v mod unat i \<noteq> 0"
  shows "unat (i + 2) = unat i + 2" and "unat i + 2 \<le> unat v"
proof -
  have "unat i \<noteq> unat v" using assms(4) by auto
  with assms(1-3) show le: "unat i + 2 \<le> unat v" by presburger
  show "unat (i + 2) = unat i + 2"
    using le unat_u64_bound [of v] by (subst unat_add_no_wrap) simp_all
qed

lemma no_divisor_step:
  fixes n i :: nat
  assumes "\<forall>d. 2 \<le> d \<and> d < i \<longrightarrow> \<not> d dvd n" "odd i" "odd n" "n mod i \<noteq> 0"
  shows "\<forall>d. 2 \<le> d \<and> d < i + 2 \<longrightarrow> \<not> d dvd n"
proof (intro allI impI)
  fix d assume d: "2 \<le> d \<and> d < i + 2"
  then consider "d < i" | "d = i" | "d = i + 1" by linarith
  then show "\<not> d dvd n"
  proof cases
    case 1 with d assms(1) show ?thesis by blast
  next
    case 2 with assms(4) show ?thesis by (simp add: dvd_eq_mod_eq_0)
  next
    case 3 with assms(2) have "even d" by simp
    with assms(3) show ?thesis by (meson dvd_trans)
  qed
qed

text \<open>
  The loop's invariant: the divisor is odd, at most \<open>v\<close>, and nothing below it divides
  \<open>v\<close>. The distance from the divisor to \<open>v\<close> shrinks, wrapped squares or not.
\<close>

lemma is_prime_loop_returns:
  assumes "odd (unat v)" "odd (unat i)" "3 \<le> unat i" "unat i \<le> unat v"
    and "\<forall>d. 2 \<le> d \<and> d < unat i \<longrightarrow> \<not> d dvd unat v"
  shows "\<exists>b. is_prime_loop v i = Some b \<and> (b \<longrightarrow> prime_nat (unat v))"
  using assms
proof (induction "unat v - unat i" arbitrary: i rule: less_induct)
  case less
  show ?case
  proof (cases "i * i \<le> v")
    case False
    from square_le_or_wraps [OF this] less.prems have "prime_nat (unat v)"
      by (intro prime_by_sqrt [of _ "unat i"]) auto
    with False show ?thesis by (subst is_prime_loop.simps) auto
  next
    case True
    show ?thesis
    proof (cases "v mod i = 0")
      case True
      with \<open>i * i \<le> v\<close> have "is_prime_loop v i = Some False"
        by (subst is_prime_loop.simps) simp
      then show ?thesis by blast
    next
      case False
      then have nz: "unat v mod unat i \<noteq> 0" by (simp add: word_nat)
      note nd = next_divisor [OF less.prems(2,1,4) nz]
      have "\<exists>b. is_prime_loop v (i + 2) = Some b \<and> (b \<longrightarrow> prime_nat (unat v))"
        using nd less.prems no_divisor_step [OF less.prems(5,2,1) nz]
        by (intro less.hyps) simp_all
      with True False show ?thesis by (subst is_prime_loop.simps) simp
    qed
  qed
qed

lemma is_prime_loop_complete:
  assumes "odd (unat v)" "odd (unat i)" "3 \<le> unat i" "unat i \<le> unat v"
    and "unat v < trial_limit" "unat i \<le> 2 ^ 32 - 1" "prime_nat (unat v)"
  shows "is_prime_loop v i = Some True"
  using assms
proof (induction "unat v - unat i" arbitrary: i rule: less_induct)
  case less
  show ?case
  proof (cases "i * i \<le> v")
    case False
    then show ?thesis by (subst is_prime_loop.simps) simp
  next
    case True
    have nw: "unat i * unat i < 2 ^ 64"
      using mult_le_mono [OF less.prems(6,6)] by simp
    with True have sq: "unat i * unat i \<le> unat v" by (simp add: word_nat unat_mult_no_wrap)
    moreover have "3 * unat i \<le> unat i * unat i" using less.prems(3) by simp
    ultimately have "unat i < unat v" using less.prems(3) by linarith
    then have nz: "unat v mod unat i \<noteq> 0"
      using not_prime_if_dvd [of "unat i" "unat v"] less.prems(3,7)
      by (auto simp: dvd_eq_mod_eq_0)
    note nd = next_divisor [OF less.prems(2,1,4) nz]
    have "unat i \<noteq> 2 ^ 32 - 1" using sq less.prems(5) by (auto simp: trial_limit_def)
    with less.prems(6) have "unat i < 4294967295" by simp
    with less.prems(2) have "unat i + 2 \<le> 4294967295" by presburger
    then have "unat i + 2 \<le> 2 ^ 32 - 1" by simp
    with nd less.prems have "is_prime_loop v (i + 2) = Some True"
      by (intro less.hyps) simp_all
    moreover from nz have "v mod i \<noteq> 0" by (auto simp: word_nat)
    ultimately show ?thesis using True by (subst is_prime_loop.simps) simp
  qed
qed

lemma mod_2_unat: "(v :: u64) mod 2 = 0 \<longleftrightarrow> even (unat v)"
  by (simp add: word_unat_eq_iff unat_mod even_iff_mod_2_eq_zero)

lemma is_prime_loop_start:
  fixes v :: u64
  assumes "\<not> v < 2" "v mod 2 \<noteq> 0"
  shows "odd (unat v)" "3 \<le> unat v" "\<forall>d. 2 \<le> d \<and> d < (3::nat) \<longrightarrow> \<not> d dvd unat v"
proof -
  from assms(2) show o: "odd (unat v)" using mod_2_unat by blast
  moreover from assms(1) have "2 \<le> unat v" by (simp add: word_nat)
  ultimately show "3 \<le> unat v" by presburger
  show "\<forall>d. 2 \<le> d \<and> d < (3::nat) \<longrightarrow> \<not> d dvd unat v"
  proof (intro allI impI)
    fix d :: nat assume "2 \<le> d \<and> d < 3"
    then have "d = 2" by simp
    with o show "\<not> d dvd unat v" by simp
  qed
qed

text \<open>For every 64-bit input the test returns, and \<open>true\<close> is never wrong.\<close>

lemma is_prime_returns:
  "\<exists>b. is_prime v = Some b \<and> (b \<longrightarrow> prime_nat (unat v))"
proof (cases "v < 2 \<or> v mod 2 = 0")
  case True
  then have "is_prime v = Some (\<not> v < 2 \<and> v = 2)"
    by (cases "v < 2") (simp_all only: is_prime_def if_True if_False simp_thms)
  moreover have "prime_nat (unat (2::u64))" by code_simp
  ultimately show ?thesis by blast
next
  case False
  from False have ge: "\<not> v < 2" by blast
  from False have od: "v mod 2 \<noteq> 0" by (simp only: de_Morgan_disj simp_thms)
  from ge od have "is_prime v = is_prime_loop v 3" by (simp only: is_prime_def if_False)
  with is_prime_loop_start [OF ge od] is_prime_loop_returns [of v 3] show ?thesis by simp
qed

lemma is_prime_complete:
  assumes "unat v < trial_limit" "prime_nat (unat v)"
  shows "is_prime v = Some True"
proof (cases "v mod 2 = 0")
  case True
  then have "even (unat v)" by (simp only: mod_2_unat)
  with prime_nat_even assms(2) have "v = 2" by (simp add: word_nat)
  then show ?thesis by (simp add: is_prime_def)
next
  case False
  from prime_nat_gt_1 [OF assms(2)] have nf: "\<not> v < 2" by (simp add: word_nat)
  with False have "is_prime v = is_prime_loop v 3" by (simp only: is_prime_def if_False)
  with is_prime_loop_start [OF nf False] is_prime_loop_complete [of v 3] assms show ?thesis
    by (simp add: trial_limit_def)
qed

lemma is_prime_decides:
  assumes "unat v < trial_limit"
  shows "is_prime v = Some (prime_nat (unat v))"
  using is_prime_returns [of v] is_prime_complete [of v] assms by auto

section \<open>The outward search\<close>

text \<open>
  The contract of the search: no prime is closer to \<open>n\<close>, and of two equally close ones
  the larger is returned.
\<close>

definition nearest_prime_to :: "nat \<Rightarrow> nat \<Rightarrow> bool" where
  "nearest_prime_to n p \<longleftrightarrow> prime_nat p \<and>
     (\<forall>q. prime_nat q \<longrightarrow> \<bar>int p - int n\<bar> < \<bar>int q - int n\<bar> \<or>
                       \<bar>int p - int n\<bar> = \<bar>int q - int n\<bar> \<and> q \<le> p)"

lemma nearest_above:
  assumes "prime_nat (n + k)" "k \<le> n" "\<forall>q. n - k < q \<and> q < n + k \<longrightarrow> \<not> prime_nat q"
  shows "nearest_prime_to n (n + k)"
proof -
  have "int k < \<bar>int q - int n\<bar> \<or> int k = \<bar>int q - int n\<bar> \<and> q \<le> n + k" if "prime_nat q" for q
  proof -
    from assms(3) that have "q \<le> n - k \<or> n + k \<le> q" by (meson not_le)
    with assms(2) show ?thesis by linarith
  qed
  with assms(1) show ?thesis by (simp add: nearest_prime_to_def)
qed

lemma nearest_below:
  assumes "prime_nat (n - k)" "k \<le> n" "\<forall>q. n - k < q \<and> q \<le> n + k \<longrightarrow> \<not> prime_nat q"
  shows "nearest_prime_to n (n - k)"
proof -
  have "int k < \<bar>int q - int n\<bar> \<or> int k = \<bar>int q - int n\<bar> \<and> q \<le> n - k" if "prime_nat q" for q
  proof -
    from assms(3) that have "q \<le> n - k \<or> n + k < q" by (meson not_le)
    with assms(2) show ?thesis by linarith
  qed
  with assms(1,2) show ?thesis by (simp add: nearest_prime_to_def of_nat_diff)
qed

text \<open>
  What the search needs of the test it calls: it decides primality below some limit.
\<close>

locale primality_test =
  fixes test :: "u64 \<Rightarrow> bool option" and limit :: nat
  assumes decides: "unat v < limit \<Longrightarrow> test v = Some (prime_nat (unat v))"
    and limit_bound: "limit \<le> 2 ^ 64"
begin

text \<open>
  Both ends are \<open>k\<close> away from \<open>n\<close> and no prime lies strictly between them. The lower
  end stays above 2, where it meets the prime 3 at the latest: that bounds the search.
\<close>

lemma nearest_loop_finds:
  assumes "3 \<le> n" "2 * n < limit" "k + 3 \<le> n" "unat lo = n - k" "unat hi = n + k"
    and "\<forall>q. n - k < q \<and> q < n + k \<longrightarrow> \<not> prime_nat q"
  shows "\<exists>p. nearest_loop test lo hi = Some p \<and> nearest_prime_to n (unat p)"
  using assms(3-)
proof (induction "n - k" arbitrary: k lo hi rule: less_induct)
  case less
  have th: "test hi = Some (prime_nat (n + k))" and tl: "test lo = Some (prime_nat (n - k))"
    using less.prems assms(1,2) by (simp_all add: decides)
  have lo2: "2 < lo" using less.prems by (simp add: word_nat)
  consider "prime_nat (n + k)" | "\<not> prime_nat (n + k)" "prime_nat (n - k)"
    | "\<not> prime_nat (n + k)" "\<not> prime_nat (n - k)" by blast
  then show ?case
  proof cases
    case 1
    then have "nearest_loop test lo hi = Some hi" using th by (subst nearest_loop.simps) simp
    with 1 less.prems nearest_above [of n k] show ?thesis by simp
  next
    case 2
    then have "nearest_loop test lo hi = Some lo"
      using th tl lo2 by (subst nearest_loop.simps) simp
    moreover have "\<forall>q. n - k < q \<and> q \<le> n + k \<longrightarrow> \<not> prime_nat q"
      using less.prems(4) 2(1) by (auto simp: le_less)
    ultimately show ?thesis using 2 less.prems nearest_below [of n k] by simp
  next
    case 3
    then have step: "nearest_loop test lo hi = nearest_loop test (lo - 1) (hi + 1)"
      using th tl lo2 by (subst nearest_loop.simps) simp
    have "n - k \<noteq> 3" using 3(2) prime_nat_3 by metis
    with less.prems(1) have k: "Suc k + 3 \<le> n" by linarith
    have "unat (lo - 1) = n - Suc k" using less.prems k by (simp add: unat_diff_le)
    moreover have "unat (hi + 1) = n + Suc k"
      using less.prems assms(2) limit_bound k by (subst unat_add_no_wrap) simp_all
    moreover have "\<forall>q. n - Suc k < q \<and> q < n + Suc k \<longrightarrow> \<not> prime_nat q"
    proof (intro allI impI)
      fix q assume "n - Suc k < q \<and> q < n + Suc k"
      then have "q = n - k \<or> q = n + k \<or> n - k < q \<and> q < n + k" by linarith
      with 3 less.prems(4) show "\<not> prime_nat q" by blast
    qed
    ultimately show ?thesis using less.hyps [of "Suc k" "lo - 1" "hi + 1"] k step by simp
  qed
qed

lemma nearest_loop_from:
  assumes "2 \<le> unat n" "2 * unat n < limit"
  shows "\<exists>p. nearest_loop test n n = Some p \<and> nearest_prime_to (unat n) (unat p)"
proof (cases "unat n = 2")
  case True
  then have p2: "prime_nat (unat n)" by (simp add: prime_nat_even)
  then have "nearest_loop test n n = Some n"
    using assms decides by (subst nearest_loop.simps) simp
  with p2 nearest_above [of "unat n" 0] show ?thesis by force
next
  case False
  have "\<forall>q. unat n - 0 < q \<and> q < unat n + 0 \<longrightarrow> \<not> prime_nat q" by auto
  with False assms nearest_loop_finds [of "unat n" 0 n n] show ?thesis by simp
qed

end

interpretation trial: primality_test is_prime trial_limit
  by unfold_locales (auto simp: is_prime_decides trial_limit_def)

lemma nearest_prime_finds:
  assumes "2 * max 2 (unat n) < trial_limit"
  shows "\<exists>p. nearest_prime n = Some p \<and> nearest_prime_to (max 2 (unat n)) (unat p)"
proof -
  let ?m = "if n < 2 then 2 else n"
  have "unat ?m = max 2 (unat n)" by (simp add: word_nat)
  with assms trial.nearest_loop_from [of ?m] show ?thesis
    by (simp add: nearest_prime_def Let_def)
qed

text \<open>
  Beyond that range, where the test may miss a prime and the search may wrap around, it
  still ends: at \<open>2\<close> if nowhere else, and only at a prime.
\<close>

lemma is_prime_2: "is_prime 2 = Some True"
  by (simp add: is_prime_def)

lemma unat_minus_1_less: "(x :: u64) \<noteq> 0 \<Longrightarrow> unat (x - 1) < unat x"
  by (simp add: unat_minus_one unat_gt_0 word_neq_0_conv)

lemma nearest_loop_returns: "\<exists>p. nearest_loop is_prime lo hi = Some p \<and> prime_nat (unat p)"
proof (induction "unat (2 - hi)" arbitrary: lo hi rule: less_induct)
  case less
  obtain a where a: "is_prime hi = Some a" "a \<longrightarrow> prime_nat (unat hi)" using is_prime_returns by blast
  obtain b where b: "is_prime lo = Some b" "b \<longrightarrow> prime_nat (unat lo)" using is_prime_returns by blast
  show ?case
  proof (cases "a \<or> 2 < lo \<and> b")
    case True
    with a b show ?thesis by (subst nearest_loop.simps) auto
  next
    case False
    then have "2 - hi \<noteq> 0" using a is_prime_2 by auto
    then have "unat (2 - (hi + 1)) < unat (2 - hi)"
      using unat_minus_1_less [of "2 - hi"] by (simp add: algebra_simps)
    from less [OF this, of "if 2 < lo then lo - 1 else lo"] a b False show ?thesis
      by (subst nearest_loop.simps) auto
  qed
qed

lemma nearest_prime_returns: "\<exists>p. nearest_prime n = Some p \<and> prime_nat (unat p)"
  by (simp add: nearest_prime_def Let_def nearest_loop_returns)

section \<open>What the period search may rely on\<close>

text \<open>
  C21: Below (2^32 - 1)^2, where the square of the trial divisor cannot wrap unnoticed,
  is_prime returns and decides primality.
\<close>

theorem is_prime_correct:
  assumes "unat v < trial_limit"
  shows "is_prime v = Some (prime_nat (unat v))"
  by (rule is_prime_decides [OF assms])

theorem is_prime_correct_witness:
  "is_prime 91 = Some (prime_nat 91) \<and> \<not> prime_nat 91"
proof -
  have "is_prime 91 = Some (prime_nat 91)"
    using is_prime_correct [of 91] by (simp add: trial_limit_def)
  moreover have "\<not> prime_nat 91" by (rule not_prime_if_dvd [of 7]) simp_all
  ultimately show ?thesis ..
qed

text \<open>
  C22: On every 64-bit input, wrapped squares included, the trial division returns, and
  an answer of true is never wrong.
\<close>

theorem is_prime_returns_and_is_sound:
  "\<exists>b. is_prime v = Some b \<and> (b \<longrightarrow> prime_nat (unat v))"
  by (rule is_prime_returns)

theorem is_prime_returns_and_is_sound_witness:
  "\<exists>b. is_prime 18446744030759878681 = Some b \<and> (b \<longrightarrow> prime_nat 18446744030759878681)"
  using is_prime_returns_and_is_sound [of 18446744030759878681] by simp

text \<open>
  C20: For every request up to about 2^63, nearest_prime returns; the result is a
  prime, no prime is closer to the (clamped) request, and of two equally close primes
  the larger one is chosen.
\<close>

theorem nearest_prime_is_nearest:
  assumes "2 * max 2 (unat n) < trial_limit"
  shows "\<exists>p. nearest_prime n = Some p \<and> nearest_prime_to (max 2 (unat n)) (unat p)"
  by (rule nearest_prime_finds [OF assms])

theorem nearest_prime_is_nearest_witness:
  "\<exists>p. nearest_prime 4 = Some p \<and> nearest_prime_to 4 (unat p)"
  using nearest_prime_is_nearest [of 4] by (simp add: trial_limit_def)

end
