(* ===== verification/Ranking.thy ===== *)
theory Ranking
  imports Std_Lib Wilson_Double
begin

text \<open>
  The concentration ranking at the end of \<open>main\<close> in \<open>src/main.cpp\<close>: the union of the
  sites of both events, the support gate, the period-scaled Wilson score, the ranking by it
  and the raw miss-count ranking printed for comparison. Counts are 64-bit words; the scores
  are computed in double arithmetic, every operation rounded (\<open>fl\<close>). \<open>to_double\<close> is the exact
  value of a count, for the fractions and percentages of the other theories.
\<close>

section \<open>The code\<close>

definition kMinAccessSamples :: u64 where "kMinAccessSamples = 30"

definition kZ95 :: real where "kZ95 = fl 1.96"

definition to_double :: "u64 \<Rightarrow> real" where "to_double w = real (unat w)"

record ranked =
  r_site :: site
  r_m :: u64
  r_n :: u64
  concentration :: real
  wilson_concentration :: real

definition period_scale :: "u64 \<Rightarrow> u64 \<Rightarrow> real" where
  "period_scale period_miss period_access = fl (double_of period_miss / double_of period_access)"

definition all_sites :: "(site, u64) std_map \<Rightarrow> (site, u64) std_map \<Rightarrow> site list" where
  "all_sites miss_counts access_counts =
     remdups_adj (sort_by (<) (map fst miss_counts @ map fst access_counts))"

definition score_site :: "real \<Rightarrow> site \<Rightarrow> u64 \<Rightarrow> u64 \<Rightarrow> ranked" where
  "score_site scale site m n =
     \<lparr>r_site = site, r_m = m, r_n = n,
      concentration = fl (fl (double_of m / double_of n) * scale),
      wilson_concentration = fl (wilson_double (double_of m) (double_of n) kZ95 * scale)\<rparr>"

text \<open>The loop over the sites, with the two vectors it fills.\<close>

fun rank_loop ::
  "real \<Rightarrow> (site, u64) std_map \<Rightarrow> (site, u64) std_map \<Rightarrow> site list \<Rightarrow>
   ranked list \<times> site list \<Rightarrow> ranked list \<times> site list" where
  "rank_loop scale miss_counts access_counts [] acc = acc"
| "rank_loop scale miss_counts access_counts (site # sites) (ranked, insufficient) =
     (let m = smap_count miss_counts site; n = smap_count access_counts site in
      if n < kMinAccessSamples
      then rank_loop scale miss_counts access_counts sites (ranked, insufficient @ [site])
      else rank_loop scale miss_counts access_counts sites
             (ranked @ [score_site scale site m n], insufficient))"

definition concentration_ranking ::
  "u64 \<Rightarrow> u64 \<Rightarrow> (site, u64) std_map \<Rightarrow> (site, u64) std_map \<Rightarrow> ranked list \<times> site list" where
  "concentration_ranking period_miss period_access miss_counts access_counts =
     (let (ranked, insufficient) =
        rank_loop (period_scale period_miss period_access) miss_counts access_counts
          (all_sites miss_counts access_counts) ([], [])
      in (sort_by (\<lambda>a b. wilson_concentration b < wilson_concentration a) ranked, insufficient))"

definition raw_ranking :: "(site, u64) std_map \<Rightarrow> (site \<times> u64) list" where
  "raw_ranking miss_counts = sort_by (\<lambda>a b. snd b < snd a) miss_counts"

lemma to_double_nonneg [simp]: "0 \<le> to_double w"
  unfolding to_double_def by (rule of_nat_0_le_iff)

lemma to_double_30 [simp]: "30 \<le> to_double w \<longleftrightarrow> 30 \<le> unat w"
  unfolding to_double_def by (rule numeral_le_real_of_nat_iff)

section \<open>The loop as a split of the sites\<close>

definition supported :: "(site, u64) std_map \<Rightarrow> site \<Rightarrow> bool" where
  "supported access_counts site \<longleftrightarrow> \<not> smap_count access_counts site < kMinAccessSamples"

lemma rank_loop_split:
  "rank_loop scale miss access sites (ranked, insufficient) =
     (ranked @ map (\<lambda>s. score_site scale s (smap_count miss s) (smap_count access s))
                 (filter (supported access) sites),
      insufficient @ filter (\<lambda>s. \<not> supported access s) sites)"
  by (induction scale miss access sites "(ranked, insufficient)"
      arbitrary: ranked insufficient rule: rank_loop.induct)
    (simp_all add: Let_def supported_def)

lemma all_sites_set: "set (all_sites miss access) = fst ` set miss \<union> fst ` set access"
  by (auto simp: all_sites_def ksort.srt_unique)

lemma all_sites_sorted: "sorted_wrt (<) (all_sites miss access)"
  by (simp add: all_sites_def ksort.srt_unique strict_sorted_iff)

text \<open>The result: the scored sites, sorted, and the sites the gate excludes.\<close>

lemma concentration_ranking_split:
  fixes pm pa miss access
  defines "scored \<equiv> map (\<lambda>s. score_site (period_scale pm pa) s (smap_count miss s) (smap_count access s))
      (filter (supported access) (all_sites miss access))"
  shows "concentration_ranking pm pa miss access =
    (sort_by (\<lambda>a b. wilson_concentration b < wilson_concentration a) scored,
     filter (\<lambda>s. \<not> supported access s) (all_sites miss access))"
  by (simp add: concentration_ranking_def rank_loop_split scored_def)

section \<open>The scores in double arithmetic\<close>

text \<open>The exact ratio of the counts of an entry, and the exact scale.\<close>

definition exact_ratio :: "ranked \<Rightarrow> real" where
  "exact_ratio r = to_double (r_m r) / to_double (r_n r)"

definition exact_scale :: "u64 \<Rightarrow> u64 \<Rightarrow> real" where
  "exact_scale period_miss period_access = to_double period_miss / to_double period_access"

lemma kZ95_range: "0 < kZ95" "kZ95 \<le> 2"
proof -
  show "0 < kZ95" by (simp add: kZ95_def fl_pos)
  have "\<bar>kZ95 - 49 / 25\<bar> \<le> uro * (49 / 25)" using fl_error [of "49 / 25"] by (simp add: kZ95_def)
  then show "kZ95 \<le> 2" using uro_bounds unfolding abs_le_iff by linarith
qed

lemma to_double_eq_0 [simp]: "0 < to_double w \<longleftrightarrow> w \<noteq> 0"
  unfolding to_double_def of_nat_0_less_iff by (rule unat_gt_0)

lemma near_double_of: "near 1 (double_of w) (to_double w)"
  using near_fl [OF near_refl [OF to_double_nonneg [of w]]]
  by (simp add: double_of_def to_double_def)

lemma near_period_scale: "pa \<noteq> 0 \<Longrightarrow> near 3 (period_scale pm pa) (exact_scale pm pa)"
  unfolding period_scale_def exact_scale_def
  by (rule near_mono [OF near_fl [OF near_divide [OF near_double_of near_double_of]]])
    simp_all

lemma near_concentration:
  assumes "pa \<noteq> 0" "n \<noteq> 0"
  shows "near 7 (concentration (score_site (period_scale pm pa) s m n)) (to_double m / to_double n * exact_scale pm pa)"
proof -
  have ratio: "near 3 (fl (double_of m / double_of n)) (to_double m / to_double n)"
    by (rule near_mono [OF near_fl [OF near_divide [OF near_double_of near_double_of]]])
      (use assms in simp_all)
  show ?thesis unfolding score_site_def ranked.simps
    by (rule near_mono [OF near_fl [OF near_mult [OF ratio near_period_scale [OF assms(1)]]]]) simp
qed

text \<open>A scaled score: four more roundings, relative to the score.\<close>

lemma scaled_score:
  assumes "pa \<noteq> 0"
  shows "\<bar>fl (w * period_scale pm pa) - w * exact_scale pm pa\<bar> \<le> 6 * uro * \<bar>w\<bar> * exact_scale pm pa"
proof -
  let ?S = "exact_scale pm pa" and ?s = "period_scale pm pa"
  have u: "0 < uro" "uro < 1 / 1000000" by (rule uro_bounds)+
  have S: "0 \<le> ?S" by (simp add: exact_scale_def)
  have "\<bar>?s - ?S\<bar> \<le> (real 3 + 1) * uro * ?S" by (rule near_error [OF near_period_scale [OF assms]]) simp
  then have s: "\<bar>?s - ?S\<bar> \<le> 4 * uro * ?S" by simp
  have "\<bar>w * ?s - w * ?S\<bar> = \<bar>w\<bar> * \<bar>?s - ?S\<bar>" by (simp add: abs_mult right_diff_distrib [symmetric])
  also have "\<dots> \<le> \<bar>w\<bar> * (4 * uro * ?S)" using s by (intro mult_left_mono) simp_all
  finally have ws: "\<bar>w * ?s - w * ?S\<bar> \<le> 4 * uro * (\<bar>w\<bar> * ?S)" by (simp add: mult_ac)
  have wS: "\<bar>w * ?S\<bar> = \<bar>w\<bar> * ?S" using S by (simp add: abs_mult)
  have "4 * uro * (\<bar>w\<bar> * ?S) \<le> 1 * (\<bar>w\<bar> * ?S)" using u S by (intro mult_right_mono) simp_all
  then have "\<bar>w * ?s\<bar> \<le> 2 * (\<bar>w\<bar> * ?S)" using ws wS by linarith
  then have "uro * \<bar>w * ?s\<bar> \<le> uro * (2 * (\<bar>w\<bar> * ?S))" using u by (intro mult_left_mono) simp_all
  then have "\<bar>fl (w * ?s) - w * ?s\<bar> \<le> 2 * uro * (\<bar>w\<bar> * ?S)" using fl_error [of "w * ?s"] by simp
  with ws have "\<bar>fl (w * ?s) - w * ?S\<bar> \<le> 6 * uro * (\<bar>w\<bar> * ?S)" by linarith
  then show ?thesis by (simp add: mult_ac)
qed

lemma supported_count: "supported access s \<Longrightarrow> 30 \<le> to_double (smap_count access s)"
  by (simp add: supported_def kMinAccessSamples_def word_less_nat_alt)

lemma double_of_ge_1:
  assumes "w \<noteq> 0"
  shows "1 \<le> double_of w"
  unfolding double_of_def by (rule fl_ge_1) (use assms unat_gt_0 [of w] in linarith)

text \<open>Counts below \<open>2 ^ 53\<close> are exact.\<close>

lemma double_of_exact: "unat w < 2 ^ 53 \<Longrightarrow> double_of w = to_double w"
  unfolding double_of_def to_double_def by (rule fl_nat)

lemma score_range:
  fixes m n pm pa
  assumes "pa \<noteq> 0" "n \<noteq> 0"
  defines "W \<equiv> wilson_double (double_of m) (double_of n) kZ95"
    and "Q \<equiv> to_double m / to_double n" and "S \<equiv> exact_scale pm pa"
  shows "- S / 2 ^ 46 \<le> fl (W * period_scale pm pa)"
    and "fl (W * period_scale pm pa) \<le> S * (Q + max 1 Q / 2 ^ 45)"
proof -
  define q where "q = double_of m / double_of n"
  define M where "M = max 1 Q"
  have u: "0 < uro" "uro < 1 / 1000000" by (rule uro_bounds)+
  have S: "0 \<le> S" and Q: "0 \<le> Q" and M: "1 \<le> M" "Q \<le> M" by (simp_all add: S_def Q_def M_def exact_scale_def)
  have "near 2 q Q" unfolding q_def Q_def
    by (rule near_mono [OF near_divide [OF near_double_of near_double_of]]) (use assms in simp_all)
  then have "\<bar>q - Q\<bar> \<le> (real 2 + 1) * uro * Q" by (rule near_error) simp
  moreover have "uro * Q \<le> uro * M" using M u by (intro mult_left_mono) simp_all
  ultimately have q: "q \<le> Q + 3 * (uro * M)" by (simp add: abs_le_iff)
  have uM: "0 < uro * M" "uro * M \<le> M / 1000000" using u M mult_right_mono [of uro "1 / 1000000" M] by simp_all
  have W: "- (64 * uro) \<le> W \<and> W \<le> q + 64 * uro * max 1 q"
    using wilson_double_range [of "double_of m" "double_of n" kZ95] kZ95_range double_of_ge_1 [OF assms(2)]
    by (simp add: W_def q_def uro_def)
  have "max 1 q \<le> M + 3 * (uro * M)" using q M uM by linarith
  then have "64 * uro * max 1 q \<le> 64 * uro * (2 * M)" using uM M u by (intro mult_left_mono) linarith+
  then have W_le: "W \<le> Q + 131 * (uro * M)" using W q by linarith
  have W_abs: "\<bar>W\<bar> \<le> 2 * M"
  proof (rule abs_leI)
    show "W \<le> 2 * M" using W_le M uM by linarith
    show "- W \<le> 2 * M" using W M u by linarith
  qed
  have e: "\<bar>fl (W * period_scale pm pa) - W * S\<bar> \<le> 6 * uro * \<bar>W\<bar> * S"
    unfolding S_def by (rule scaled_score [OF assms(1)])
  have "6 * uro * \<bar>W\<bar> * S \<le> 6 * uro * (2 * M) * S" using W_abs u S by (intro mult_right_mono mult_left_mono) simp_all
  then have "fl (W * period_scale pm pa) \<le> W * S + 12 * (uro * M) * S" using e unfolding abs_le_iff by (simp add: mult_ac)
  also have "W * S \<le> (Q + 131 * (uro * M)) * S" using W_le S by (rule mult_right_mono)
  finally have "fl (W * period_scale pm pa) \<le> S * (Q + 143 * (uro * M))" by (simp add: algebra_simps)
  moreover have "143 * (uro * M) \<le> max 1 Q / 2 ^ 45" using M by (simp add: uro_def M_def)
  ultimately show "fl (W * period_scale pm pa) \<le> S * (Q + max 1 Q / 2 ^ 45)"
    using S by (smt (verit) mult_left_mono)
  show "- S / 2 ^ 46 \<le> fl (W * period_scale pm pa)"
  proof (cases "0 \<le> W")
    case True
    then have "0 \<le> fl (W * period_scale pm pa)" by (simp add: period_scale_def)
    moreover have "- S / 2 ^ 46 \<le> 0" using S by simp
    ultimately show ?thesis by linarith
  next
    case False
    have "6 * uro * \<bar>W\<bar> * S \<le> 6 * uro * (64 * uro) * S"
      using False W u S by (intro mult_right_mono mult_left_mono) simp_all
    moreover have "- (64 * uro) * S \<le> W * S" using W S by (intro mult_right_mono) simp_all
    moreover have "(64 * uro + 6 * uro * (64 * uro)) * S \<le> 1 / 2 ^ 46 * S"
      using S by (intro mult_right_mono) (simp_all add: uro_def)
    moreover have "- S / 2 ^ 46 = - (1 / 2 ^ 46 * S)" by simp
    moreover note abs_le_D2 [OF e]
    ultimately show ?thesis by (smt (verit) distrib_right)
  qed
qed

text \<open>A proportion of exact counts: the score is the Wilson bound, scaled.\<close>

lemma score_error:
  fixes m n pm pa
  assumes "pa \<noteq> 0" "n \<noteq> 0" "m \<le> n" "unat n < 2 ^ 53"
  defines "w \<equiv> wilson_lower_bound (to_double m) (to_double n) kZ95" and "S \<equiv> exact_scale pm pa"
  shows "\<bar>fl (wilson_double (double_of m) (double_of n) kZ95 * period_scale pm pa) - w * S\<bar> \<le> S / 2 ^ 46"
proof -
  let ?W = "wilson_double (double_of m) (double_of n) kZ95"
  have u: "0 < uro" "uro < 1 / 1000000" by (rule uro_bounds)+
  have S: "0 \<le> S" by (simp add: S_def exact_scale_def)
  have le: "unat m \<le> unat n" using assms(3) by (simp add: word_le_nat_alt)
  then have mn: "to_double m \<le> to_double n" unfolding to_double_def by (simp only: of_nat_le_iff)
  have exact: "double_of m = to_double m" "double_of n = to_double n"
    using le assms(4) by (simp_all add: double_of_exact)
  have n: "1 \<le> to_double n" using double_of_ge_1 [OF assms(2)] exact by simp
  have "\<bar>?W - w\<bar> \<le> 1 / 2 ^ 47"
    unfolding exact w_def by (rule wilson_double_near) (use n mn kZ95_range in simp_all)
  then have W: "\<bar>?W - w\<bar> \<le> 64 * uro" by (simp add: uro_def)
  have "0 \<le> w" "w \<le> to_double m / to_double n"
    unfolding w_def using n kZ95_range assms(2)
      wilson_nonneg [of "to_double m" "to_double n" kZ95] wilson_le_point [of "to_double m" "to_double n" kZ95] by simp_all
  moreover have "to_double m / to_double n \<le> 1" using mn n by (subst divide_le_eq_1_pos) linarith+
  ultimately have "\<bar>?W\<bar> \<le> 2" using W u by linarith
  then have "6 * uro * \<bar>?W\<bar> * S \<le> 6 * uro * 2 * S" using u S by (intro mult_right_mono mult_left_mono) simp_all
  then have "\<bar>fl (?W * period_scale pm pa) - ?W * S\<bar> \<le> 12 * uro * S"
    using scaled_score [OF assms(1), of ?W pm] unfolding S_def by linarith
  moreover have "\<bar>?W * S - w * S\<bar> \<le> 64 * uro * S"
    using W S by (simp add: abs_mult left_diff_distrib [symmetric] mult_right_mono)
  moreover have "12 * uro * S + 64 * uro * S \<le> S / 2 ^ 46" using S by (simp add: uro_def)
  ultimately show ?thesis by linarith
qed

text \<open>The counts of a published run on \<open>matrix_bad\<close> (\<open>results/gate5_concentration.txt\<close>).\<close>

definition gate5_miss :: "(site, u64) std_map" where
  "gate5_miss = [(Site ''matrix_bad.cpp'' 41, 83), (Site ''matrix_bad.cpp'' 42, 79),
     (Site ''matrix_bad.cpp'' 43, 331412), (Site ''matrix_bad.cpp'' 44, 234147)]"

definition gate5_access :: "(site, u64) std_map" where
  "gate5_access = [(Site ''matrix_bad.cpp'' 30, 22), (Site ''matrix_bad.cpp'' 31, 17),
     (Site ''matrix_bad.cpp'' 41, 71), (Site ''matrix_bad.cpp'' 42, 77),
     (Site ''matrix_bad.cpp'' 43, 492522), (Site ''matrix_bad.cpp'' 44, 56750)]"

section \<open>Properties\<close>

text \<open>
  C19: Every site that either event attributed a sample to is reported exactly once: in
  the ranking, or, exactly when it has fewer than 30 access samples, in the sorted list
  of insufficient sites.
\<close>

theorem ranking_partitions_sites:
  "let (ranked, insufficient) = concentration_ranking pm pa miss access in
    mset (map r_site ranked @ insufficient) = mset (all_sites miss access) \<and>
    set (all_sites miss access) = fst ` set miss \<union> fst ` set access \<and>
    distinct (map r_site ranked @ insufficient) \<and>
    sorted_wrt (<) insufficient \<and>
    (\<forall>s. s \<in> set insufficient \<longleftrightarrow>
       s \<in> fst ` set miss \<union> fst ` set access \<and> unat (smap_count access s) < 30)"
proof -
  let ?sites = "all_sites miss access"
  let ?ins = "filter (\<lambda>s. \<not> supported access s) ?sites"
  obtain ranked where r: "concentration_ranking pm pa miss access = (ranked, ?ins)"
      and m: "mset (map r_site ranked) = mset (filter (supported access) ?sites)"
  proof
    let ?scored = "map (\<lambda>s. score_site (period_scale pm pa) s (smap_count miss s) (smap_count access s))
      (filter (supported access) ?sites)"
    show "concentration_ranking pm pa miss access =
      (sort_by (\<lambda>a b. wilson_concentration b < wilson_concentration a) ?scored, ?ins)"
      by (rule concentration_ranking_split)
    show "mset (map r_site (sort_by (\<lambda>a b. wilson_concentration b < wilson_concentration a) ?scored))
        = mset (filter (supported access) ?sites)"
      by (simp add: isort.srt_perm score_site_def multiset.map_comp comp_def)
  qed
  have ms: "mset (map r_site ranked @ ?ins) = mset ?sites" 
  proof -
    from m have "image_mset r_site (mset ranked) = filter_mset (supported access) (mset ?sites)" by simp
    then show ?thesis
      using multiset_partition [of "mset ?sites" "supported access"] by simp
  qed
  have "distinct ?sites" using all_sites_sorted [of miss access] strict_sorted_iff by blast
  then have "distinct (map r_site ranked @ ?ins)" using ms mset_eq_imp_distinct_iff by blast
  moreover have "sorted_wrt (<) ?ins" by (simp add: all_sites_sorted sorted_wrt_filter)
  moreover have "s \<in> set ?ins \<longleftrightarrow>
      s \<in> fst ` set miss \<union> fst ` set access \<and> unat (smap_count access s) < 30" for s
    by (auto simp: all_sites_set supported_def kMinAccessSamples_def word_less_nat_alt)
  ultimately show ?thesis using ms all_sites_set [of miss access] unfolding r by simp
qed

text \<open>
  What the scores of an entry of the ranking mean: the point concentration is (m *
  period_miss) / (n * period_access) up to 2^-49 of it; the score lies between 0 and that
  concentration, and is the Wilson bound times the scale for a proportion, up to 2^-45 of the
  scale, or of the concentration if that is larger.
\<close>

definition scores_of_counts :: "u64 \<Rightarrow> u64 \<Rightarrow> ranked \<Rightarrow> bool" where
  "scores_of_counts pm pa r \<longleftrightarrow>
     (let ratio = exact_ratio r; scale = exact_scale pm pa in
      \<bar>concentration r - ratio * scale\<bar> \<le> ratio * scale / 2 ^ 49 \<and>
      - scale / 2 ^ 46 \<le> wilson_concentration r \<and>
      wilson_concentration r \<le> scale * (ratio + max 1 ratio / 2 ^ 45) \<and>
      (r_m r \<le> r_n r \<longrightarrow> unat (r_n r) < 2 ^ 53 \<longrightarrow>
         \<bar>wilson_concentration r - wilson_lower_bound (to_double (r_m r)) (to_double (r_n r)) kZ95 * scale\<bar>
           \<le> scale / 2 ^ 46))"

lemma score_site_scores:
  assumes "pa \<noteq> 0" "n \<noteq> 0"
  shows "scores_of_counts pm pa (score_site (period_scale pm pa) s m n)"
proof -
  let ?r = "score_site (period_scale pm pa) s m n"
  have f: "exact_ratio ?r = to_double m / to_double n" "r_m ?r = m" "r_n ?r = n"
    "wilson_concentration ?r = fl (wilson_double (double_of m) (double_of n) kZ95 * period_scale pm pa)"
    by (simp_all add: exact_ratio_def score_site_def)
  let ?c = "to_double m / to_double n * exact_scale pm pa"
  have "\<bar>concentration ?r - ?c\<bar> \<le> (real 7 + 1) * uro * ?c"
    by (rule near_error [OF near_concentration [OF assms]]) simp
  also have "\<dots> \<le> ?c / 2 ^ 49"
  proof -
    have "(real 7 + 1) * uro * c \<le> c / 2 ^ 49" if "0 \<le> c" for c using that by (simp add: uro_def)
    then show ?thesis by (simp only: exact_scale_def to_double_nonneg mult_nonneg_nonneg divide_nonneg_nonneg)
  qed
  finally show ?thesis
    unfolding scores_of_counts_def Let_def f
    using score_range [OF assms] score_error [OF assms] by blast
qed

text \<open>
  C18: The ranking is sorted by decreasing computed score. Every ranked site has its
  true counts m, n and at least 30 access samples; its concentration is (m *
  period_miss) / (n * period_access) up to 2^-49 of it; its score is not below 0 by
  more than 2^-46 of the scale, not above that concentration by more than 2^-45 (of the
  scale, or of the concentration if larger), and for a proportion it is the Wilson
  bound times the scale to within 2^-46 of the scale.
\<close>

theorem ranking_is_by_score:
  assumes "pa \<noteq> 0"
  shows "let (ranked, insufficient) = concentration_ranking pm pa miss access in
    sorted_wrt (\<lambda>a b. wilson_concentration b \<le> wilson_concentration a) ranked \<and>
    (\<forall>r\<in>set ranked. r_m r = smap_count miss (r_site r) \<and> r_n r = smap_count access (r_site r) \<and>
       30 \<le> unat (r_n r) \<and> scores_of_counts pm pa r)"
proof -
  let ?scored = "map (\<lambda>s. score_site (period_scale pm pa) s (smap_count miss s) (smap_count access s))
      (filter (supported access) (all_sites miss access))"
  have "r_m r = smap_count miss (r_site r) \<and> r_n r = smap_count access (r_site r) \<and>
       30 \<le> unat (r_n r) \<and> scores_of_counts pm pa r"
    if "r \<in> set ?scored" for r
  proof -
    from that obtain s where s: "supported access s"
      and r: "r = score_site (period_scale pm pa) s (smap_count miss s) (smap_count access s)" by auto
    have n: "30 \<le> unat (smap_count access s)" using supported_count [OF s] by simp
    then have "smap_count access s \<noteq> 0" by (metis not_numeral_le_zero unat_0)
    from score_site_scores [OF assms this] n show ?thesis unfolding r by (simp add: score_site_def)
  qed
  then show ?thesis
    using isort.srt_descending [of wilson_concentration ?scored]
    unfolding concentration_ranking_split Let_def prod.case isort.srt_set by blast
qed

theorem ranking_is_by_score_witness:
  "let (ranked, insufficient) = concentration_ranking 4099 47017 gate5_miss gate5_access in
    \<forall>r\<in>set ranked. 30 \<le> unat (r_n r) \<and> scores_of_counts 4099 47017 r"
proof -
  obtain ranked ins where r: "concentration_ranking 4099 47017 gate5_miss gate5_access = (ranked, ins)"
    by (cases "concentration_ranking 4099 47017 gate5_miss gate5_access")
  show ?thesis
    using ranking_is_by_score [of 47017 4099 gate5_miss gate5_access]
    unfolding r Let_def prod.case by auto
qed

theorem raw_ranking_is_by_misses:
  "mset (raw_ranking miss) = mset miss \<and> sorted_wrt (\<lambda>a b. snd b \<le> snd a) (raw_ranking miss)"
  using isort.srt_perm isort.srt_descending [of snd miss] by (simp add: raw_ranking_def)

end
