(* ===== verification/System_Calls.thy ===== *)
theory System_Calls
  imports Ring_Drain Complex_Main
begin

text \<open>
  The boundary between \<open>src/main.cpp\<close>, the probes \<open>p1\<close> to \<open>p3\<close> and the operating system. A run of the program is a
  function of the kernel it runs on and of the calls made so far. The kernel is arbitrary:
  it answers a call as a function of the whole history, so a statement about all kernels
  covers every scheduling, every failure and every target. \<open>None\<close> is a run that never
  returns; a run that ends the process early is \<open>Inl\<close> of how it ends.
\<close>

section \<open>Calls and replies\<close>

text \<open>
  The fields of \<open>perf_event_attr\<close> that the code sets; the others are zero in both
  (\<open>memset\<close>), and \<open>size\<close> is the size of the struct of the headers it is built with.
\<close>

record perf_attr =
  at_type :: u32
  at_config :: u64
  at_sample_period :: u64
  at_sample_type :: u64
  at_read_format :: u64
  at_disabled :: bool
  at_inherit :: bool
  at_enable_on_exec :: bool
  at_exclude_kernel :: bool
  at_exclude_hv :: bool
  at_precise_ip :: nat
  at_wakeup_events :: u32

datatype wait_mode = Blocking | Untraced | No_Hang

text \<open>
  \<open>Load_Ring\<close> is the acquire load of \<open>data_head\<close> of the ring mapped at an address, with the
  data area as it is then; \<open>Store_Tail\<close> the release store of \<open>data_tail\<close>.
\<close>

datatype syscall =
    Nprocessors_Online
  | Page_Size
  | Fopen string
  | Fscanf_Long
  | Fclose
  | Fork
  | Personality_No_Randomize
  | Raise_Sigstop
  | Execvp "string list"
  | Waitpid int wait_mode
  | Kill_Sigcont int
  | Perf_Event_Open perf_attr int int int u64
  | Mmap int u64
  | Munmap u64 u64
  | Read_Counts int
  | Close int
  | Poll "int list"
  | Load_Ring u64
  | Store_Tail u64 u64
  | Steady_Clock
  | Getpid
  | Fscanf_Int
  | Getrlimit_Memlock
  | Sched_Setaffinity int
  | Execl string
  | Kill_Sigkill int

record count_read_format =
  cr_value :: u64
  time_enabled :: u64
  time_running :: u64

text \<open>
  One record for all calls; a call looks at the fields it has. \<open>r_blocks\<close> is for the calls
  that wait: the call never returns.
\<close>

record reply =
  r_ret :: int
  r_errno :: int
  r_value :: int
  r_status :: u32
  r_counts :: count_read_format
  r_base :: u64
  r_data_size :: u64
  r_revents :: "nat \<Rightarrow> u16"
  r_head :: u64
  r_data :: "u8 list"
  r_clock :: int
  r_blocks :: bool

definition no_reply :: reply where
  "no_reply = \<lparr>r_ret = 0, r_errno = 0, r_value = 0, r_status = 0,
     r_counts = \<lparr>cr_value = 0, time_enabled = 0, time_running = 0\<rparr>, r_base = 0, r_data_size = 0,
     r_revents = (\<lambda>_. 0), r_head = 0, r_data = [], r_clock = 0, r_blocks = False\<rparr>"

lemma no_reply_returns [simp]: "\<not> r_blocks no_reply"
  by (simp add: no_reply_def)

type_synonym history = "(syscall \<times> reply) list"
type_synonym kernel = "history \<Rightarrow> syscall \<Rightarrow> reply"

section \<open>Runs\<close>

text \<open>
  How the process can end before \<open>main\<close> prints its report: a fatal message, one of the
  exits of \<open>main\<close>, and, on the child's side of \<open>fork\<close>, \<open>_exit\<close> or the target itself.
\<close>

datatype stop =
    Fatal fatal
  | Usage string int
  | Never_Armed string int
  | Multiplexed string real nat
  | Period_Mismatch string u64 u64
  | Child_Exit "(string \<times> int) option" int
  | Became_Target "string list"

type_synonym 'a run = "kernel \<Rightarrow> history \<Rightarrow> ((stop + 'a) \<times> history) option"

definition return :: "'a \<Rightarrow> 'a run" where
  "return a k h = Some (Inr a, h)"

definition stop_with :: "stop \<Rightarrow> 'a run" where
  "stop_with e k h = Some (Inl e, h)"

definition call :: "syscall \<Rightarrow> reply run" where
  "call c k h = Some (Inr (k h c), h @ [(c, k h c)])"

text \<open>
  A call that waits for another process, \<open>waitpid\<close>: it may never return. \<open>waits_return\<close> is
  the assumption that none hangs, which is about the target: it stops and exits.
\<close>

definition waiting_call :: "syscall \<Rightarrow> reply run" where
  "waiting_call c k h = (if r_blocks (k h c) then None else call c k h)"

definition waits_return :: "kernel \<Rightarrow> bool" where
  "waits_return k \<longleftrightarrow> (\<forall>h pid mode. \<not> r_blocks (k h (Waitpid pid mode)))"

text \<open>The wrapper around \<open>SYS_perf_event_open\<close> of \<open>main.cpp\<close> and of each probe.\<close>

definition perf_event_open :: "perf_attr \<Rightarrow> int \<Rightarrow> int \<Rightarrow> int \<Rightarrow> u64 \<Rightarrow> reply run" where
  "perf_event_open attr pid cpu group_fd flags = call (Perf_Event_Open attr pid cpu group_fd flags)"

definition and_then :: "'a run \<Rightarrow> ('a \<Rightarrow> 'b run) \<Rightarrow> 'b run" where
  "and_then m f k h =
     (case m k h of
        None \<Rightarrow> None
      | Some (Inl e, h') \<Rightarrow> Some (Inl e, h')
      | Some (Inr a, h') \<Rightarrow> f a k h')"

text \<open>A loop over a list that collects one result per element.\<close>

primrec for_each :: "('a \<Rightarrow> 'b run) \<Rightarrow> 'a list \<Rightarrow> 'b list run" where
  "for_each f [] = return []"
| "for_each f (x # xs) = and_then (f x) (\<lambda>y. and_then (for_each f xs) (\<lambda>ys. return (y # ys)))"

text \<open>A computation without calls, which may not return or may stop.\<close>

definition pure :: "(stop + 'a) option \<Rightarrow> 'a run" where
  "pure r k h = map_option (\<lambda>a. (a, h)) r"

text \<open>\<open>die\<close>, and \<open>die_errno\<close> with the errno that the failed call left.\<close>

definition die :: "string \<Rightarrow> 'a run" where
  "die what = stop_with (Fatal (Die what))"

definition die_errno :: "string \<Rightarrow> reply \<Rightarrow> 'a run" where
  "die_errno what r = stop_with (Fatal (Die_Errno what (r_errno r)))"

lemma run_then:
  "and_then m f k h = Some (Inr b, h') \<Longrightarrow> \<exists>a h1. m k h = Some (Inr a, h1) \<and> f a k h1 = Some (Inr b, h')"
  by (auto simp: and_then_def split: option.splits sum.splits)

section \<open>Reasoning about runs\<close>

text \<open>
  \<open>outcome b k m h Q\<close>: what \<open>m\<close> does from history \<open>h\<close> satisfies \<open>Q\<close>; \<open>b\<close> is whether a run
  that never returns is accepted, so \<open>b = False\<close> is total correctness.
\<close>

definition outcome :: "bool \<Rightarrow> kernel \<Rightarrow> 'a run \<Rightarrow> history \<Rightarrow> (stop + 'a \<Rightarrow> history \<Rightarrow> bool) \<Rightarrow> bool" where
  "outcome b k m h Q = (case m k h of None \<Rightarrow> b | Some (r, h') \<Rightarrow> Q r h')"

named_theorems run_rules \<open>outcomes of the basic runs\<close>

lemma outcome_return [run_rules]: "outcome b k (return a) h Q = Q (Inr a) h"
  by (simp add: outcome_def return_def)

lemma outcome_stop [run_rules]: "outcome b k (stop_with e) h Q = Q (Inl e) h"
  by (simp add: outcome_def stop_with_def)

lemma outcome_die [run_rules]: "outcome b k (die what) h Q = Q (Inl (Fatal (Die what))) h"
  by (simp add: die_def outcome_stop)

lemma outcome_die_errno [run_rules]:
  "outcome b k (die_errno what r) h Q = Q (Inl (Fatal (Die_Errno what (r_errno r)))) h"
  by (simp add: die_errno_def outcome_stop)

lemma outcome_call [run_rules]: "outcome b k (call c) h Q = Q (Inr (k h c)) (h @ [(c, k h c)])"
  by (simp add: outcome_def call_def)

lemma outcome_waiting [run_rules]:
  "outcome b k (waiting_call c) h Q =
     (if r_blocks (k h c) then b else Q (Inr (k h c)) (h @ [(c, k h c)]))"
  by (simp add: outcome_def call_def waiting_call_def)

lemma outcome_and_then [run_rules]:
  "outcome b k (and_then m f) h Q =
     outcome b k m h (\<lambda>r h'. case r of Inl e \<Rightarrow> Q (Inl e) h' | Inr a \<Rightarrow> outcome b k (f a) h' Q)"
  by (simp add: outcome_def and_then_def split: option.split sum.split prod.split)

lemma outcome_pure [run_rules]:
  "outcome b k (pure r) h Q = (case r of None \<Rightarrow> b | Some a \<Rightarrow> Q a h)"
  by (simp add: outcome_def pure_def split: option.split)

lemma outcome_if [run_rules]:
  "outcome b k (if c then m else m') h Q = (if c then outcome b k m h Q else outcome b k m' h Q)"
  by simp

lemma outcome_mono:
  assumes "outcome b k m h Q" "\<And>r h'. Q r h' \<Longrightarrow> Q' r h'"
  shows "outcome b k m h Q'"
  using assms by (auto simp: outcome_def split: option.splits)

lemma outcome_then_succeeds:
  assumes "outcome b k m h (\<lambda>r h'. \<exists>a. r = Inr a \<and> P a h')"
    and "\<And>a h'. P a h' \<Longrightarrow> outcome b k (f a) h' Q"
  shows "outcome b k (and_then m f) h Q"
  unfolding outcome_and_then by (rule outcome_mono [OF assms(1)]) (auto intro: assms(2))

text \<open>\<open>ends_or E P\<close>: an early exit in one of the ways \<open>E\<close>, or a result with \<open>P\<close>.\<close>

definition ends_or :: "(stop \<Rightarrow> bool) \<Rightarrow> ('a \<Rightarrow> history \<Rightarrow> bool) \<Rightarrow> stop + 'a \<Rightarrow> history \<Rightarrow> bool" where
  "ends_or E P r h = (case r of Inl e \<Rightarrow> E e | Inr a \<Rightarrow> P a h)"

lemma ends_or_simps [simp]: "ends_or E P (Inl e) h = E e" "ends_or E P (Inr a) h = P a h"
  by (simp_all add: ends_or_def)

lemma outcome_then_ends:
  assumes "outcome b k m h (ends_or E P)"
    and "\<And>a h'. P a h' \<Longrightarrow> outcome b k (f a) h' (ends_or E Q)"
  shows "outcome b k (and_then m f) h (ends_or E Q)"
  unfolding outcome_and_then
  by (rule outcome_mono [OF assms(1)]) (use assms(2) in \<open>auto simp: ends_or_def split: sum.splits\<close>)

lemma outcome_ends_mono:
  assumes "outcome b k m h (ends_or E P)" "\<And>e. E e \<Longrightarrow> E' e" "\<And>a h'. P a h' \<Longrightarrow> P' a h'"
  shows "outcome b k m h (ends_or E' P')"
  by (rule outcome_mono [OF assms(1)]) (use assms(2,3) in \<open>auto simp: ends_or_def split: sum.splits\<close>)

lemma outcome_succeeds_ends: "outcome b k m h (\<lambda>r h'. \<exists>a. r = Inr a \<and> P a h') \<Longrightarrow> outcome b k m h (ends_or E P)"
  by (erule outcome_mono) auto

lemma outcome_conj: "outcome b k m h Q \<Longrightarrow> outcome b k m h Q' \<Longrightarrow> outcome b k m h (\<lambda>r h'. Q r h' \<and> Q' r h')"
  by (auto simp: outcome_def split: option.splits)

lemma outcomeD: "outcome b k m h Q \<Longrightarrow> m k h = Some (r, h') \<Longrightarrow> Q r h'"
  by (simp add: outcome_def)

lemma outcome_returns: "outcome False k m h Q \<Longrightarrow> \<exists>r h'. m k h = Some (r, h') \<and> Q r h'"
  by (auto simp: outcome_def split: option.splits)

text \<open>A loop: what holds of the results so far, given an invariant of its body.\<close>

lemma outcome_for_each:
  assumes "I [] h"
    and "\<And>done x rest ys h. xs = done @ x # rest \<Longrightarrow> I ys h \<Longrightarrow> length ys = length done \<Longrightarrow>
      outcome b k (f x) h (\<lambda>r h'. case r of Inl e \<Rightarrow> E e h' | Inr y \<Rightarrow> I (ys @ [y]) h')"
  shows "outcome b k (for_each f xs) h
    (\<lambda>r h'. case r of Inl e \<Rightarrow> E e h' | Inr ys \<Rightarrow> length ys = length xs \<and> I ys h')"
proof -
  have "outcome b k (for_each f rest) h (\<lambda>r h'. case r of Inl e \<Rightarrow> E e h'
      | Inr ys' \<Rightarrow> length ys' = length rest \<and> I (ys @ ys') h')"
    if "xs = pre @ rest" "I ys h" "length ys = length pre" for pre rest ys h
    using that
  proof (induction rest arbitrary: pre ys h)
    case Nil
    then show ?case by (simp add: run_rules)
  next
    case (Cons x rest)
    have step: "outcome b k (f x) h (\<lambda>r h'. case r of Inl e \<Rightarrow> E e h' | Inr y \<Rightarrow> I (ys @ [y]) h')"
      using assms(2) [of pre x rest ys h] Cons.prems by simp
    have tail: "outcome b k (and_then (for_each f rest) (\<lambda>ys. return (y # ys))) h'
        (\<lambda>r h'. case r of Inl e \<Rightarrow> E e h'
          | Inr ys' \<Rightarrow> length ys' = length (x # rest) \<and> I (ys @ ys') h')"
      if "I (ys @ [y]) h'" for y h'
    proof -
      have "outcome b k (for_each f rest) h' (\<lambda>r h'. case r of Inl e \<Rightarrow> E e h'
          | Inr ys' \<Rightarrow> length ys' = length rest \<and> I ((ys @ [y]) @ ys') h')"
        using Cons.IH [of "pre @ [x]" "ys @ [y]" h'] Cons.prems that by simp
      then show ?thesis unfolding run_rules
        by (rule outcome_mono) (simp split: sum.splits add: run_rules)
    qed
    show ?case unfolding for_each.simps outcome_and_then [of _ _ "f x"]
    proof (rule outcome_mono [OF step])
      fix r h'
      assume "case r of Inl e \<Rightarrow> E e h' | Inr y \<Rightarrow> I (ys @ [y]) h'"
      then show "case r of
            Inl e \<Rightarrow> case Inl e of Inl e \<Rightarrow> E e h' | Inr ys' \<Rightarrow> length ys' = length (x # rest) \<and> I (ys @ ys') h'
          | Inr y \<Rightarrow> outcome b k (and_then (for_each f rest) (\<lambda>ys. return (y # ys))) h'
              (\<lambda>r h'. case r of Inl e \<Rightarrow> E e h' | Inr ys' \<Rightarrow> length ys' = length (x # rest) \<and> I (ys @ ys') h')"
        using tail by (cases r) simp_all
    qed
  qed
  from this [of "[]" xs "[]" h, unfolded append_Nil] assms(1) show ?thesis by simp
qed

section \<open>Which calls a run makes\<close>

definition calls :: "history \<Rightarrow> syscall list" where
  "calls h = map fst h"

lemma calls_simps [simp]: "calls [] = []" "calls (h @ h') = calls h @ calls h'" "calls ((c, r) # h) = c # calls h"
  by (simp_all add: calls_def)

definition only_calls :: "(syscall \<Rightarrow> bool) \<Rightarrow> 'a run \<Rightarrow> bool" where
  "only_calls P m \<longleftrightarrow> (\<forall>k h r h'. m k h = Some (r, h') \<longrightarrow> (\<exists>t. h' = h @ t \<and> (\<forall>c\<in>set (calls t). P c)))"

named_theorems only_rules \<open>the calls of the basic runs\<close>

lemma only_return [only_rules]: "only_calls P (return a)"
  by (simp add: only_calls_def return_def)

lemma only_stop [only_rules]: "only_calls P (stop_with e)"
  by (simp add: only_calls_def stop_with_def)

lemma only_die [only_rules]: "only_calls P (die what)" "only_calls P (die_errno what r)"
  by (simp_all add: die_def die_errno_def only_stop)

lemma only_call [only_rules]: "P c \<Longrightarrow> only_calls P (call c)"
  by (simp add: only_calls_def call_def)

lemma only_waiting [only_rules]: "P c \<Longrightarrow> only_calls P (waiting_call c)"
  by (simp add: only_calls_def call_def waiting_call_def)

lemma only_pure [only_rules]: "only_calls P (pure r)"
  by (auto simp: only_calls_def pure_def)

lemma only_and_then [only_rules]:
  assumes "only_calls P m" "\<And>a. only_calls P (f a)"
  shows "only_calls P (and_then m f)"
  unfolding only_calls_def
proof (intro allI impI)
  fix k h r h'
  assume run: "and_then m f k h = Some (r, h')"
  then obtain x h1 where x: "m k h = Some (x, h1)"
    by (cases "m k h") (auto simp: and_then_def)
  then obtain t where t: "h1 = h @ t" "\<forall>c\<in>set (calls t). P c"
    using assms(1) unfolding only_calls_def by blast
  show "\<exists>t. h' = h @ t \<and> (\<forall>c\<in>set (calls t). P c)"
  proof (cases x)
    case (Inl e)
    with run x have "h1 = h'" by (simp add: and_then_def)
    with t show ?thesis by blast
  next
    case (Inr a)
    then have "f a k h1 = Some (r, h')" using run x by (simp add: and_then_def)
    then obtain t' where "h' = h1 @ t'" "\<forall>c\<in>set (calls t'). P c"
      using assms(2) unfolding only_calls_def by blast
    with t show ?thesis by (intro exI [of _ "t @ t'"]) auto
  qed
qed

lemma only_if [only_rules]:
  "(c \<Longrightarrow> only_calls P m) \<Longrightarrow> (\<not> c \<Longrightarrow> only_calls P m') \<Longrightarrow> only_calls P (if c then m else m')"
  by simp

lemma only_for_each [only_rules]: "(\<And>x. only_calls P (f x)) \<Longrightarrow> only_calls P (for_each f xs)"
  by (induction xs) (auto intro!: only_rules)

lemma only_outcome:
  assumes "only_calls P m"
  shows "outcome True k m h (\<lambda>r h'. \<exists>t. h' = h @ t \<and> (\<forall>c\<in>set (calls t). P c))"
  using assms unfolding only_calls_def outcome_def by (auto split: option.split)

lemma outcome_calls:
  assumes "only_calls P m" "outcome b k m h Q"
  shows "outcome b k m h (\<lambda>r h'. Q r h' \<and> (\<exists>t. h' = h @ t \<and> (\<forall>c\<in>set (calls t). P c)))"
  using assms unfolding only_calls_def outcome_def by (auto split: option.splits)

section \<open>Results and what the history says of them\<close>

text \<open>
  \<open>result_ok P\<close>: an early exit, or a result with \<open>P\<close>. What a step has established of the
  history stays true later on: the predicates used are monotone in the set of calls made.
\<close>

definition result_ok :: "('a \<Rightarrow> history \<Rightarrow> bool) \<Rightarrow> stop + 'a \<Rightarrow> history \<Rightarrow> bool" where
  "result_ok P r h = (case r of Inl e \<Rightarrow> True | Inr a \<Rightarrow> P a h)"

lemma result_ok_simps [simp]: "result_ok P (Inl e) h" "result_ok P (Inr a) h = P a h"
  by (simp_all add: result_ok_def)

lemma result_ok_mono: "result_ok P r h \<Longrightarrow> (\<And>a. P a h \<Longrightarrow> Q a h) \<Longrightarrow> result_ok Q r h"
  by (cases r) simp_all

text \<open>What the last step alone establishes.\<close>

lemma outcome_last:
  "(\<And>a h. outcome True k (f a) h (result_ok P)) \<Longrightarrow> outcome True k (and_then m f) h (result_ok P)"
  by (auto simp: outcome_and_then outcome_def [of True k m] split: option.splits sum.splits)

lemma outcome_ok_all:
  assumes "P c0" "\<And>c. P c \<Longrightarrow> outcome b k m h (result_ok (Q c))"
  shows "outcome b k m h (result_ok (\<lambda>a h'. \<forall>c. P c \<longrightarrow> Q c a h'))"
proof (cases "m k h")
  case None
  then show ?thesis using assms by (auto simp: outcome_def)
next
  case (Some x)
  then have "result_ok (Q c) (fst x) (snd x)" if "P c" for c
    using assms(2) [OF that] by (cases x) (simp add: outcome_def)
  with Some show ?thesis by (cases x, cases "fst x") (simp_all add: outcome_def)
qed

definition stable :: "(history \<Rightarrow> bool) \<Rightarrow> bool" where
  "stable P \<longleftrightarrow> (\<forall>h t. P h \<longrightarrow> P (h @ t))"

lemma stableD: "stable P \<Longrightarrow> P h \<Longrightarrow> P (h @ t)"
  by (simp add: stable_def)

lemma stable_answered [simp]: "stable (\<lambda>h. x \<in> set h)"
  by (simp add: stable_def)

lemma stable_conj [simp]: "stable P \<Longrightarrow> stable Q \<Longrightarrow> stable (\<lambda>h. P h \<and> Q h)"
  by (simp add: stable_def)

lemma stable_const [simp]: "stable (\<lambda>_. c)"
  by (simp add: stable_def)

definition extends :: "'a run \<Rightarrow> bool" where
  "extends m \<longleftrightarrow> only_calls (\<lambda>_. True) m"

lemma extendsI: "only_calls P m \<Longrightarrow> extends m"
  unfolding extends_def only_calls_def by blast

lemma outcome_ok_and_then:
  assumes "outcome b k m h (result_ok P)" "\<And>a h'. P a h' \<Longrightarrow> outcome b k (f a) h' (result_ok Q)"
  shows "outcome b k (and_then m f) h (result_ok Q)"
  unfolding outcome_and_then
  by (rule outcome_mono [OF assms(1)]) (use assms(2) in \<open>auto simp: result_ok_def split: sum.splits\<close>)

lemma outcome_keep:
  assumes "outcome b k m h (result_ok Q)" "extends m" "stable P" "P h"
  shows "outcome b k m h (result_ok (\<lambda>a h'. P h' \<and> Q a h'))"
  using outcome_calls [OF assms(2) [unfolded extends_def] assms(1)]
  by (rule outcome_mono) (use stableD [OF assms(3,4)] in \<open>auto simp: result_ok_def split: sum.splits\<close>)

lemma outcome_ok_for_each:
  assumes "\<And>x h. x \<in> set xs \<Longrightarrow> S h \<Longrightarrow> outcome b k (f x) h (result_ok (R x))"
    and "\<And>x. extends (f x)" "stable S" "\<And>x y. stable (R x y)" "S h"
  shows "outcome b k (for_each f xs) h (result_ok (\<lambda>ys h'. list_all2 (\<lambda>x y. R x y h') xs ys))"
  using assms(1,5)
proof (induction xs arbitrary: h)
  case Nil
  then show ?case by (simp add: outcome_return)
next
  case (Cons x xs)
  have ext: "extends (for_each f xs)"
    using assms(2) unfolding extends_def by (rule only_for_each)
  have first: "outcome b k (f x) h (result_ok (\<lambda>y h'. S h' \<and> R x y h'))"
    using Cons.prems by (intro outcome_keep assms(2,3)) simp_all
  have rest: "outcome b k (for_each f xs) h' (result_ok (\<lambda>ys h'. R x y h' \<and> list_all2 (\<lambda>x y. R x y h') xs ys))"
    if "S h' \<and> R x y h'" for y h'
    using that Cons by (intro outcome_keep ext assms(4)) simp_all
  show ?case unfolding for_each.simps
    by (rule outcome_ok_and_then [OF first], rule outcome_ok_and_then [OF rest])
      (simp_all add: outcome_return)
qed

section \<open>What a run adds to the history\<close>

text \<open>\<open>does k m P\<close>: whenever \<open>m\<close> returns, what it has added to the history satisfies \<open>P\<close>.\<close>

definition does :: "kernel \<Rightarrow> 'a run \<Rightarrow> (stop + 'a \<Rightarrow> history \<Rightarrow> bool) \<Rightarrow> bool" where
  "does k m P \<longleftrightarrow> (\<forall>h r h'. m k h = Some (r, h') \<longrightarrow> (\<exists>t. h' = h @ t \<and> P r t))"

named_theorems does_rules \<open>what the basic runs add\<close>

lemma doesD: "does k m P \<Longrightarrow> m k h = Some (r, h') \<Longrightarrow> \<exists>t. h' = h @ t \<and> P r t"
  by (simp add: does_def)

lemma does_return [does_rules]: "P (Inr a) [] \<Longrightarrow> does k (return a) P"
  by (simp add: does_def return_def)

lemma does_stop [does_rules]: "P (Inl e) [] \<Longrightarrow> does k (stop_with e) P"
  by (simp add: does_def stop_with_def)

lemma does_die [does_rules]: "(\<And>e. P (Inl e) []) \<Longrightarrow> does k (die what) P" "(\<And>e. P (Inl e) []) \<Longrightarrow> does k (die_errno what x) P"
  by (simp_all add: die_def die_errno_def does_stop)

lemma does_call [does_rules]: "(\<And>r. P (Inr r) [(c, r)]) \<Longrightarrow> does k (call c) P"
  by (simp add: does_def call_def)

lemma does_waiting [does_rules]: "(\<And>r. P (Inr r) [(c, r)]) \<Longrightarrow> does k (waiting_call c) P"
  by (simp add: does_def call_def waiting_call_def)

lemma does_pure [does_rules]: "(\<And>a. r = Some a \<Longrightarrow> P a []) \<Longrightarrow> does k (pure r) P"
  by (auto simp: does_def pure_def)

lemma does_if [does_rules]:
  "(c \<Longrightarrow> does k m P) \<Longrightarrow> (\<not> c \<Longrightarrow> does k m' P) \<Longrightarrow> does k (if c then m else m') P"
  by simp

lemma does_case_prod [does_rules]:
  "(\<And>a b. p = (a, b) \<Longrightarrow> does k (f a b) P) \<Longrightarrow> does k (case p of (a, b) \<Rightarrow> f a b) P"
  by (cases p) simp

lemma does_Let [does_rules]: "(\<And>x. x = a \<Longrightarrow> does k (f x) P) \<Longrightarrow> does k (Let a f) P"
  by simp

lemma does_mono: "does k m P \<Longrightarrow> (\<And>r t. P r t \<Longrightarrow> Q r t) \<Longrightarrow> does k m Q"
  unfolding does_def by blast

lemma does_only: "only_calls P m \<Longrightarrow> does k m (\<lambda>r t. \<forall>c\<in>set (calls t). P c)"
  unfolding does_def only_calls_def by blast

lemma does_conj: "does k m P \<Longrightarrow> does k m Q \<Longrightarrow> does k m (\<lambda>r t. P r t \<and> Q r t)"
  unfolding does_def by (metis same_append_eq)

lemma does_and_then:
  assumes "does k m P" "\<And>e t. P (Inl e) t \<Longrightarrow> Q (Inl e) t"
    and "\<And>a t. P (Inr a) t \<Longrightarrow> does k (f a) (\<lambda>r t'. Q r (t @ t'))"
  shows "does k (and_then m f) Q"
  unfolding does_def
proof (intro allI impI)
  fix h r h' assume run: "and_then m f k h = Some (r, h')"
  then obtain x h1 where x: "m k h = Some (x, h1)" by (cases "m k h") (auto simp: and_then_def)
  then obtain t where t: "h1 = h @ t" "P x t" using assms(1) doesD by blast
  show "\<exists>t. h' = h @ t \<and> Q r t"
  proof (cases x)
    case (Inl e)
    with run x t assms(2) show ?thesis by (auto simp: and_then_def)
  next
    case (Inr a)
    then have "f a k h1 = Some (r, h')" using run x by (simp add: and_then_def)
    with assms(3) [of a t] t Inr obtain t' where "h' = h1 @ t'" "Q r (t @ t')"
      using doesD by blast
    with t show ?thesis by (intro exI [of _ "t @ t'"]) simp
  qed
qed

lemma does_call_then [does_rules]:
  "(\<And>r. does k (f r) (\<lambda>x t. Q x ((c, r) # t))) \<Longrightarrow> does k (and_then (call c) f) Q"
  by (rule does_and_then [where P = "\<lambda>x t. \<exists>r. x = Inr r \<and> t = [(c, r)]"]) (auto intro: does_call)

lemma does_waiting_then [does_rules]:
  "(\<And>r. does k (f r) (\<lambda>x t. Q x ((c, r) # t))) \<Longrightarrow> does k (and_then (waiting_call c) f) Q"
  by (rule does_and_then [where P = "\<lambda>x t. \<exists>r. x = Inr r \<and> t = [(c, r)]"]) (auto intro: does_waiting)

lemma does_pure_then [does_rules]:
  "(\<And>e. r = Some (Inl e) \<Longrightarrow> Q (Inl e) []) \<Longrightarrow> (\<And>a. r = Some (Inr a) \<Longrightarrow> does k (f a) Q) \<Longrightarrow>
   does k (and_then (pure r) f) Q"
  by (rule does_and_then [where P = "\<lambda>x t. r = Some x \<and> t = []"]) (auto intro: does_pure)

lemma does_for_each:
  assumes "I [] []"
    and "\<And>pre x rest ys t. xs = pre @ x # rest \<Longrightarrow> length ys = length pre \<Longrightarrow> I ys t \<Longrightarrow>
      does k (f x) (\<lambda>r t'. case r of Inl e \<Rightarrow> Q (Inl e) (t @ t') | Inr y \<Rightarrow> I (ys @ [y]) (t @ t'))"
    and "\<And>ys t. length ys = length xs \<Longrightarrow> I ys t \<Longrightarrow> Q (Inr ys) t"
  shows "does k (for_each f xs) Q"
proof -
  have "does k (for_each f rest) (\<lambda>r t'. case r of Inl e \<Rightarrow> Q (Inl e) (t @ t') | Inr ys' \<Rightarrow> Q (Inr (ys @ ys')) (t @ t'))"
    if "xs = pre @ rest" "length ys = length pre" "I ys t" for pre rest ys t
    using that
  proof (induction rest arbitrary: pre ys t)
    case Nil
    then show ?case using assms(3) by (auto intro!: does_rules)
  next
    case (Cons x rest)
    have next_one: "does k (and_then (for_each f rest) (\<lambda>ys. return (y # ys)))
        (\<lambda>r t2. case r of Inl e \<Rightarrow> Q (Inl e) (t @ t1 @ t2) | Inr ys' \<Rightarrow> Q (Inr (ys @ ys')) (t @ t1 @ t2))"
      if "I (ys @ [y]) (t @ t1)" for y t1
      by (rule does_and_then [OF Cons.IH [of "pre @ [x]" "ys @ [y]" "t @ t1"]])
        (use Cons.prems that in \<open>auto intro!: does_rules\<close>)
    show ?case unfolding for_each.simps
      by (rule does_and_then [OF assms(2) [of pre x rest ys t]])
        (use Cons.prems next_one in auto)
  qed
  from this [of "[]" xs "[]" "[]"] assms(1)
  have "does k (for_each f xs) (\<lambda>r t. case r of Inl e \<Rightarrow> Q (Inl e) t | Inr ys \<Rightarrow> Q (Inr ys) t)"
    by (simp only: append_Nil list.size refl simp_thms)
  then show ?thesis by (rule does_mono) (auto split: sum.splits)
qed

lemma does_for_each_all2:
  assumes "\<And>x. x \<in> set xs \<Longrightarrow> does k (f x) (\<lambda>r t. P t \<and> (\<forall>y. r = Inr y \<longrightarrow> R x y))"
    and "P []" "\<And>t t'. P t \<Longrightarrow> P t' \<Longrightarrow> P (t @ t')"
  shows "does k (for_each f xs) (\<lambda>r t. P t \<and> (\<forall>ys. r = Inr ys \<longrightarrow> list_all2 R xs ys))"
  using assms(1)
proof (induction xs)
  case Nil
  then show ?case using assms(2) by (auto intro!: does_rules)
next
  case (Cons x xs)
  have first: "does k (f x) (\<lambda>r t. P t \<and> (\<forall>y. r = Inr y \<longrightarrow> R x y))" by (rule Cons.prems) simp
  have rest: "does k (for_each f xs) (\<lambda>r t. P t \<and> (\<forall>ys. r = Inr ys \<longrightarrow> list_all2 R xs ys))"
    by (rule Cons.IH) (simp add: Cons.prems)
  show ?case unfolding for_each.simps
    by (rule does_and_then [OF first], simp, rule does_and_then [OF rest])
      (auto intro!: does_return assms(2,3))
qed

text \<open>Reading a history: what each call contributes, concatenated.\<close>

definition trace_of :: "(syscall \<times> reply \<Rightarrow> 'b list) \<Rightarrow> history \<Rightarrow> 'b list" where
  "trace_of f h = concat (map f h)"

lemma trace_of_simps [simp]:
  "trace_of f [] = []" "trace_of f (x # h) = f x @ trace_of f h" "trace_of f (h @ h') = trace_of f h @ trace_of f h'"
  by (simp_all add: trace_of_def)

lemma trace_of_empty: "(\<And>c r. c \<in> set (calls t) \<Longrightarrow> f (c, r) = []) \<Longrightarrow> trace_of f t = []"
  by (induction t) (auto simp: calls_def)

end
