(* ===== verification/Target_Process.thy ===== *)
theory Target_Process
  imports System_Calls
begin

text \<open>
  The life of the target: \<open>fork_stop_exec\<close> and \<open>reap\<close> of \<open>src/main.cpp\<close>, with the wait
  status macros of \<open>sys/wait.h\<close> they use. Both sides of \<open>fork\<close> are modelled: the reply to
  \<open>fork\<close> decides which one the run is.
\<close>

section \<open>Wait statuses\<close>

definition WTERMSIG :: "u32 \<Rightarrow> u32" where
  "WTERMSIG status = and status 127"

definition WEXITSTATUS :: "u32 \<Rightarrow> u32" where
  "WEXITSTATUS status = drop_bit 8 (and status 65280)"

definition WIFEXITED :: "u32 \<Rightarrow> bool" where
  "WIFEXITED status \<longleftrightarrow> WTERMSIG status = 0"

text \<open>\<open>((signed char) ((status & 0x7f) + 1) >> 1) > 0\<close>.\<close>

definition WIFSIGNALED :: "u32 \<Rightarrow> bool" where
  "WIFSIGNALED status \<longleftrightarrow> 0 < sint (signed_drop_bit 1 (ucast (and status 127) + 1 :: 8 word))"

definition WIFSTOPPED :: "u32 \<Rightarrow> bool" where
  "WIFSTOPPED status \<longleftrightarrow> and status 255 = 127"

text \<open>The exit code that \<open>reap\<close> and \<open>main\<close> derive from a status.\<close>

definition exit_code_of :: "u32 \<Rightarrow> int" where
  "exit_code_of status =
     (if WIFEXITED status then uint (WEXITSTATUS status)
      else if WIFSIGNALED status then 128 + uint (WTERMSIG status)
      else 0)"

section \<open>The child and its parent\<close>

definition child_side :: "string list \<Rightarrow> 'a run" where
  "child_side target_argv =
     and_then (call Personality_No_Randomize) (\<lambda>p.
       if r_ret p = -1 then stop_with (Child_Exit (Some (''cachelens: child: personality'', r_errno p)) 1)
       else and_then (call Raise_Sigstop) (\<lambda>s.
         if r_ret s \<noteq> 0 then stop_with (Child_Exit (Some (''cachelens: child: raise(SIGSTOP)'', r_errno s)) 1)
         else and_then (call (Execvp target_argv)) (\<lambda>e.
           if r_ret e = -1
           then stop_with (Child_Exit (Some (''cachelens: child: execvp('' @ hd target_argv @ '')'', r_errno e)) 127)
           else stop_with (Became_Target target_argv))))"

definition fork_stop_exec :: "string list \<Rightarrow> int run" where
  "fork_stop_exec target_argv =
     and_then (call Fork) (\<lambda>f.
       if r_ret f < 0 then die_errno ''fork'' f
       else if r_ret f = 0 then child_side target_argv
       else and_then (waiting_call (Waitpid (r_ret f) Untraced)) (\<lambda>w.
         if r_ret w < 0 then die_errno ''waitpid (initial stop)'' w
         else if \<not> WIFSTOPPED (r_status w) then die ''child did not stop as expected before exec''
         else return (r_ret f)))"

definition reap :: "int \<Rightarrow> int run" where
  "reap child =
     and_then (waiting_call (Waitpid child Blocking)) (\<lambda>w.
       if r_ret w < 0 then die_errno ''waitpid (exit)'' w
       else return (exit_code_of (r_status w)))"

section \<open>What the kernel encodes in a status\<close>

text \<open>A normal exit with code \<open>n\<close>; death by a signal, with or without a core dump.\<close>

definition status_exited :: "nat \<Rightarrow> u32" where
  "status_exited n = word_of_nat (256 * n)"

definition status_signalled :: "nat \<Rightarrow> bool \<Rightarrow> u32" where
  "status_signalled sig core = word_of_nat (sig + (if core then 128 else 0))"

lemma mask_simps:
  "and (w :: u32) 127 = take_bit 7 w" "and w 255 = take_bit 8 w" "and w 65280 = push_bit 8 (take_bit 8 (drop_bit 8 w))"
proof -
  have high_byte: "65280 = push_bit 8 (mask 8 :: u32)" by (simp add: mask_eq_exp_minus_1)
  show "and w 127 = take_bit 7 w" "and w 255 = take_bit 8 w" 
    by (simp_all add: take_bit_eq_mask mask_eq_exp_minus_1)
  show "and w 65280 = push_bit 8 (take_bit 8 (drop_bit 8 w))"
    unfolding high_byte by (rule bit_eqI) (auto simp: bit_simps)
qed

lemma WEXITSTATUS_bits: "WEXITSTATUS status = take_bit 8 (drop_bit 8 status)"
  unfolding WEXITSTATUS_def mask_simps by (rule bit_eqI) (auto simp: bit_simps)

lemma exit_code_exited: "n < 256 \<Longrightarrow> exit_code_of (status_exited n) = int n"
proof -
  assume n: "n < 256"
  have w: "unat (status_exited n) = 256 * n"
    unfolding status_exited_def using n by (intro unat_word_of_nat_less) simp
  have "unat (WTERMSIG (status_exited n)) = 0"
    by (simp add: WTERMSIG_def mask_simps unsigned_take_bit_eq w take_bit_eq_mod unat_mod mod_mult_left_eq [of 256 128, symmetric])
  moreover have "unat (WEXITSTATUS (status_exited n)) = n"
    using n by (simp add: WEXITSTATUS_bits unsigned_drop_bit_eq unsigned_take_bit_eq w drop_bit_eq_div take_bit_eq_mod unat_div unat_mod)
  ultimately show ?thesis by (simp add: exit_code_of_def WIFEXITED_def unsigned_eq_0_iff uint_nat)
qed

lemma exit_code_signalled:
  assumes "0 < sig" "sig < 127"
  shows "exit_code_of (status_signalled sig core) = 128 + int sig"
proof -
  have w: "unat (status_signalled sig core) = sig + (if core then 128 else 0)"
    unfolding status_signalled_def using assms by (intro unat_word_of_nat_less) simp
  have sig: "unat (WTERMSIG (status_signalled sig core)) = sig"
    using assms by (simp add: WTERMSIG_def mask_simps unsigned_take_bit_eq w take_bit_eq_mod unat_mod)
  have "ucast v = (word_of_nat (unat v) :: 8 word)" for v :: u32 by (simp only: of_nat_unat)
  then have cast: "ucast (and (status_signalled sig core) 127) = (word_of_nat sig :: 8 word)"
    using sig unfolding WTERMSIG_def by (simp only:)
  have u: "uint (word_of_nat (Suc sig) :: 8 word) = int (Suc sig)"
    unfolding uint_nat using assms by (subst unat_word_of_nat_less) simp_all
  have s: "sint (word_of_nat (Suc sig) :: 8 word) = int (Suc sig)"
    unfolding sint_uint u using assms by (simp add: signed_take_bit_int_eq_self)
  have "sint (signed_drop_bit 1 (word_of_nat (Suc sig) :: 8 word)) = int (Suc sig) div 2"
    unfolding sint_signed_drop_bit_eq s by (simp add: drop_bit_eq_div)
  then have "0 < sint (signed_drop_bit 1 (word_of_nat (Suc sig) :: 8 word))"
    using assms by simp
  then have "WIFSIGNALED (status_signalled sig core)"
    unfolding WIFSIGNALED_def cast by (simp only: of_nat_Suc add.commute)
  moreover have "\<not> WIFEXITED (status_signalled sig core)"
    using sig assms by (auto simp: WIFEXITED_def)
  ultimately show ?thesis using sig by (simp add: exit_code_of_def uint_nat)
qed

end
