(* ===== verification/Perf_Events.thy ===== *)
theory Perf_Events
  imports Target_Process
begin

text \<open>
  The perf events of \<open>src/main.cpp\<close>: \<open>EventPlan\<close>, \<open>open_counting\<close>, \<open>SamplingEvent\<close>,
  \<open>open_sampling\<close>, \<open>finish_sampling\<close> and one call of \<open>drain\<close> on the ring of an event.
\<close>

section \<open>Attributes\<close>

definition PERF_TYPE_HARDWARE :: u32 where "PERF_TYPE_HARDWARE = 0"
definition PERF_COUNT_HW_CACHE_REFERENCES :: u64 where "PERF_COUNT_HW_CACHE_REFERENCES = 2"
definition PERF_COUNT_HW_CACHE_MISSES :: u64 where "PERF_COUNT_HW_CACHE_MISSES = 3"
definition PERF_FORMAT_TOTAL_TIME_ENABLED :: u64 where "PERF_FORMAT_TOTAL_TIME_ENABLED = 1"
definition PERF_FORMAT_TOTAL_TIME_RUNNING :: u64 where "PERF_FORMAT_TOTAL_TIME_RUNNING = 2"
definition PERF_SAMPLE_IP :: u64 where "PERF_SAMPLE_IP = 1"
definition PERF_SAMPLE_TID :: u64 where "PERF_SAMPLE_TID = 2"
definition PERF_SAMPLE_PERIOD :: u64 where "PERF_SAMPLE_PERIOD = 256"

record event_plan =
  plan_label :: string
  hw_config :: u64

text \<open>\<open>plans\<close> of \<open>main\<close>.\<close>

definition plans :: "event_plan list" where
  "plans = [\<lparr>plan_label = ''miss'', hw_config = PERF_COUNT_HW_CACHE_MISSES\<rparr>,
            \<lparr>plan_label = ''access'', hw_config = PERF_COUNT_HW_CACHE_REFERENCES\<rparr>]"

text \<open>\<open>memset(&attr, 0, sizeof(attr))\<close>.\<close>

definition zero_attr :: perf_attr where
  "zero_attr = \<lparr>at_type = 0, at_config = 0, at_sample_period = 0, at_sample_type = 0,
     at_read_format = 0, at_disabled = False, at_inherit = False, at_enable_on_exec = False,
     at_exclude_kernel = False, at_exclude_hv = False, at_precise_ip = 0, at_wakeup_events = 0\<rparr>"

definition counting_attr :: "u64 \<Rightarrow> perf_attr" where
  "counting_attr hw = zero_attr\<lparr>at_type := PERF_TYPE_HARDWARE, at_config := hw, at_disabled := True,
     at_enable_on_exec := True, at_inherit := True, at_exclude_kernel := True, at_exclude_hv := True,
     at_read_format := or PERF_FORMAT_TOTAL_TIME_ENABLED PERF_FORMAT_TOTAL_TIME_RUNNING\<rparr>"

definition sampling_attr :: "u64 \<Rightarrow> u64 \<Rightarrow> perf_attr" where
  "sampling_attr hw period = zero_attr\<lparr>at_type := PERF_TYPE_HARDWARE, at_config := hw, at_disabled := True,
     at_enable_on_exec := True, at_inherit := True, at_exclude_kernel := True, at_exclude_hv := True,
     at_read_format := or PERF_FORMAT_TOTAL_TIME_ENABLED PERF_FORMAT_TOTAL_TIME_RUNNING,
     at_sample_period := period,
     at_sample_type := or (or PERF_SAMPLE_IP PERF_SAMPLE_TID) PERF_SAMPLE_PERIOD,
     at_precise_ip := 0, at_wakeup_events := 1000\<rparr>"

section \<open>Counting events\<close>

definition open_counting :: "u64 \<Rightarrow> int \<Rightarrow> reply run" where
  "open_counting hw child = perf_event_open (counting_attr hw) child (-1) (-1) 0"

section \<open>Sampling events\<close>

text \<open>\<open>tail\<close>, \<open>samples\<close> and \<open>hist\<close> are what \<open>drain\<close> updates.\<close>

record sampling_event =
  ev_fd :: int
  ev_cpu :: int
  mmap_base :: u64
  mmap_len :: u64
  ev_data_size :: u64
  ev_ring :: drain_state
  requested_period :: u64
  ev_counts :: count_read_format

definition no_counts :: count_read_format where
  "no_counts = \<lparr>cr_value = 0, time_enabled = 0, time_running = 0\<rparr>"

definition fresh_ring :: drain_state where
  "fresh_ring = \<lparr>d_tail = 0, d_samples = [], d_hist = empty_histogram\<rparr>"

definition kDataPages :: u64 where "kDataPages = push_bit 7 1"

definition MAP_FAILED :: u64 where "MAP_FAILED = - 1"

text \<open>\<open>sizeof(CountReadFormat)\<close>.\<close>

definition sizeof_counts :: int where "sizeof_counts = 24"

definition open_sampling :: "u64 \<Rightarrow> u64 \<Rightarrow> int \<Rightarrow> int \<Rightarrow> sampling_event run" where
  "open_sampling hw period child cpu =
     and_then (perf_event_open (sampling_attr hw period) child cpu (-1) 0) (\<lambda>f.
       if r_ret f < 0
       then stop_with (Fatal (diagnose_perf_open_failure (ring_label ''sampling'' cpu) (r_errno f)))
       else and_then (call Page_Size) (\<lambda>p.
         if r_ret p \<le> 0 then die_errno ''sysconf(_SC_PAGESIZE)'' p
         else (let len = (1 + kDataPages) * word_of_int (r_ret p) in
           and_then (call (Mmap (r_ret f) len)) (\<lambda>m.
             if r_base m = MAP_FAILED
             then die_errno (''mmap(perf ring buffer) '' @ ring_label ''sampling'' cpu) m
             else return \<lparr>ev_fd = r_ret f, ev_cpu = cpu, mmap_base = r_base m, mmap_len = len,
                    ev_data_size = r_data_size m, ev_ring = fresh_ring,
                    requested_period = period, ev_counts = no_counts\<rparr>))))"

definition finish_sampling :: "sampling_event \<Rightarrow> sampling_event run" where
  "finish_sampling ev =
     and_then (call (Read_Counts (ev_fd ev))) (\<lambda>n.
       if r_ret n \<noteq> sizeof_counts then die_errno ''read(perf fd)'' n
       else and_then (call (Munmap (mmap_base ev) (mmap_len ev))) (\<lambda>_.
         and_then (call (Close (ev_fd ev))) (\<lambda>_. return (ev\<lparr>ev_counts := r_counts n\<rparr>))))"

text \<open>
  \<open>drain(e.meta, e.data, e.data_size, e.tail, e.samples, e.hist, label)\<close>: the load of
  \<open>data_head\<close>, the loop, and the store of \<open>data_tail\<close>.
\<close>

definition drain_event :: "string \<Rightarrow> sampling_event \<Rightarrow> sampling_event run" where
  "drain_event label ev =
     and_then (call (Load_Ring (mmap_base ev))) (\<lambda>m.
       and_then (pure (map_option (map_sum Fatal id)
           (drain label (r_head m) (r_data m) (ev_data_size ev) (ev_ring ev)))) (\<lambda>(published, ring).
         and_then (call (Store_Tail (mmap_base ev) published)) (\<lambda>_. return (ev\<lparr>ev_ring := ring\<rparr>))))"

section \<open>Their calls\<close>

lemma only_case_prod [only_rules]: "(\<And>a b. only_calls P (f a b)) \<Longrightarrow> only_calls P (case p of (a, b) \<Rightarrow> f a b)"
  by (cases p) simp

lemma only_Let [only_rules]: "(\<And>x. only_calls P (f x)) \<Longrightarrow> only_calls P (Let a f)"
  by simp

lemma drain_event_calls:
  "only_calls (\<lambda>c. c = Load_Ring (mmap_base ev) \<or> (\<exists>t. c = Store_Tail (mmap_base ev) t)) (drain_event label ev)"
  unfolding drain_event_def by (intro only_rules) auto

lemma finish_sampling_calls:
  "only_calls (\<lambda>c. c \<in> {Read_Counts (ev_fd ev), Munmap (mmap_base ev) (mmap_len ev), Close (ev_fd ev)}) (finish_sampling ev)"
  unfolding finish_sampling_def by (intro only_rules) auto

end
