(* ===== verification/Calibration.thy ===== *)
theory Calibration
  imports Perf_Events Primes Ranking
begin

text \<open>
  The sample periods of \<open>src/main.cpp\<close>: \<open>calibrate_both\<close>, which measures the event rates
  on a throwaway run of the target, and the part of \<open>main\<close> that turns them into periods.
\<close>

section \<open>The code\<close>

text \<open>One iteration of the second loop of \<open>calibrate_both\<close>: the rate of one event.\<close>

definition read_calibration :: "int \<Rightarrow> real run" where
  "read_calibration fd =
     and_then (call (Read_Counts fd)) (\<lambda>n.
       if r_ret n \<noteq> sizeof_counts then die_errno ''read(calibration fd)'' n
       else and_then (call (Close fd)) (\<lambda>_.
         let counts = r_counts n in
         if time_enabled counts = 0 then die ''calibration run: target never reached exec''
         else if fl (double_of (time_running counts) / double_of (time_enabled counts)) < fl 0.99
         then die (''calibration run: multiplexing fraction below 0.99 with two ungrouped counters '' @ em_dash @
                   '' unexpected on this PMU, refusing to derive periods from a contended read'')
         else (let wall_seconds = fl (double_of (time_running counts) / 10 ^ 9)
               in return (fl (double_of (cr_value counts) / wall_seconds)))))"

definition open_plan :: "int \<Rightarrow> event_plan \<Rightarrow> int run" where
  "open_plan child pl =
     and_then (open_counting (hw_config pl) child) (\<lambda>f.
       if r_ret f < 0 then stop_with (Fatal (diagnose_perf_open_failure (plan_label pl) (r_errno f)))
       else return (r_ret f))"

definition calibrate_both :: "event_plan list \<Rightarrow> string list \<Rightarrow> real list run" where
  "calibrate_both pls target_argv =
     and_then (fork_stop_exec target_argv) (\<lambda>child.
       and_then (for_each (open_plan child) pls) (\<lambda>fds.
         and_then (call (Kill_Sigcont child)) (\<lambda>s.
           if r_ret s \<noteq> 0 then die_errno ''kill(SIGCONT) [calibration]'' s
           else and_then (reap child) (\<lambda>_. for_each read_calibration fds))))"

definition max_sample_rate_file :: string where
  "max_sample_rate_file = ''/proc/sys/kernel/perf_event_max_sample_rate''"

definition read_max_rate :: "int run" where
  "read_max_rate =
     and_then (call (Fopen max_sample_rate_file)) (\<lambda>f.
       if r_ret f = 0 then die_errno (''open '' @ max_sample_rate_file) f
       else and_then (call Fscanf_Long) (\<lambda>got.
         and_then (call Fclose) (\<lambda>_.
           if r_ret got \<noteq> 1 \<or> r_value got \<le> 0 then die ''could not parse perf_event_max_sample_rate''
           else return (r_value got))))"

definition target_rate :: "int \<Rightarrow> real" where
  "target_rate max_rate = fl (fl 0.60 * fl (real_of_int max_rate))"

text \<open>\<open>static_cast<uint64_t>\<close> of a \<open>double\<close>: truncation, undefined when out of range.\<close>

definition to_uint64 :: "real \<Rightarrow> u64 option" where
  "to_uint64 x = (if - 1 < x \<and> x < 2 ^ 64 then Some (word_of_nat (nat \<lfloor>x\<rfloor>)) else None)"

definition calibrated_period :: "int \<Rightarrow> real \<Rightarrow> u64 run" where
  "calibrated_period max_rate rate =
     (case to_uint64 (fl (fl (rate / target_rate max_rate) + 0.5)) of
        None \<Rightarrow> stop_with (Fatal Undefined_Behaviour)
      | Some raw \<Rightarrow> pure (map_option Inr (nearest_prime raw)))"

definition choose_periods :: "u64 option \<Rightarrow> string list \<Rightarrow> u64 list run" where
  "choose_periods override target_argv =
     (case override of
        Some period \<Rightarrow> return [period, period]
      | None \<Rightarrow>
          and_then read_max_rate (\<lambda>max_rate.
            and_then (calibrate_both plans target_argv) (\<lambda>rates.
              for_each (calibrated_period max_rate) rates)))"

section \<open>What it computes\<close>

text \<open>Counts good enough to derive a rate from: armed, and not multiplexed.\<close>

definition usable_counts :: "count_read_format \<Rightarrow> bool" where
  "usable_counts counts \<longleftrightarrow> time_enabled counts \<noteq> 0 \<and>
     fl 0.99 \<le> fl (double_of (time_running counts) / double_of (time_enabled counts))"

definition rate_of :: "count_read_format \<Rightarrow> real" where
  "rate_of counts = fl (double_of (cr_value counts) / fl (double_of (time_running counts) / 10 ^ 9))"

text \<open>The events per sample that these counts ask for: as computed, and exactly.\<close>

definition computed_quotient :: "int \<Rightarrow> count_read_format \<Rightarrow> real" where
  "computed_quotient max_rate counts = fl (rate_of counts / target_rate max_rate)"

definition exact_quotient :: "int \<Rightarrow> count_read_format \<Rightarrow> real" where
  "exact_quotient max_rate counts =
     to_double (cr_value counts) / (to_double (time_running counts) / 10 ^ 9) / (0.60 * real_of_int max_rate)"

text \<open>The period before the prime search: the quotient rounded to the nearest integer.\<close>

definition wanted_period :: "int \<Rightarrow> count_read_format \<Rightarrow> nat" where
  "wanted_period max_rate counts = nat \<lfloor>fl (computed_quotient max_rate counts + 0.5)\<rfloor>"

definition period_for :: "int \<Rightarrow> count_read_format \<Rightarrow> u64 \<Rightarrow> bool" where
  "period_for max_rate counts p \<longleftrightarrow> usable_counts counts \<and> prime_nat (unat p) \<and>
     (wanted_period max_rate counts < 2 ^ 62 \<longrightarrow>
        nearest_prime_to (max 2 (wanted_period max_rate counts)) (unat p))"

lemma nat_less_2_64: "(i :: int) < 2 ^ 64 \<Longrightarrow> nat i < 2 ^ LENGTH(64)"
  by (cases "0 \<le> i") (simp_all add: nat_less_iff)

text \<open>
  The counts that the calibration run read for an event: from the descriptor that its
  \<open>perf_event_open\<close> returned.
\<close>

definition calibrated_counts :: "event_plan \<Rightarrow> count_read_format \<Rightarrow> history \<Rightarrow> bool" where
  "calibrated_counts pl counts h \<longleftrightarrow>
     (\<exists>child opened read. (Perf_Event_Open (counting_attr (hw_config pl)) child (-1) (-1) 0, opened) \<in> set h \<and>
        (Read_Counts (r_ret opened), read) \<in> set h \<and> counts = r_counts read)"

definition read_as :: "int \<Rightarrow> real \<Rightarrow> history \<Rightarrow> bool" where
  "read_as fd rate h \<longleftrightarrow> (\<exists>read. (Read_Counts fd, read) \<in> set h \<and>
     usable_counts (r_counts read) \<and> rate = rate_of (r_counts read))"

definition opened_as :: "event_plan \<Rightarrow> int \<Rightarrow> history \<Rightarrow> bool" where
  "opened_as pl fd h \<longleftrightarrow>
     (\<exists>child opened. (Perf_Event_Open (counting_attr (hw_config pl)) child (-1) (-1) 0, opened) \<in> set h \<and> fd = r_ret opened)"

definition rate_reported :: "int \<Rightarrow> history \<Rightarrow> bool" where
  "rate_reported max_rate h \<longleftrightarrow> 0 < max_rate \<and> (\<exists>got. (Fscanf_Long, got) \<in> set h \<and> max_rate = r_value got)"

lemma stable_facts [simp]:
  "stable (calibrated_counts pl c)" "stable (read_as fd rate)" "stable (opened_as pl fd)" "stable (rate_reported m)"
  unfolding stable_def calibrated_counts_def read_as_def opened_as_def rate_reported_def by auto

lemma read_calibration_outcome:
  "outcome (\<not> waits_return k) k (read_calibration fd) h (result_ok (read_as fd))"
  unfolding read_calibration_def Let_def
  by (auto simp: run_rules usable_counts_def read_as_def rate_of_def not_less intro!: exI)

lemma calibrated_period_outcome:
  assumes "usable_counts c"
  shows "outcome (\<not> waits_return k) k (calibrated_period max_rate (rate_of c)) h (result_ok (\<lambda>p _. period_for max_rate c p))"
proof (cases "to_uint64 (fl (computed_quotient max_rate c + 0.5))")
  case None
  then show ?thesis by (simp add: calibrated_period_def computed_quotient_def [symmetric] run_rules)
next
  case (Some raw)
  then have x: "fl (computed_quotient max_rate c + 0.5) < 2 ^ 64"
    "raw = word_of_nat (nat \<lfloor>fl (computed_quotient max_rate c + 0.5)\<rfloor>)"
    by (simp_all add: to_uint64_def split: if_splits)
  then have "\<lfloor>fl (computed_quotient max_rate c + 0.5)\<rfloor> < 2 ^ 64" by (simp add: floor_less_iff)
  then have "nat \<lfloor>fl (computed_quotient max_rate c + 0.5)\<rfloor> < 2 ^ LENGTH(64)"
    by (rule nat_less_2_64)
  then have raw: "unat raw = wanted_period max_rate c"
    unfolding x(2) wanted_period_def by (rule unat_word_of_nat_less)
  obtain p where p: "nearest_prime raw = Some p" "prime_nat (unat p)" using nearest_prime_returns by blast
  have "nearest_prime_to (max 2 (unat raw)) (unat p)" if "unat raw < 2 ^ 62"
    using nearest_prime_finds [of raw] that p(1) by (simp add: trial_limit_def)
  with Some p raw assms show ?thesis by (simp add: calibrated_period_def computed_quotient_def [symmetric] run_rules period_for_def)
qed

lemma open_plan_outcome: "outcome b k (open_plan child pl) h (result_ok (opened_as pl))"
  by (auto simp: open_plan_def open_counting_def perf_event_open_def opened_as_def run_rules)

lemma read_max_rate_outcome: "outcome b k read_max_rate h (result_ok rate_reported)"
  by (auto simp: read_max_rate_def rate_reported_def run_rules)

text \<open>A run with a wait is only as total as its waits.\<close>

lemma returns_child:
  "outcome (\<not> waits_return k) k (fork_stop_exec argv) h (result_ok (\<lambda>child _. 0 < child))"
  by (auto simp: fork_stop_exec_def child_side_def waits_return_def run_rules)

lemma returns_reap: "outcome (\<not> waits_return k) k (reap child) h (result_ok (\<lambda>_ _. True))"
  by (auto simp: reap_def waits_return_def run_rules)

lemma run_extends:
  "extends (fork_stop_exec argv)" "extends (reap child)" "extends (open_plan child pl)"
  "extends (read_calibration fd)" "extends (calibrated_period m rate)" "extends (calibrate_both pls argv)"
proof -
  show calib: "extends (fork_stop_exec argv)" "extends (reap child)" "extends (open_plan child pl)"
    "extends (read_calibration fd)" "extends (calibrated_period m rate)"
    for argv child pl fd m rate
    unfolding extends_def fork_stop_exec_def child_side_def reap_def open_plan_def open_counting_def perf_event_open_def
      read_calibration_def calibrated_period_def Let_def
    by (auto intro!: only_rules split: option.split)
  then show "extends (calibrate_both pls argv)"
    unfolding extends_def calibrate_both_def by (intro only_rules) auto
qed

text \<open>The rate of an event comes from the counts that were read for it.\<close>

definition rate_measured :: "event_plan \<Rightarrow> real \<Rightarrow> history \<Rightarrow> bool" where
  "rate_measured pl rate h \<longleftrightarrow> (\<exists>c. usable_counts c \<and> calibrated_counts pl c h \<and> rate = rate_of c)"

lemma opened_and_read: "opened_as pl fd h \<Longrightarrow> read_as fd rate h \<Longrightarrow> rate_measured pl rate h"
  unfolding opened_as_def read_as_def rate_measured_def calibrated_counts_def by blast

lemma stable_list_all2 [simp]: "(\<And>x y. stable (R x y)) \<Longrightarrow> stable (\<lambda>h. list_all2 (\<lambda>x y. R x y h) xs ys)"
  unfolding stable_def by (auto elim!: list_all2_mono)

lemma stable_rate_measured [simp]: "stable (rate_measured pl rate)"
  unfolding stable_def rate_measured_def calibrated_counts_def by auto

lemma calibrate_both_outcome:
  "outcome (\<not> waits_return k) k (calibrate_both pls argv) h
     (result_ok (\<lambda>rates h'. list_all2 (\<lambda>pl rate. rate_measured pl rate h') pls rates))"
proof -
  let ?opened = "\<lambda>fds h. list_all2 (\<lambda>pl fd. opened_as pl fd h) pls fds"
  let ?measured = "\<lambda>rates h. list_all2 (\<lambda>pl rate. rate_measured pl rate h) pls rates"
  have opens: "outcome (\<not> waits_return k) k (for_each (open_plan child) pls) h (result_ok ?opened)" for child h
    by (rule outcome_ok_for_each [where S = "\<lambda>_. True"]) (simp_all add: open_plan_outcome run_extends)
  have reads: "outcome (\<not> waits_return k) k (for_each read_calibration fds) h (result_ok ?measured)"
    if "?opened fds h" for fds h
  proof -
    have "outcome (\<not> waits_return k) k (for_each read_calibration fds) h
        (result_ok (\<lambda>rates h'. list_all2 (\<lambda>fd rate. read_as fd rate h') fds rates))"
      by (rule outcome_ok_for_each [where S = "\<lambda>_. True"])
        (simp_all add: read_calibration_outcome run_extends)
    then have "outcome (\<not> waits_return k) k (for_each read_calibration fds) h
        (result_ok (\<lambda>rates h'. ?opened fds h' \<and> list_all2 (\<lambda>fd rate. read_as fd rate h') fds rates))"
      using run_extends that unfolding extends_def
      by (intro outcome_keep [where P = "?opened fds"]) (auto simp: extends_def intro!: only_for_each)
    then show ?thesis
      by (rule outcome_mono)
        (auto elim!: result_ok_mono intro: list_all2_trans [OF opened_and_read])
  qed
  have reaped: "outcome (\<not> waits_return k) k (and_then (reap child) (\<lambda>_. for_each read_calibration fds)) h (result_ok ?measured)"
    if "?opened fds h" for child fds h
    by (rule outcome_ok_and_then [OF outcome_keep [where P = "?opened fds", OF returns_reap run_extends(2) _ that]]) (simp_all add: reads)
  show ?thesis unfolding calibrate_both_def
    by (intro outcome_ok_and_then [OF returns_child] outcome_ok_and_then [OF opens])
      (simp add: outcome_and_then [of _ _ "call c" for c] outcome_call outcome_if outcome_die_errno
        reaped stableD [OF stable_list_all2])
qed

lemma period_of_rate:
  assumes "rate_reported max_rate h"
    and "list_all2 (\<lambda>pl rate. rate_measured pl rate h) pls rates"
    and "list_all2 (\<lambda>rate p. \<forall>c. usable_counts c \<longrightarrow> rate = rate_of c \<longrightarrow> period_for max_rate c p) rates ps"
  shows "\<exists>max_rate. rate_reported max_rate h \<and>
    list_all2 (\<lambda>pl p. \<exists>c. calibrated_counts pl c h \<and> period_for max_rate c p) pls ps"
proof -
  have "\<exists>c. calibrated_counts pl c h \<and> period_for max_rate c p"
    if "rate_measured pl rate h" "\<forall>c. usable_counts c \<longrightarrow> rate = rate_of c \<longrightarrow> period_for max_rate c p"
    for pl rate p
    using that unfolding rate_measured_def by blast
  then have "list_all2 (\<lambda>pl p. \<exists>c. calibrated_counts pl c h \<and> period_for max_rate c p) pls ps"
    by (rule list_all2_trans [OF _ assms(2,3)])
  with assms(1) show ?thesis by blast
qed

lemma choose_periods_outcome:
  "outcome (\<not> waits_return k) k (choose_periods None argv) h
     (result_ok (\<lambda>ps h'. \<exists>max_rate. rate_reported max_rate h' \<and>
        list_all2 (\<lambda>pl p. \<exists>c. calibrated_counts pl c h' \<and> period_for max_rate c p) plans ps))"
proof -
  let ?measured = "\<lambda>rates h. list_all2 (\<lambda>pl rate. rate_measured pl rate h) plans rates"
  let ?goal = "\<lambda>ps h'. \<exists>max_rate. rate_reported max_rate h' \<and>
    list_all2 (\<lambda>pl p. \<exists>c. calibrated_counts pl c h' \<and> period_for max_rate c p) plans ps"
  let ?period = "\<lambda>max_rate rate p. \<forall>c. usable_counts c \<longrightarrow> rate = rate_of c \<longrightarrow> period_for max_rate c p"
  have periods: "outcome (\<not> waits_return k) k (for_each (calibrated_period max_rate) rates) h (result_ok ?goal)"
    if S: "rate_reported max_rate h \<and> ?measured rates h" for max_rate rates h
  proof -
    let ?S = "\<lambda>h. rate_reported max_rate h \<and> ?measured rates h"
    have stable_S: "stable ?S" by simp
    have one: "outcome (\<not> waits_return k) k (calibrated_period max_rate rate) h (result_ok (\<lambda>p _. ?period max_rate rate p))"
      if rate: "rate \<in> set rates" "?S h" for rate h
    proof -
      obtain c where c: "usable_counts c \<and> rate = rate_of c"
        using rate by (auto simp: list_all2_conv_all_nth in_set_conv_nth rate_measured_def)
      have "outcome (\<not> waits_return k) k (calibrated_period max_rate rate) h
          (result_ok (\<lambda>p _. \<forall>c. usable_counts c \<and> rate = rate_of c \<longrightarrow> period_for max_rate c p))"
        by (rule outcome_ok_all [where P = "\<lambda>c. usable_counts c \<and> rate = rate_of c", OF c]) (simp add: calibrated_period_outcome)
      then show ?thesis by (rule outcome_mono) (auto elim: result_ok_mono)
    qed
    have "outcome (\<not> waits_return k) k (for_each (calibrated_period max_rate) rates) h
        (result_ok (\<lambda>ps _. list_all2 (?period max_rate) rates ps))"
      by (rule outcome_ok_for_each [where S = ?S])
        (use one run_extends stable_S S in \<open>simp_all\<close>)
    then have "outcome (\<not> waits_return k) k (for_each (calibrated_period max_rate) rates) h
        (result_ok (\<lambda>ps h'. ?S h' \<and> list_all2 (?period max_rate) rates ps))"
      using run_extends S stable_S
      by (intro outcome_keep [where P = ?S]) (auto simp: extends_def intro!: only_for_each)
    then show ?thesis
      by (rule outcome_mono) (auto elim!: result_ok_mono period_of_rate)
  qed
  have rates: "outcome (\<not> waits_return k) k (calibrate_both plans argv) h
      (result_ok (\<lambda>rates h'. rate_reported max_rate h' \<and> ?measured rates h'))"
    if "rate_reported max_rate h" for max_rate h
    by (rule outcome_keep [where P = "rate_reported max_rate"])
      (simp_all add: calibrate_both_outcome run_extends that)
  show ?thesis unfolding choose_periods_def option.case
    by (rule outcome_ok_and_then [OF read_max_rate_outcome], rule outcome_ok_and_then [OF rates])
      (assumption, rule periods)
qed

section \<open>Properties\<close>

text \<open>
  A kernel on which everything works: the target runs for a second and exits, each event
  counts 16 times, at most 10 samples a second are allowed.
\<close>

definition quiet_kernel :: kernel where
  "quiet_kernel h c =
     (case c of
        Fopen _ \<Rightarrow> no_reply\<lparr>r_ret := 1\<rparr>
      | Fscanf_Long \<Rightarrow> no_reply\<lparr>r_ret := 1, r_value := 10\<rparr>
      | Fork \<Rightarrow> no_reply\<lparr>r_ret := 7\<rparr>
      | Waitpid _ Untraced \<Rightarrow> no_reply\<lparr>r_ret := 7, r_status := 0x137f\<rparr>
      | Waitpid _ _ \<Rightarrow> no_reply\<lparr>r_ret := 7, r_status := status_exited 0\<rparr>
      | Perf_Event_Open _ _ _ _ _ \<Rightarrow> no_reply\<lparr>r_ret := 3\<rparr>
      | Page_Size \<Rightarrow> no_reply\<lparr>r_ret := 4096\<rparr>
      | Mmap _ _ \<Rightarrow> no_reply\<lparr>r_base := 0x10000, r_data_size := 64\<rparr>
      | Read_Counts _ \<Rightarrow> no_reply\<lparr>r_ret := 24,
          r_counts := \<lparr>cr_value = 16, time_enabled = 1000000000, time_running = 1000000000\<rparr>\<rparr>
      | _ \<Rightarrow> no_reply)"

lemma quiet_period: "to_uint64 (fl (fl (16 / target_rate 10) + 0.5)) = Some 3"
proof -
  define q where "q = fl (16 / target_rate 10)"
  have "near 1 (fl 0.60) 0.60" "near 1 (fl 10) 10"
    using near_fl [OF near_refl [of "0.60"]] near_fl [OF near_refl [of 10]] by simp_all
  from near_fl [OF near_mult [OF this]] have "near 3 (target_rate 10) (0.60 * 10)"
    unfolding target_rate_def of_int_numeral by (rule near_mono) simp_all
  from near_fl [OF near_divide [OF near_refl [of 16] this]] have "near 4 q (16 / (0.60 * 10))"
    unfolding q_def by simp
  then have "\<bar>q - 16 / (0.60 * 10)\<bar> \<le> (real 4 + 1) * uro * (16 / (0.60 * 10))" by (rule near_error) simp
  then have "\<bar>q - 8 / 3\<bar> \<le> 40 / 3 * uro" by simp
  note abs_le_D1 [OF this] abs_le_D2 [OF this]
  then have q: "2.6 < q" "q < 2.7" using uro_bounds by simp_all
  have "\<bar>fl (q + 0.5) - (q + 0.5)\<bar> \<le> uro * \<bar>q + 0.5\<bar>" by (rule fl_error)
  also have "\<dots> \<le> uro * 4" using q uro_bounds by (intro mult_left_mono) simp_all
  finally have "\<bar>fl (q + 0.5) - (q + 0.5)\<bar> \<le> uro * 4" .
  note abs_le_D1 [OF this] abs_le_D2 [OF this]
  then have x: "3 < fl (q + 0.5)" "fl (q + 0.5) < 3.3" using q uro_bounds by simp_all
  then have "\<lfloor>fl (q + 0.5)\<rfloor> = 3" by (simp add: floor_eq_iff)
  with x show ?thesis by (simp add: to_uint64_def q_def [symmetric])
qed

lemma fl_numerals: "fl (numeral n) = numeral n" if "(numeral n :: nat) < 2 ^ 53"
  using fl_nat [OF that] by simp

lemma quiet_periods: "\<exists>h'. choose_periods None argv quiet_kernel [] = Some (Inr [3, 3], h')"
proof -
  have prime: "nearest_prime 3 = Some 3"
    by (simp add: nearest_prime_def Let_def nearest_loop.simps is_prime_def is_prime_loop.simps)
  have counts: "double_of 16 = 16" "double_of 1000000000 = 1000000000"
    by (simp_all add: double_of_def fl_numerals)
  have usable: "\<not> 1 < fl (99 / 100)" using fl_le_1 [of "99 / 100"] by simp
  show ?thesis
    by (simp add: choose_periods_def and_then_def call_def waiting_call_def return_def read_max_rate_def calibrate_both_def
        fork_stop_exec_def open_plan_def open_counting_def perf_event_open_def reap_def read_calibration_def plans_def
        calibrated_period_def pure_def quiet_kernel_def no_reply_def sizeof_counts_def WIFSTOPPED_def
        counts fl_numerals usable quiet_period [simplified] prime)
qed

text \<open>On any kernel the computed quotient is close to the exact one.\<close>

lemma quotient_error:
  assumes "usable_counts c" "0 < max_rate"
  shows "\<bar>computed_quotient max_rate c - exact_quotient max_rate c\<bar> \<le> exact_quotient max_rate c / 2 ^ 49"
proof -
  have "0 < fl 0.99" by (rule fl_pos) simp
  then have "fl (double_of (time_running c) / double_of (time_enabled c)) \<noteq> 0"
    using assms(1) by (auto simp: usable_counts_def)
  then have "time_running c \<noteq> 0" by (auto simp: double_of_def)
  then have t: "0 < to_double (time_running c)" by simp
  have wall: "near 2 (fl (double_of (time_running c) / 10 ^ 9)) (to_double (time_running c) / 10 ^ 9)"
    by (rule near_mono [OF near_fl [OF near_divide [OF near_double_of near_refl]]]) simp_all
  have rate: "near 4 (rate_of c) (to_double (cr_value c) / (to_double (time_running c) / 10 ^ 9))"
    unfolding rate_of_def
    by (rule near_mono [OF near_fl [OF near_divide [OF near_double_of wall]]]) (use t in simp_all)
  have m: "0 < real_of_int max_rate" using assms(2) by simp
  have a: "near 1 (fl 0.60) 0.60" and b: "near 1 (fl (real_of_int max_rate)) (real_of_int max_rate)"
    using near_fl [OF near_refl [of "0.60"]] near_fl [OF near_refl [of "real_of_int max_rate"]] m by simp_all
  have target: "near 3 (target_rate max_rate) (0.60 * real_of_int max_rate)"
    unfolding target_rate_def by (rule near_mono [OF near_fl [OF near_mult [OF a b]]]) simp
  have e: "near 8 (computed_quotient max_rate c) (exact_quotient max_rate c)"
    unfolding computed_quotient_def exact_quotient_def
    by (rule near_mono [OF near_fl [OF near_divide [OF rate target]]]) (use m in simp_all)
  then have "0 \<le> exact_quotient max_rate c" by (simp add: near_def)
  with near_error [OF e] show ?thesis by (simp add: uro_def)
qed

text \<open>
  C8: Calibration comes to an end if its waits for the target do, that is, if the
  target stops and exits. Whenever it succeeds, each period is a prime, found from
  armed and unmultiplexed counts of the event it is for: the events per sample at 60
  percent of the sample rate that the kernel reported, computed in double arithmetic to
  within 2^-49 of the exact quotient, then rounded to the nearest integer (at least 2),
  then the nearest prime to that integer, for integers below 2^62.
\<close>

theorem calibrated_periods_are_nearest_primes:
  "(waits_return k \<longrightarrow> (\<exists>r h'. choose_periods None argv k h = Some (r, h'))) \<and>
   (\<forall>ps h'. choose_periods None argv k h = Some (Inr ps, h') \<longrightarrow>
      (\<exists>max_rate. rate_reported max_rate h' \<and>
        list_all2 (\<lambda>pl p. \<exists>c. calibrated_counts pl c h' \<and> period_for max_rate c p \<and>
          \<bar>computed_quotient max_rate c - exact_quotient max_rate c\<bar> \<le> exact_quotient max_rate c / 2 ^ 49)
          plans ps))"
proof (intro conjI impI allI)
  show "\<exists>r h'. choose_periods None argv k h = Some (r, h')" if "waits_return k"
    using outcome_returns choose_periods_outcome [of k argv h] that by fastforce
next
  fix ps h' assume run: "choose_periods None argv k h = Some (Inr ps, h')"
  obtain max_rate where m: "rate_reported max_rate h'"
      "list_all2 (\<lambda>pl p. \<exists>c. calibrated_counts pl c h' \<and> period_for max_rate c p) plans ps"
    using outcomeD [OF choose_periods_outcome run] by auto
  have "0 < max_rate" using m(1) by (simp add: rate_reported_def)
  then have "list_all2 (\<lambda>pl p. \<exists>c. calibrated_counts pl c h' \<and> period_for max_rate c p \<and>
      \<bar>computed_quotient max_rate c - exact_quotient max_rate c\<bar> \<le> exact_quotient max_rate c / 2 ^ 49) plans ps"
    by (intro list_all2_mono [OF m(2)]) (use quotient_error in \<open>auto simp: period_for_def\<close>)
  with m(1) show "\<exists>max_rate. rate_reported max_rate h' \<and>
      list_all2 (\<lambda>pl p. \<exists>c. calibrated_counts pl c h' \<and> period_for max_rate c p \<and>
        \<bar>computed_quotient max_rate c - exact_quotient max_rate c\<bar> \<le> exact_quotient max_rate c / 2 ^ 49)
        plans ps" by blast
qed

theorem calibrated_periods_are_nearest_primes_witness:
  "\<exists>h' max_rate. choose_periods None [''./a''] quiet_kernel [] = Some (Inr [3, 3], h') \<and>
     rate_reported max_rate h' \<and>
     list_all2 (\<lambda>pl p. \<exists>c. calibrated_counts pl c h' \<and> period_for max_rate c p) plans [3, 3]"
proof -
  obtain h' where run: "choose_periods None [''./a''] quiet_kernel [] = Some (Inr [3, 3], h')"
    using quiet_periods by blast
  with calibrated_periods_are_nearest_primes [of quiet_kernel "[''./a'']" "[]"]
  obtain max_rate where m: "rate_reported max_rate h'"
      "list_all2 (\<lambda>pl p. \<exists>c. calibrated_counts pl c h' \<and> period_for max_rate c p \<and>
          \<bar>computed_quotient max_rate c - exact_quotient max_rate c\<bar> \<le> exact_quotient max_rate c / 2 ^ 49)
          plans [3, 3]" by blast
  have "list_all2 (\<lambda>pl p. \<exists>c. calibrated_counts pl c h' \<and> period_for max_rate c p) plans [3, 3]"
    by (rule list_all2_mono [OF m(2)]) blast
  with run m(1) show ?thesis by blast
qed

end
