(* ===== verification/Measurement.thy ===== *)
theory Measurement
  imports Calibration
begin

text \<open>
  The measurement run of \<open>main\<close> in \<open>src/main.cpp\<close>: start the target stopped, open one
  sampling event per event and CPU, let it go, drain the rings while it runs, drain them
  once more when it has exited, and read and release the events. The rings are in one list
  in the order of the two loops, event by event and CPU by CPU, which is also the order of
  \<open>pfd\<close>.
\<close>

section \<open>The code\<close>

type_synonym sampled_plan = "event_plan \<times> u64"

text \<open>The iterations of \<open>for i, for c\<close>.\<close>

definition grid :: "nat \<Rightarrow> sampled_plan list \<Rightarrow> (sampled_plan \<times> nat) list" where
  "grid nr_cpus sps = List.product sps [0..<nr_cpus]"

definition labels :: "nat \<Rightarrow> sampled_plan list \<Rightarrow> string list" where
  "labels nr_cpus sps = map (\<lambda>((pl, period), c). ring_label (plan_label pl) (int c)) (grid nr_cpus sps)"

definition open_cell :: "int \<Rightarrow> sampled_plan \<times> nat \<Rightarrow> sampling_event run" where
  "open_cell child = (\<lambda>((pl, period), c). open_sampling (hw_config pl) period child (int c))"

definition POLLIN :: u16 where "POLLIN = 1"
definition POLLERR :: u16 where "POLLERR = 8"
definition POLLHUP :: u16 where "POLLHUP = 16"

definition ready :: "u16 \<Rightarrow> bool" where
  "ready revents \<longleftrightarrow> and revents (or (or POLLIN POLLHUP) POLLERR) \<noteq> 0"

definition drain_if_ready :: "(string \<times> sampling_event) \<times> u16 \<Rightarrow> sampling_event run" where
  "drain_if_ready = (\<lambda>((label, ev), revents). if ready revents then drain_event label ev else return ev)"

record poll_state =
  po_events :: "sampling_event list"
  drain_iter_ns :: "int list"

definition note_drain_time :: "bool \<Rightarrow> reply \<Rightarrow> int list \<Rightarrow> int list run" where
  "note_drain_time drained_any t0 iter_ns =
     (if drained_any
      then and_then (call Steady_Clock) (\<lambda>t1. return (iter_ns @ [r_clock t1 - r_clock t0]))
      else return iter_ns)"

text \<open>
  One iteration of the loop, with the status of the child if it has exited. The \<open>revents\<close> are
  whatever \<open>poll\<close> has left there, also when it was interrupted.
\<close>

definition drain_round ::
  "string list \<Rightarrow> int \<Rightarrow> poll_state \<Rightarrow> u16 list \<Rightarrow> reply \<Rightarrow> (poll_state \<times> u32 option) run" where
  "drain_round lbls child s revents t0 =
     and_then (for_each drain_if_ready (zip (zip lbls (po_events s)) revents)) (\<lambda>evs.
       and_then (note_drain_time (list_ex ready revents) t0 (drain_iter_ns s)) (\<lambda>iter_ns.
         and_then (call (Waitpid child No_Hang)) (\<lambda>w.
           if r_ret w < 0 then die_errno ''waitpid (drain loop)'' w
           else return (\<lparr>po_events = evs, drain_iter_ns = iter_ns\<rparr>,
                        if r_ret w = child then Some (r_status w) else None))))"

definition poll_round :: "string list \<Rightarrow> int \<Rightarrow> poll_state \<Rightarrow> (poll_state \<times> u32 option) run" where
  "poll_round lbls child s =
     and_then (call (Poll (map ev_fd (po_events s)))) (\<lambda>p.
       if r_ret p < 0 \<and> r_errno p \<noteq> EINTR then die_errno ''poll(perf fds)'' p
       else
         (let revents = map (r_revents p) [0..<length (po_events s)]
          in and_then (call Steady_Clock) (\<lambda>t0. drain_round lbls child s revents t0)))"

partial_function (option) poll_loop ::
  "string list \<Rightarrow> int \<Rightarrow> poll_state \<Rightarrow> kernel \<Rightarrow> history \<Rightarrow> ((stop + poll_state \<times> u32) \<times> history) option" where
  "poll_loop lbls child s k h =
     Option.bind (poll_round lbls child s k h) (\<lambda>(r, h').
       case r of
         Inl e \<Rightarrow> Some (Inl e, h')
       | Inr (s', exited) \<Rightarrow>
           (case exited of
              Some status \<Rightarrow> Some (Inr (s', status), h')
            | None \<Rightarrow> poll_loop lbls child s' k h'))"

text \<open>Before \<open>SIGCONT\<close>: the stopped child and the open rings.\<close>

definition start_target :: "nat \<Rightarrow> sampled_plan list \<Rightarrow> string list \<Rightarrow> (int \<times> sampling_event list) run" where
  "start_target nr_cpus sps target_argv =
     and_then (fork_stop_exec target_argv) (\<lambda>child.
       and_then (for_each (open_cell child) (grid nr_cpus sps)) (\<lambda>evs. return (child, evs)))"

text \<open>After it: the poll loop, the final drains, the exit code, and the counts.\<close>

definition watch_target ::
  "string list \<Rightarrow> int \<Rightarrow> sampling_event list \<Rightarrow> (sampling_event list \<times> int list \<times> int) run" where
  "watch_target lbls child evs =
     and_then (poll_loop lbls child
         \<lparr>po_events = evs, drain_iter_ns = []\<rparr>) (\<lambda>(s, status).
       and_then (for_each (\<lambda>(label, ev). drain_event label ev) (zip lbls (po_events s))) (\<lambda>evs.
         and_then (for_each finish_sampling evs) (\<lambda>evs.
           return (evs, drain_iter_ns s, exit_code_of status))))"

definition measure_target ::
  "nat \<Rightarrow> sampled_plan list \<Rightarrow> string list \<Rightarrow> (sampling_event list \<times> int list \<times> int) run" where
  "measure_target nr_cpus sps target_argv =
     and_then (start_target nr_cpus sps target_argv) (\<lambda>(child, evs).
       and_then (call (Kill_Sigcont child)) (\<lambda>s.
         if r_ret s \<noteq> 0 then die_errno ''kill(SIGCONT)'' s
         else watch_target (labels nr_cpus sps) child evs))"

lemma length_labels [simp]: "length (labels nr_cpus sps) = length (grid nr_cpus sps)"
  by (simp add: labels_def)

section \<open>Invariants of the loop and of the run\<close>

lemma poll_loop_invariant:
  assumes "\<And>s. I s \<Longrightarrow> does k (poll_round lbls child s) (\<lambda>r t. P t \<and> (\<forall>s' x. r = Inr (s', x) \<longrightarrow> I s'))"
    and "\<And>t t'. P t \<Longrightarrow> P t' \<Longrightarrow> P (t @ t')" "I s"
  shows "does k (poll_loop lbls child s) (\<lambda>r t. P t \<and> (\<forall>s' status. r = Inr (s', status) \<longrightarrow> I s'))"
proof -
  have "\<exists>t. h' = h @ t \<and> P t \<and> (\<forall>s' status. r = Inr (s', status) \<longrightarrow> I s')"
    if ret: "poll_loop lbls child s k h = Some (r, h')" for h r h'
  proof -
    let ?ok = "\<lambda>h x. \<exists>t. snd x = h @ t \<and> P t \<and> (\<forall>s' status. fst x = Inr (s', status) \<longrightarrow> I s')"
    have "lbls = lbls \<longrightarrow> child = child \<longrightarrow> k = k \<longrightarrow> I s \<longrightarrow> ?ok h (r, h')"
    proof (rule poll_loop.raw_induct [where P = "\<lambda>lbls' child' s k' h x. lbls' = lbls \<longrightarrow> child' = child \<longrightarrow> k' = k \<longrightarrow>
        I s \<longrightarrow> ?ok h x", OF _ ret], intro impI)
      fix loop lbls' child' s k' h x
      assume IH: "\<And>lbls' child' s k' h x. loop lbls' child' s k' h = Some x \<Longrightarrow>
            lbls' = lbls \<longrightarrow> child' = child \<longrightarrow> k' = k \<longrightarrow> I s \<longrightarrow> ?ok h x"
        and body: "Option.bind (poll_round lbls' child' s k' h) (\<lambda>(r, h').
            case r of Inl e \<Rightarrow> Some (Inl e, h')
            | Inr (s', exited) \<Rightarrow> (case exited of Some status \<Rightarrow> Some (Inr (s', status), h')
                                  | None \<Rightarrow> loop lbls' child' s' k' h')) = Some x"
        and eqs: "lbls' = lbls" "child' = child" "k' = k" and s: "I s"
      from body obtain r1 h1 where round: "poll_round lbls child s k h = Some (r1, h1)"
        unfolding eqs by (cases "poll_round lbls child s k h") auto
      from doesD [OF assms(1) [OF s] round] obtain t1 where
        t1: "h1 = h @ t1" "P t1" "\<forall>s' x. r1 = Inr (s', x) \<longrightarrow> I s'" by blast
      show "?ok h x"
      proof (cases "\<exists>s'. r1 = Inr (s', None)")
        case True
        then obtain s' where s': "r1 = Inr (s', None)" by blast
        with body round eqs have "loop lbls child s' k h1 = Some x" by simp
        from IH [OF this] t1 s' obtain t2 where "snd x = h1 @ t2" "P t2"
          "\<forall>s' status. fst x = Inr (s', status) \<longrightarrow> I s'" by auto
        with t1 assms(2) show ?thesis by (intro exI [of _ "t1 @ t2"]) simp
      next
        case False
        with body round t1 eqs show ?thesis
          by (intro exI [of _ t1]) (auto split: sum.splits option.splits)
      qed
    qed
    with assms(3) show ?thesis by simp
  qed
  then show ?thesis unfolding does_def by blast
qed

text \<open>A property that fresh events have and that drains and the final read keep.\<close>

lemma does_for_each_set:
  assumes "\<And>x. x \<in> set xs \<Longrightarrow> does k (f x) (\<lambda>r t. \<forall>y. r = Inr y \<longrightarrow> H y)"
  shows "does k (for_each f xs) (\<lambda>r t. \<forall>ys. r = Inr ys \<longrightarrow> (\<forall>y\<in>set ys. H y))"
  by (rule does_mono [OF does_for_each_all2 [where P = "\<lambda>_. True" and R = "\<lambda>_. H"]])
    (use assms in \<open>auto simp: list_all2_conv_all_nth in_set_conv_nth\<close>)

lemma set_zip_rightD: "x \<in> set (zip as bs) \<Longrightarrow> snd x \<in> set bs"
  by (cases x) (auto dest: set_zip_rightD)

lemma set_zip_middleD: "x \<in> set (zip (zip as bs) cs) \<Longrightarrow> snd (fst x) \<in> set bs"
  by (rule set_zip_rightD [of "fst x" as bs]) (cases x, auto dest: set_zip_leftD)

lemma does_note_drain_time: "does k (note_drain_time b t0 iter) (\<lambda>r t. \<forall>e. r \<noteq> Inl e)"
  unfolding note_drain_time_def by (auto intro!: does_rules)

text \<open>
  A property of a ring that the three operations on it keep holds of all rings of a run.
\<close>

locale ring_invariant =
  fixes H :: "sampling_event \<Rightarrow> bool"
  assumes opened: "does k (open_cell child cell) (\<lambda>r t. \<forall>ev. r = Inr ev \<longrightarrow> H ev)"
    and drained: "H ev \<Longrightarrow> does k (drain_event label ev) (\<lambda>r t. \<forall>ev'. r = Inr ev' \<longrightarrow> H ev')"
    and finished: "H ev \<Longrightarrow> does k (finish_sampling ev) (\<lambda>r t. \<forall>ev'. r = Inr ev' \<longrightarrow> H ev')"
begin

lemma ready_drained:
  "H (snd (fst x)) \<Longrightarrow> does k (drain_if_ready x) (\<lambda>r t. \<forall>ev'. r = Inr ev' \<longrightarrow> H ev')"
  unfolding drain_if_ready_def by (cases x, cases "fst x") (auto intro!: does_rules drained)

lemma poll_round_keeps:
  assumes "\<forall>ev\<in>set (po_events s). H ev"
  shows "does k (poll_round lbls child s)
    (\<lambda>r t. True \<and> (\<forall>s' x. r = Inr (s', x) \<longrightarrow> (\<forall>ev\<in>set (po_events s'). H ev)))"
proof -
  have each: "does k (for_each drain_if_ready (zip (zip lbls (po_events s)) revents))
      (\<lambda>r t. \<forall>ys. r = Inr ys \<longrightarrow> (\<forall>ev\<in>set ys. H ev))" for revents
    by (rule does_for_each_set, rule ready_drained) (use assms in \<open>auto dest: set_zip_middleD\<close>)
  have round: "does k (drain_round lbls child s revents t0)
      (\<lambda>r t. \<forall>s' x. r = Inr (s', x) \<longrightarrow> (\<forall>ev\<in>set (po_events s'). H ev))" for revents t0
    unfolding drain_round_def
    by (rule does_and_then [OF each], simp, rule does_and_then [OF does_note_drain_time], simp)
      (auto intro!: does_rules)
  show ?thesis unfolding poll_round_def simp_thms
    by (intro does_rules round) auto
qed

lemma start_keeps:
  "does k (start_target nr_cpus sps argv) (\<lambda>r t. \<forall>child evs. r = Inr (child, evs) \<longrightarrow> (\<forall>ev\<in>set evs. H ev))"
  unfolding start_target_def
  by (rule does_and_then [OF does_only [where P = "\<lambda>_. True"]], unfold fork_stop_exec_def child_side_def,
      intro only_rules TrueI, simp, rule does_and_then [OF does_for_each_set [where H = H]], rule opened)
    (auto intro!: does_rules)

lemma poll_loop_keeps:
  "\<forall>ev\<in>set (po_events s). H ev \<Longrightarrow> does k (poll_loop lbls child s)
     (\<lambda>r t. True \<and> (\<forall>s' status. r = Inr (s', status) \<longrightarrow> (\<forall>ev\<in>set (po_events s'). H ev)))"
  by (rule poll_loop_invariant [where I = "\<lambda>s. \<forall>ev\<in>set (po_events s). H ev", OF poll_round_keeps]) auto

lemma watch_keeps:
  assumes "\<forall>ev\<in>set evs. H ev"
  shows "does k (watch_target lbls child evs)
    (\<lambda>r t. \<forall>evs iter code. r = Inr (evs, iter, code) \<longrightarrow> (\<forall>ev\<in>set evs. H ev))"
proof -
  have final: "does k (for_each (\<lambda>(label, ev). drain_event label ev) (zip lbls evs))
      (\<lambda>r t. \<forall>ys. r = Inr ys \<longrightarrow> (\<forall>ev\<in>set ys. H ev))" if "\<forall>ev\<in>set evs. H ev" for evs
    by (rule does_for_each_set) (use that in \<open>auto intro!: drained dest: set_zip_rightD\<close>)
  have finish: "does k (for_each finish_sampling evs) (\<lambda>r t. \<forall>ys. r = Inr ys \<longrightarrow> (\<forall>ev\<in>set ys. H ev))"
    if "\<forall>ev\<in>set evs. H ev" for evs
    by (rule does_for_each_set) (use that in \<open>auto intro!: finished\<close>)
  show ?thesis unfolding watch_target_def
    by (rule does_and_then [OF poll_loop_keeps], simp add: assms, simp, rule does_case_prod,
        rule does_and_then [OF final], simp, simp, rule does_and_then [OF finish])
      (auto intro!: does_return)
qed

lemma measured:
  "does k (measure_target nr_cpus sps argv)
    (\<lambda>r t. \<forall>evs iter code. r = Inr (evs, iter, code) \<longrightarrow> (\<forall>ev\<in>set evs. H ev))"
  unfolding measure_target_def
  by (rule does_and_then [OF start_keeps], simp, rule does_case_prod, rule does_call_then, rule does_if)
    (auto intro: does_die does_mono [OF watch_keeps])

end

section \<open>Labels\<close>

lemma distinct_product_labels:
  assumes "distinct (map plan_label pls)" "length ps = length pls"
    and "\<And>a b i j. a \<in> set pls \<Longrightarrow> b \<in> set pls \<Longrightarrow> ring_label (plan_label a) i = ring_label (plan_label b) j \<Longrightarrow> plan_label a = plan_label b"
  shows "distinct (labels n (zip pls ps))"
proof -
  let ?f = "\<lambda>((pl, period), c). ring_label (plan_label pl) (int c)"
  have same: "x = y" if "x \<in> set (zip pls ps)" "y \<in> set (zip pls ps)" "plan_label (fst x) = plan_label (fst y)" for x y
  proof -
    from that(1,2) obtain i j where ij: "i < length pls" "j < length pls" "x = (pls ! i, ps ! i)" "y = (pls ! j, ps ! j)"
      using assms(2) by (auto simp: set_zip)
    with that(3) have "i = j" using nth_eq_iff_index_eq [OF assms(1), of i j] by simp
    with ij show ?thesis by simp
  qed
  have "inj_on ?f (set (grid n (zip pls ps)))"
  proof (rule inj_onI)
    fix x y assume xy: "x \<in> set (grid n (zip pls ps))" "y \<in> set (grid n (zip pls ps))" "?f x = ?f y"
    obtain a p i b q j where eq: "x = ((a, p), i)" "y = ((b, q), j)" by (metis prod.exhaust)
    have mem: "(a, p) \<in> set (zip pls ps)" "(b, q) \<in> set (zip pls ps)" using xy(1,2) eq by (auto simp: grid_def)
    have lab: "ring_label (plan_label a) (int i) = ring_label (plan_label b) (int j)" using xy(3) eq by simp
    have l: "plan_label a = plan_label b"
      by (rule assms(3) [OF _ _ lab]) (use mem in \<open>auto dest: set_zip_leftD\<close>)
    with lab have "i = j" by (simp add: ring_label_inj)
    with same [OF mem] l eq show "x = y" by simp
  qed
  moreover have "distinct (grid n (zip pls ps))"
    using assms(1) unfolding grid_def by (intro distinct_product distinct_zipI1) (simp_all add: distinct_map)
  ultimately show ?thesis unfolding labels_def by (simp add: distinct_map)
qed

theorem ring_labels_identify_rings:
  "distinct (labels n (zip plans [p, q])) \<and> length (labels n (zip plans [p, q])) = 2 * n"
proof
  show "distinct (labels n (zip plans [p, q]))"
    by (rule distinct_product_labels) (auto simp: plans_def ring_label_def)
  show "length (labels n (zip plans [p, q])) = 2 * n" by (simp add: grid_def plans_def)
qed

end
