(* ===== verification/Event_Lifecycle.thy ===== *)
theory Event_Lifecycle
  imports Measurement
begin

text \<open>
  What the measurement run does to the kernel's objects, on every kernel: all events are
  open before the target runs, and a run that succeeds has read, unmapped and closed each
  of them once.
\<close>

section \<open>What a history says\<close>

definition event_opened :: "syscall \<times> reply \<Rightarrow> (perf_attr \<times> int \<times> int \<times> int) list" where
  "event_opened x = (case x of (Perf_Event_Open attr pid cpu group_fd _, r) \<Rightarrow> if 0 \<le> r_ret r then [(attr, pid, cpu, group_fd)] else [] | _ \<Rightarrow> [])"

definition fd_opened :: "syscall \<times> reply \<Rightarrow> int list" where
  "fd_opened x = (case x of (Perf_Event_Open _ _ _ _ _, r) \<Rightarrow> if 0 \<le> r_ret r then [r_ret r] else [] | _ \<Rightarrow> [])"

definition fd_read :: "syscall \<times> reply \<Rightarrow> int list" where
  "fd_read x = (case x of (Read_Counts fd, _) \<Rightarrow> [fd] | _ \<Rightarrow> [])"

definition fd_closed :: "syscall \<times> reply \<Rightarrow> int list" where
  "fd_closed x = (case x of (Close fd, _) \<Rightarrow> [fd] | _ \<Rightarrow> [])"

definition ring_mapped :: "syscall \<times> reply \<Rightarrow> (u64 \<times> u64) list" where
  "ring_mapped x = (case x of (Mmap _ len, r) \<Rightarrow> if r_base r = MAP_FAILED then [] else [(r_base r, len)] | _ \<Rightarrow> [])"

definition ring_unmapped :: "syscall \<times> reply \<Rightarrow> (u64 \<times> u64) list" where
  "ring_unmapped x = (case x of (Munmap base len, _) \<Rightarrow> [(base, len)] | _ \<Rightarrow> [])"

text \<open>The counts that \<open>read\<close> returned, and the rings with the descriptors they were mapped from.\<close>

definition counts_read :: "syscall \<times> reply \<Rightarrow> count_read_format list" where
  "counts_read x = (case x of (Read_Counts _, r) \<Rightarrow> [r_counts r] | _ \<Rightarrow> [])"

definition ring_backed :: "syscall \<times> reply \<Rightarrow> (int \<times> u64) list" where
  "ring_backed x = (case x of
       (Mmap fd _, r) \<Rightarrow> if r_base r = MAP_FAILED then [] else [(fd, r_base r)]
     | _ \<Rightarrow> [])"

lemmas events_defs = event_opened_def fd_opened_def fd_read_def fd_closed_def ring_mapped_def ring_unmapped_def
  counts_read_def ring_backed_def

definition starts_target :: "syscall \<Rightarrow> bool" where
  "starts_target c \<longleftrightarrow> (\<exists>pid. c = Kill_Sigcont pid)"

definition opens_event :: "syscall \<Rightarrow> bool" where
  "opens_event c \<longleftrightarrow> (\<exists>attr pid cpu group_fd flags. c = Perf_Event_Open attr pid cpu group_fd flags)"

text \<open>The part of an event that stays the same from \<open>open_sampling\<close> to \<open>finish_sampling\<close>.\<close>

definition ring_id :: "sampling_event \<Rightarrow> int \<times> (u64 \<times> u64) \<times> int \<times> u64" where
  "ring_id ev = (ev_fd ev, (mmap_base ev, mmap_len ev), ev_cpu ev, requested_period ev)"

text \<open>The event of a cell of the grid: its CPU, and the period of its plan.\<close>

definition opened_for :: "sampled_plan \<times> nat \<Rightarrow> sampling_event \<Rightarrow> bool" where
  "opened_for = (\<lambda>((pl, period), c) ev. ev_cpu ev = int c \<and> requested_period ev = period)"

lemma opened_for_ring_id: "ring_id ev' = ring_id ev \<Longrightarrow> opened_for cell ev' = opened_for cell ev"
  by (cases cell, cases "fst cell") (simp add: ring_id_def opened_for_def)

section \<open>The operations\<close>

text \<open>Calls that neither start the target nor open, map or release an event.\<close>

fun quiet :: "syscall \<Rightarrow> bool" where
  "quiet (Perf_Event_Open _ _ _ _ _) = False"
| "quiet (Kill_Sigcont _) = False"
| "quiet (Read_Counts _) = False"
| "quiet (Close _) = False"
| "quiet (Mmap _ _) = False"
| "quiet (Munmap _ _) = False"
| "quiet _ = True"

definition only_drains :: "history \<Rightarrow> bool" where
  "only_drains t \<longleftrightarrow> (\<forall>c\<in>set (calls t). quiet c)"

lemma only_drains_simps [simp]: "only_drains []" "only_drains (t @ t') \<longleftrightarrow> only_drains t \<and> only_drains t'"
  "only_drains ((c, r) # t) \<longleftrightarrow> quiet c \<and> only_drains t"
  by (auto simp: only_drains_def)

lemma quiet_events:
  "quiet c \<Longrightarrow> event_opened (c, r) = []" "quiet c \<Longrightarrow> fd_opened (c, r) = []" "quiet c \<Longrightarrow> fd_read (c, r) = []"
  "quiet c \<Longrightarrow> fd_closed (c, r) = []" "quiet c \<Longrightarrow> ring_mapped (c, r) = []" "quiet c \<Longrightarrow> ring_unmapped (c, r) = []"
  "quiet c \<Longrightarrow> counts_read (c, r) = []" "quiet c \<Longrightarrow> ring_backed (c, r) = []"
  "quiet c \<Longrightarrow> \<not> starts_target c" "quiet c \<Longrightarrow> \<not> opens_event c"
  by (cases c; simp add: events_defs starts_target_def opens_event_def)+

lemma only_drains_traces:
  assumes "only_drains t"
  shows "trace_of event_opened t = []" "trace_of fd_opened t = []" "trace_of fd_read t = []"
    "trace_of fd_closed t = []" "trace_of ring_mapped t = []" "trace_of ring_unmapped t = []"
    "\<forall>c\<in>set (calls t). \<not> starts_target c \<and> \<not> opens_event c"
    "trace_of counts_read t = []" "trace_of ring_backed t = []"
  using assms by (auto simp: only_drains_def quiet_events intro!: trace_of_empty)

lemma drain_event_does:
  "does k (drain_event label ev) (\<lambda>r t. only_drains t \<and> (\<forall>ev'. r = Inr ev' \<longrightarrow> ring_id ev' = ring_id ev))"
  unfolding drain_event_def by (intro does_rules) (auto simp: ring_id_def intro!: does_rules)

lemma nth_map_eq: "map f ys = map f xs \<Longrightarrow> i < length ys \<Longrightarrow> f (ys ! i) = f (xs ! i)"
  by (metis length_map nth_map)

definition same_rings :: "sampling_event list \<Rightarrow> sampling_event list \<Rightarrow> bool" where
  "same_rings evs evs' \<longleftrightarrow> map ring_id evs' = map ring_id evs"

lemma same_rings_length: "same_rings evs evs' \<Longrightarrow> length evs' = length evs"
  unfolding same_rings_def by (metis length_map)

lemma same_rings_all2: "list_all2 (\<lambda>ev ev'. ring_id ev' = ring_id ev) evs evs' \<longleftrightarrow> same_rings evs evs'"
  by (auto simp: same_rings_def list_all2_conv_all_nth list_eq_iff_nth_eq)

lemma same_rings_maps:
  assumes "same_rings evs evs'"
  shows "map ev_fd evs' = map ev_fd evs"
    and "map (\<lambda>ev. (mmap_base ev, mmap_len ev)) evs' = map (\<lambda>ev. (mmap_base ev, mmap_len ev)) evs"
  using arg_cong [OF assms [unfolded same_rings_def], of "map fst"]
    arg_cong [OF assms [unfolded same_rings_def], of "map (fst \<circ> snd)"]
  by (simp_all add: ring_id_def o_def)

lemma same_rings_opened:
  assumes "same_rings evs evs'" "list_all2 opened_for cells evs"
  shows "list_all2 opened_for cells evs'"
  using assms(2) same_rings_length [OF assms(1)]
    opened_for_ring_id [OF nth_map_eq [OF assms(1) [unfolded same_rings_def]]]
  by (simp add: list_all2_conv_all_nth)

lemma same_rings_backed:
  assumes "same_rings evs evs'"
  shows "map (\<lambda>ev. (ev_fd ev, mmap_base ev)) evs' = map (\<lambda>ev. (ev_fd ev, mmap_base ev)) evs"
  using arg_cong [OF assms [unfolded same_rings_def], of "map (\<lambda>x. (fst x, fst (fst (snd x))))"]
  by (simp add: ring_id_def o_def)

lemma same_rings_refl [simp]: "same_rings evs evs"
  by (simp add: same_rings_def)

lemma same_rings_trans: "same_rings a b \<Longrightarrow> same_rings b c \<Longrightarrow> same_rings a c"
  by (simp add: same_rings_def)

lemma drain_ready_does:
  "does k (drain_if_ready x) (\<lambda>r t. only_drains t \<and> (\<forall>ev'. r = Inr ev' \<longrightarrow> ring_id ev' = ring_id (snd (fst x))))"
  unfolding drain_if_ready_def
  by (cases x, cases "fst x") (auto intro!: does_rules does_mono [OF drain_event_does])

lemma all2_zip_fst:
  "length xs = length ys \<Longrightarrow> list_all2 (\<lambda>x z. R (snd x) z) (zip xs ys) zs \<longleftrightarrow> list_all2 R ys zs"
  by (auto simp: list_all2_conv_all_nth)

lemma all2_zip_zip:
  "length xs = length ys \<Longrightarrow> length ys = length ws \<Longrightarrow>
   list_all2 (\<lambda>x z. R (snd (fst x)) z) (zip (zip xs ys) ws) zs \<longleftrightarrow> list_all2 R ys zs"
  by (auto simp: list_all2_conv_all_nth)

lemma note_drain_time_does:
  "does k (note_drain_time drained t0 iter_ns) (\<lambda>r t. only_drains t \<and> (\<exists>iter. r = Inr iter))"
  unfolding note_drain_time_def by (auto intro!: does_rules)

text \<open>One round of the loop and the loop: nothing but drains, on the same rings.\<close>

definition keeps_rings :: "string list \<Rightarrow> sampling_event list \<Rightarrow> poll_state \<Rightarrow> bool" where
  "keeps_rings lbls evs s \<longleftrightarrow> same_rings evs (po_events s) \<and> length lbls = length (po_events s)"

lemma poll_round_does:
  assumes "keeps_rings lbls evs s"
  shows "does k (poll_round lbls child s)
    (\<lambda>r t. only_drains t \<and> (\<forall>s' x. r = Inr (s', x) \<longrightarrow> keeps_rings lbls evs s'))"
proof -
  have len: "length lbls = length (po_events s)"
    and same: "same_rings evs (po_events s)"
    using assms by (simp_all add: keeps_rings_def)
  have drains: "does k (for_each drain_if_ready (zip (zip lbls (po_events s)) revents))
      (\<lambda>r t. only_drains t \<and> (\<forall>evs'. r = Inr evs' \<longrightarrow> same_rings (po_events s) evs'))"
    if "length revents = length (po_events s)" for revents
    by (rule does_mono [OF does_for_each_all2 [where R = "\<lambda>x ev'. ring_id ev' = ring_id (snd (fst x))", OF drain_ready_does]])
      (use that len in \<open>simp_all add: all2_zip_zip [where R = "\<lambda>ev ev'. ring_id ev' = ring_id ev"] same_rings_all2\<close>)
  show ?thesis
    unfolding poll_round_def drain_round_def
    by (intro does_rules does_and_then [OF drains] does_and_then [OF note_drain_time_does])
      (auto simp: len keeps_rings_def dest: same_rings_length same_rings_trans [OF same] intro!: does_rules split: if_splits)
qed

lemma poll_loop_does:
  assumes "keeps_rings lbls evs s"
  shows "does k (poll_loop lbls child s)
    (\<lambda>r t. only_drains t \<and> (\<forall>s' status. r = Inr (s', status) \<longrightarrow> keeps_rings lbls evs s'))"
  by (rule poll_loop_invariant [where P = only_drains, OF poll_round_does _ assms]) simp_all

text \<open>The release of the events: each is read, unmapped and closed.\<close>

definition released :: "sampling_event list \<Rightarrow> history \<Rightarrow> bool" where
  "released evs t \<longleftrightarrow> trace_of event_opened t = [] \<and> trace_of fd_opened t = [] \<and> trace_of ring_mapped t = [] \<and>
     trace_of ring_backed t = [] \<and> (\<forall>c\<in>set (calls t). \<not> starts_target c) \<and>
     trace_of fd_read t = map ev_fd evs \<and> trace_of fd_closed t = map ev_fd evs \<and>
     trace_of ring_unmapped t = map (\<lambda>ev. (mmap_base ev, mmap_len ev)) evs"

lemma finish_sampling_does:
  "does k (finish_sampling ev) (\<lambda>r t. (\<forall>c\<in>set (calls t). c \<in> {Read_Counts (ev_fd ev), Munmap (mmap_base ev) (mmap_len ev), Close (ev_fd ev)}) \<and>
     (\<forall>ev'. r = Inr ev' \<longrightarrow> released [ev] t \<and>
        (\<exists>counts. ev' = ev\<lparr>ev_counts := counts\<rparr> \<and> trace_of counts_read t = [counts])))"
  unfolding finish_sampling_def released_def
  by (intro does_rules) (auto simp: events_defs starts_target_def intro!: does_rules)

lemma finish_all_does:
  "does k (for_each finish_sampling evs) (\<lambda>r t. (\<forall>c\<in>set (calls t). \<not> starts_target c \<and> \<not> opens_event c) \<and>
     (\<forall>evs'. r = Inr evs' \<longrightarrow> released evs t \<and> same_rings evs evs' \<and> trace_of counts_read t = map ev_counts evs'))"
proof (induction evs)
  case Nil
  then show ?case by (auto simp: released_def intro!: does_rules)
next
  case (Cons ev evs)
  show ?case unfolding for_each.simps
    by (rule does_and_then [OF finish_sampling_does], force simp: starts_target_def opens_event_def,
        rule does_and_then [OF Cons.IH])
      (auto simp: released_def same_rings_def ring_id_def starts_target_def opens_event_def intro!: does_return)
qed

lemma watch_target_does:
  assumes "length lbls = length evs"
  shows "does k (watch_target lbls child evs)
    (\<lambda>r t. (\<forall>c\<in>set (calls t). \<not> starts_target c \<and> \<not> opens_event c) \<and>
       (\<forall>evs' iter code. r = Inr (evs', iter, code) \<longrightarrow> released evs t \<and> same_rings evs evs' \<and>
         trace_of counts_read t = map ev_counts evs'))"
proof -
  have start: "keeps_rings lbls evs \<lparr>po_events = evs, drain_iter_ns = []\<rparr>"
    using assms by (simp add: keeps_rings_def)
  have drains: "does k (for_each (\<lambda>(label, ev). drain_event label ev) (zip lbls evs1))
      (\<lambda>r t. only_drains t \<and> (\<forall>evs'. r = Inr evs' \<longrightarrow> same_rings evs1 evs'))"
    if "length lbls = length evs1" for evs1
    by (rule does_mono [OF does_for_each_all2 [where R = "\<lambda>x ev'. ring_id ev' = ring_id (snd x)" and P = only_drains]])
      (use that in \<open>auto simp: all2_zip_fst [where R = "\<lambda>ev ev'. ring_id ev' = ring_id ev"] same_rings_all2
        intro!: does_mono [OF drain_event_does]\<close>)
  have finish: "does k (and_then (for_each finish_sampling evs2) (\<lambda>evs. return (evs, iter, code)))
      (\<lambda>r t. (\<forall>c\<in>set (calls t). \<not> starts_target c \<and> \<not> opens_event c) \<and>
        (\<forall>evs' iter code. r = Inr (evs', iter, code) \<longrightarrow> released evs t \<and> same_rings evs evs' \<and>
          trace_of counts_read t = map ev_counts evs'))"
    if "same_rings evs evs2" for evs2 iter code
  proof -
    have "released evs2 t = released evs t" for t
      by (simp add: released_def same_rings_maps [OF that])
    then show ?thesis
      by (intro does_and_then [OF finish_all_does]) (auto dest: same_rings_trans [OF that] intro!: does_rules)
  qed
  have released_add: "released evs (t @ t') = released evs t'" if "only_drains t" for t t'
    using only_drains_traces [OF that] by (auto simp: released_def)
  have after_loop: "does k (and_then (for_each (\<lambda>(label, ev). drain_event label ev) (zip lbls (po_events s)))
        (\<lambda>evs. and_then (for_each finish_sampling evs) (\<lambda>evs. return (evs, drain_iter_ns s, exit_code_of status))))
      (\<lambda>r t'. (\<forall>c\<in>set (calls (t @ t')). \<not> starts_target c \<and> \<not> opens_event c) \<and>
        (\<forall>evs' iter code. r = Inr (evs', iter, code) \<longrightarrow> released evs (t @ t') \<and> same_rings evs evs' \<and>
          trace_of counts_read (t @ t') = map ev_counts evs'))"
    if t: "only_drains t" and s: "keeps_rings lbls evs s" for s t status
  proof (rule does_and_then [OF drains])
    show "length lbls = length (po_events s)" using s by (simp add: keeps_rings_def)
  next
    fix e t'
    assume "only_drains t' \<and> (\<forall>evs'. Inl e = Inr evs' \<longrightarrow> same_rings (po_events s) evs')"
    then show "(\<forall>c\<in>set (calls (t @ t')). \<not> starts_target c \<and> \<not> opens_event c) \<and>
        (\<forall>evs' iter code. Inl e = Inr (evs', iter, code) \<longrightarrow> released evs (t @ t') \<and> same_rings evs evs' \<and>
          trace_of counts_read (t @ t') = map ev_counts evs')"
      using only_drains_traces(7) [OF t] only_drains_traces(7) by auto
  next
    fix evs2 t'
    assume "only_drains t' \<and> (\<forall>evs'. Inr evs2 = Inr evs' \<longrightarrow> same_rings (po_events s) evs')"
    then have t': "only_drains t'" and "same_rings (po_events s) evs2" by auto
    then have "same_rings evs evs2" using s same_rings_trans unfolding keeps_rings_def by blast
    from finish [OF this] show "does k (and_then (for_each finish_sampling evs2)
          (\<lambda>evs. return (evs, drain_iter_ns s, exit_code_of status)))
        (\<lambda>r t2. (\<forall>c\<in>set (calls (t @ t' @ t2)). \<not> starts_target c \<and> \<not> opens_event c) \<and>
          (\<forall>evs' iter code. r = Inr (evs', iter, code) \<longrightarrow> released evs (t @ t' @ t2) \<and> same_rings evs evs' \<and>
            trace_of counts_read (t @ t' @ t2) = map ev_counts evs'))"
      by (rule does_mono)
        (use only_drains_traces(7,8) [OF t] only_drains_traces(7,8) [OF t'] t t' in \<open>auto simp: released_add\<close>)
  qed
  show ?thesis
    unfolding watch_target_def
    by (rule does_and_then [OF poll_loop_does [OF start]])
      (use after_loop in \<open>auto dest: only_drains_traces(7) intro!: does_case_prod\<close>)
qed

text \<open>The start: the events of the grid are open on the child, and nothing has been released.\<close>

definition planned :: "int \<Rightarrow> sampled_plan \<times> nat \<Rightarrow> perf_attr \<times> int \<times> int \<times> int" where
  "planned child = (\<lambda>((pl, period), c). (sampling_attr (hw_config pl) period, child, int c, -1))"

definition acquired :: "int \<Rightarrow> (sampled_plan \<times> nat) list \<Rightarrow> sampling_event list \<Rightarrow> history \<Rightarrow> bool" where
  "acquired child cells evs t \<longleftrightarrow> trace_of event_opened t = map (planned child) cells \<and>
     trace_of fd_opened t = map ev_fd evs \<and>
     trace_of ring_mapped t = map (\<lambda>ev. (mmap_base ev, mmap_len ev)) evs \<and>
     trace_of fd_read t = [] \<and> trace_of fd_closed t = [] \<and> trace_of ring_unmapped t = [] \<and>
     trace_of counts_read t = [] \<and> trace_of ring_backed t = map (\<lambda>ev. (ev_fd ev, mmap_base ev)) evs \<and>
     list_all2 opened_for cells evs"

lemma acquired_length: "acquired child cells evs t \<Longrightarrow> length evs = length cells"
  by (auto simp: acquired_def dest: list_all2_lengthD)

definition not_started :: "history \<Rightarrow> bool" where
  "not_started t \<longleftrightarrow> (\<forall>c\<in>set (calls t). \<not> starts_target c)"

lemma not_started_simps [simp]: "not_started []" "not_started (t @ t') \<longleftrightarrow> not_started t \<and> not_started t'"
  "not_started ((c, r) # t) \<longleftrightarrow> \<not> starts_target c \<and> not_started t"
  by (auto simp: not_started_def)

lemma open_cell_does:
  "does k (open_cell child cell) (\<lambda>r t. not_started t \<and> (\<forall>ev. r = Inr ev \<longrightarrow> acquired child [cell] [ev] t))"
  unfolding open_cell_def open_sampling_def perf_event_open_def
  by (intro does_rules) (auto simp: acquired_def planned_def opened_for_def events_defs starts_target_def intro!: does_rules)

lemma open_cells_do:
  "does k (for_each (open_cell child) cells)
     (\<lambda>r t. not_started t \<and> (\<forall>evs. r = Inr evs \<longrightarrow> acquired child cells evs t))"
proof (induction cells)
  case Nil
  then show ?case by (auto simp: acquired_def intro!: does_rules)
next
  case (Cons cell cells)
  show ?case unfolding for_each.simps
    by (rule does_and_then [OF open_cell_does], simp, rule does_and_then [OF Cons.IH])
      (auto simp: acquired_def intro!: does_return)
qed

lemma fork_does:
  "does k (fork_stop_exec argv) (\<lambda>r t. only_drains t)"
  unfolding fork_stop_exec_def child_side_def by (auto intro!: does_rules)

lemma start_target_does:
  "does k (start_target nr_cpus sps argv)
     (\<lambda>r t. not_started t \<and> (\<forall>child evs. r = Inr (child, evs) \<longrightarrow> acquired child (grid nr_cpus sps) evs t))"
proof -
  have quiet: "not_started t" "acquired child cells evs (t @ t') = acquired child cells evs t'"
    if "only_drains t" for child cells evs t t'
    using only_drains_traces [OF that] by (auto simp: acquired_def not_started_def)
  show ?thesis unfolding start_target_def
    by (rule does_and_then [OF fork_does], simp add: quiet, rule does_and_then [OF open_cells_do])
      (auto simp: quiet intro!: does_return)
qed

text \<open>The whole run: before, at and after the \<open>SIGCONT\<close>.\<close>

definition in_order :: "nat \<Rightarrow> sampled_plan list \<Rightarrow> history \<Rightarrow> bool" where
  "in_order nr_cpus sps t \<longleftrightarrow> not_started t \<or>
     (\<exists>before child s after. t = before @ (Kill_Sigcont child, s) # after \<and> not_started before \<and> not_started after \<and>
        trace_of event_opened before = map (planned child) (grid nr_cpus sps) \<and>
        (\<forall>c\<in>set (calls after). \<not> opens_event c))"

definition balanced :: "history \<Rightarrow> bool" where
  "balanced t \<longleftrightarrow> \<not> not_started t \<and> trace_of fd_read t = trace_of fd_opened t \<and>
     trace_of fd_closed t = trace_of fd_opened t \<and> trace_of ring_unmapped t = trace_of ring_mapped t"

lemma started_in_order:
  assumes "not_started t" "acquired child (grid nr_cpus sps) evs t"
    and "\<forall>c\<in>set (calls t'). \<not> starts_target c \<and> \<not> opens_event c"
  shows "in_order nr_cpus sps (t @ (Kill_Sigcont child, s) # t')"
  using assms unfolding in_order_def not_started_def acquired_def
  by (intro disjI2 exI [of _ t] exI [of _ child] exI [of _ s] exI [of _ t']) auto

lemma acquired_released_balanced:
  "acquired child cells evs t \<Longrightarrow> released evs t' \<Longrightarrow> balanced (t @ (Kill_Sigcont child, s) # t')"
  by (auto simp: balanced_def released_def acquired_def events_defs starts_target_def)

definition run_ok :: "nat \<Rightarrow> sampled_plan list \<Rightarrow> stop + 'a \<Rightarrow> history \<Rightarrow> bool" where
  "run_ok nr_cpus sps r t \<longleftrightarrow> in_order nr_cpus sps t \<and> (\<forall>x. r = Inr x \<longrightarrow> balanced t)"

lemma measure_target_does: "does k (measure_target nr_cpus sps argv) (run_ok nr_cpus sps)"
proof -
  have watch: "does k (watch_target (labels nr_cpus sps) child evs)
      (\<lambda>r t'. run_ok nr_cpus sps r (t @ (Kill_Sigcont child, s) # t'))"
    if "not_started t" "acquired child (grid nr_cpus sps) evs t" for t child evs s
    by (rule does_mono [OF watch_target_does])
      (use that acquired_length [OF that(2)] in \<open>auto simp: run_ok_def intro: started_in_order acquired_released_balanced\<close>)
  have early: "run_ok nr_cpus sps (Inl e) t" if "not_started t" for t e
    using that by (simp add: run_ok_def in_order_def)
  have kill: "run_ok nr_cpus sps (Inl e) (t @ [(Kill_Sigcont child, s)])"
    if "not_started t" "acquired child (grid nr_cpus sps) evs t" for t child evs s e
    using started_in_order [OF that, of "[]"] by (simp add: run_ok_def)
  show ?thesis unfolding measure_target_def
    by (rule does_and_then [OF start_target_does])
      (auto intro!: does_rules intro: early kill watch)
qed

text \<open>
  The result: one ring per cell of the grid, in its order; each is mapped from the descriptor
  of the event of its cell, and has the counts that were read from it.
\<close>

definition maps_rings :: "sampling_event list \<Rightarrow> history \<Rightarrow> bool" where
  "maps_rings evs t \<longleftrightarrow> trace_of ring_mapped t = map (\<lambda>ev. (mmap_base ev, mmap_len ev)) evs"

definition rings_of_cells :: "(sampled_plan \<times> nat) list \<Rightarrow> sampling_event list \<Rightarrow> history \<Rightarrow> bool" where
  "rings_of_cells cells evs t \<longleftrightarrow> list_all2 opened_for cells evs \<and>
     (\<exists>child. trace_of event_opened t = map (planned child) cells) \<and>
     trace_of fd_opened t = map ev_fd evs \<and>
     trace_of ring_backed t = map (\<lambda>ev. (ev_fd ev, mmap_base ev)) evs \<and>
     trace_of fd_read t = map ev_fd evs \<and> trace_of counts_read t = map ev_counts evs"

lemma acquired_watched:
  assumes "acquired child cells evs t" "released evs t'" "same_rings evs evs'"
    and "trace_of counts_read t' = map ev_counts evs'"
  shows "rings_of_cells cells evs' (t @ (Kill_Sigcont child, s) # t')"
    and "maps_rings evs' (t @ (Kill_Sigcont child, s) # t')"
proof -
  show "rings_of_cells cells evs' (t @ (Kill_Sigcont child, s) # t')"
    using assms same_rings_opened [OF assms(3)] same_rings_backed [OF assms(3)] same_rings_maps(1) [OF assms(3)]
    by (auto simp: rings_of_cells_def acquired_def released_def events_defs)
  show "maps_rings evs' (t @ (Kill_Sigcont child, s) # t')"
    using assms same_rings_maps(2) [OF assms(3)]
    by (simp add: maps_rings_def acquired_def released_def ring_mapped_def)
qed

lemma measure_target_rings:
  "does k (measure_target nr_cpus sps argv)
     (\<lambda>r t. \<forall>evs iter code. r = Inr (evs, iter, code) \<longrightarrow>
        rings_of_cells (grid nr_cpus sps) evs t \<and> maps_rings evs t)"
proof -
  have watch: "does k (watch_target (labels nr_cpus sps) child evs)
      (\<lambda>r t'. \<forall>evs' iter code. r = Inr (evs', iter, code) \<longrightarrow>
         rings_of_cells (grid nr_cpus sps) evs' (t @ (Kill_Sigcont child, s) # t') \<and>
         maps_rings evs' (t @ (Kill_Sigcont child, s) # t'))"
    if "acquired child (grid nr_cpus sps) evs t" for child evs t s
  proof (rule does_mono [OF watch_target_does])
    show "length (labels nr_cpus sps) = length evs"
      using acquired_length [OF that] by simp
  qed (use acquired_watched [OF that] in auto)
  show ?thesis unfolding measure_target_def
    by (rule does_and_then [OF start_target_does], simp, rule does_case_prod, rule does_call_then, rule does_if)
      (auto intro: does_die, rule does_mono [OF watch], auto)
qed

lemma rings_of_cells_length: "rings_of_cells cells evs t \<Longrightarrow> length evs = length cells"
  by (auto simp: rings_of_cells_def dest: list_all2_lengthD)

lemma start_unique:
  assumes "before @ (Kill_Sigcont child, s) # after = b @ (Kill_Sigcont p, x) # a"
    and "not_started b" "not_started a"
  shows "before = b \<and> child = p \<and> after = a"
  using assms
proof (induction b arbitrary: before)
  case Nil
  then show ?case by (cases before) (auto simp: not_started_def starts_target_def)
next
  case (Cons y b)
  then show ?case by (cases before; cases y) (auto simp: starts_target_def)
qed

end
