(* ===== verification/Ring_Sources.thy ===== *)
theory Ring_Sources
  imports Event_Lifecycle
begin

text \<open>
  Which event a ring belongs to: what the calls of a run say of the sampling events and of
  the rings behind their descriptors. Every ring that the measurement maps is that of the
  sampling event opened just before it, so that the position of a ring names its event and
  its CPU.
\<close>

section \<open>What a history says\<close>

text \<open>The sampling events opened (those of the calibration ask for no samples), with their descriptors.\<close>

definition sampling_opened :: "syscall \<times> reply \<Rightarrow> (int \<times> perf_attr \<times> int \<times> int \<times> int) list" where
  "sampling_opened x = (case x of
       (Perf_Event_Open attr pid cpu group_fd _, r) \<Rightarrow>
         if 0 \<le> r_ret r \<and> at_sample_type attr \<noteq> 0 then [(r_ret r, attr, pid, cpu, group_fd)] else []
     | _ \<Rightarrow> [])"

text \<open>
  The rings are those of the sampling events of these cells on the child, in order.
\<close>

definition rings_for :: "int \<Rightarrow> (sampled_plan \<times> nat) list \<Rightarrow> history \<Rightarrow> bool" where
  "rings_for child cells h \<longleftrightarrow>
     map snd (trace_of sampling_opened h) = map (planned child) cells \<and>
     map fst (trace_of ring_backed h) = map fst (trace_of sampling_opened h)"

definition samples_nothing :: "syscall \<Rightarrow> bool" where
  "samples_nothing c = (case c of
       Perf_Event_Open attr _ _ _ _ \<Rightarrow> at_sample_type attr = 0
     | Mmap _ _ \<Rightarrow> False
     | _ \<Rightarrow> True)"

lemma ring_backed_mapped: "map snd (trace_of ring_backed h) = map fst (trace_of ring_mapped h)"
proof (induction h)
  case (Cons x h)
  then show ?case by (cases x, cases "fst x") (simp_all add: ring_backed_def ring_mapped_def)
qed simp

lemma samples_nothing_traces:
  assumes "\<forall>c\<in>set (calls t). samples_nothing c"
  shows "trace_of sampling_opened t = []" "trace_of ring_backed t = []" "trace_of ring_mapped t = []"
proof -
  show "trace_of sampling_opened t = []"
    by (rule trace_of_empty) (use assms in \<open>force simp: sampling_opened_def samples_nothing_def split: syscall.splits\<close>)
  show backed: "trace_of ring_backed t = []"
    by (rule trace_of_empty) (use assms in \<open>force simp: ring_backed_def samples_nothing_def split: syscall.splits\<close>)
  show "trace_of ring_mapped t = []"
    using ring_backed_mapped [of t] backed by simp
qed

lemma rings_for_quiet:
  assumes "\<forall>c\<in>set (calls t). samples_nothing c"
  shows "rings_for child cells (t @ h) = rings_for child cells h" "rings_for child cells (h @ t) = rings_for child cells h"
  using samples_nothing_traces [OF assms] by (simp_all add: rings_for_def)

lemma rings_for_append:
  "rings_for child cells h \<Longrightarrow> rings_for child cells' h' \<Longrightarrow> rings_for child (cells @ cells') (h @ h')"
  by (simp add: rings_for_def)

section \<open>The measurement\<close>

lemma open_cell_rings:
  "does k (open_cell child cell) (\<lambda>r t. \<forall>ev. r = Inr ev \<longrightarrow> rings_for child [cell] t)"
  unfolding open_cell_def open_sampling_def perf_event_open_def
  by (intro does_rules)
    (auto simp: rings_for_def planned_def sampling_opened_def ring_backed_def sampling_attr_def zero_attr_def
      PERF_SAMPLE_IP_def PERF_SAMPLE_TID_def PERF_SAMPLE_PERIOD_def intro!: does_rules)

lemma open_cells_rings:
  "does k (for_each (open_cell child) cells) (\<lambda>r t. \<forall>evs. r = Inr evs \<longrightarrow> rings_for child cells t)"
proof (induction cells)
  case Nil
  then show ?case by (auto simp: rings_for_def intro!: does_rules)
next
  case (Cons cell cells)
  show ?case unfolding for_each.simps
    by (rule does_and_then [OF open_cell_rings], simp, rule does_and_then [OF Cons.IH])
      (auto intro!: does_return dest: rings_for_append [of _ "[cell]"])
qed

lemma quiet_samples_nothing: "quiet c \<Longrightarrow> samples_nothing c"
  by (cases c) (simp_all add: samples_nothing_def)

lemma fork_child:
  assumes "fork_stop_exec argv k h = Some (Inr child, h1)"
  shows "child = r_ret (k h Fork)" "\<exists>t. h1 = h @ t \<and> (\<forall>c\<in>set (calls t). samples_nothing c)"
proof -
  have "outcome True k (fork_stop_exec argv) h (result_ok (\<lambda>c _. c = r_ret (k h Fork)))"
    by (simp add: fork_stop_exec_def child_side_def run_rules)
  from outcomeD [OF this assms] show "child = r_ret (k h Fork)" by simp
  from doesD [OF fork_does assms] show "\<exists>t. h1 = h @ t \<and> (\<forall>c\<in>set (calls t). samples_nothing c)"
    by (auto simp: only_drains_def quiet_samples_nothing)
qed

lemma watch_samples_nothing:
  assumes "length lbls = length evs"
  shows "does k (watch_target lbls child evs) (\<lambda>r t. \<forall>c\<in>set (calls t). samples_nothing c)"
proof -
  have start: "keeps_rings lbls evs \<lparr>po_events = evs, drain_iter_ns = []\<rparr>"
    using assms by (simp add: keeps_rings_def)
  have rest: "only_calls samples_nothing (and_then (for_each (\<lambda>(label, ev). drain_event label ev) (zip lbls evs1))
      (\<lambda>evs. and_then (for_each finish_sampling evs) (\<lambda>evs. return (evs, iter, code))))" for evs1 iter code
    unfolding drain_event_def finish_sampling_def
    by (auto simp: samples_nothing_def intro!: only_rules split: prod.split)
  show ?thesis unfolding watch_target_def
    by (rule does_and_then [OF poll_loop_does [OF start]], simp add: only_drains_def quiet_samples_nothing, rule does_case_prod,
        rule does_mono [OF does_only [OF rest]]) (auto simp: only_drains_def quiet_samples_nothing)
qed

text \<open>The events are opened on the child of the fork that the run begins with.\<close>

lemma measure_rings:
  assumes "measure_target nr_cpus sps argv k h = Some (Inr x, h')"
  shows "\<exists>t. h' = h @ t \<and> rings_for (r_ret (k h Fork)) (grid nr_cpus sps) t"
proof -
  let ?cells = "grid nr_cpus sps"
  obtain child evs h2 where start: "start_target nr_cpus sps argv k h = Some (Inr (child, evs), h2)"
    and go: "and_then (call (Kill_Sigcont child)) (\<lambda>s. if r_ret s \<noteq> 0 then die_errno ''kill(SIGCONT)'' s
        else watch_target (labels nr_cpus sps) child evs) k h2 = Some (Inr x, h')"
    using run_then [OF assms [unfolded measure_target_def]] by fastforce
  obtain c h1 where fork: "fork_stop_exec argv k h = Some (Inr c, h1)"
    and opens: "and_then (for_each (open_cell c) ?cells) (\<lambda>evs. return (c, evs)) k h1 = Some (Inr (child, evs), h2)"
    using run_then [OF start [unfolded start_target_def]] by blast
  have o: "for_each (open_cell c) ?cells k h1 = Some (Inr evs, h2)"
    using run_then [OF opens] by (auto simp: return_def)
  obtain t1 where t1: "h1 = h @ t1" "\<forall>c\<in>set (calls t1). samples_nothing c" using fork_child(2) [OF fork] by blast
  obtain t2 where t2: "h2 = h1 @ t2" "rings_for c ?cells t2" "length evs = length ?cells"
    using doesD [OF does_conj [OF open_cells_rings open_cells_do] o] acquired_length by blast
  let ?kill = "(Kill_Sigcont child, k h2 (Kill_Sigcont child))"
  from go have w: "watch_target (labels nr_cpus sps) child evs k (h2 @ [?kill]) = Some (Inr x, h')"
    by (auto simp: and_then_def call_def die_errno_def stop_with_def split: if_splits)
  have "length (labels nr_cpus sps) = length evs" using t2(3) by simp
  from doesD [OF watch_samples_nothing [OF this] w] obtain t3 where
    t3: "h' = (h2 @ [?kill]) @ t3" "\<forall>c\<in>set (calls t3). samples_nothing c" by blast
  have "\<forall>c\<in>set (calls (?kill # t3)). samples_nothing c" using t3(2) by (simp add: samples_nothing_def)
  from rings_for_quiet(2) [OF this] t2(2) have "rings_for c ?cells (t2 @ ?kill # t3)" by simp
  with rings_for_quiet(1) [OF t1(2)] have "rings_for c ?cells (t1 @ t2 @ ?kill # t3)" by simp
  with t1(1) t2(1) t3(1) fork_child(1) [OF fork] show ?thesis by auto
qed

section \<open>The calibration\<close>

lemma choose_periods_samples_nothing: "only_calls samples_nothing (choose_periods override argv)"
proof -
  have "only_calls samples_nothing (calibrated_period max_rate rate)" for max_rate rate
    by (auto simp: calibrated_period_def split: option.split intro: only_rules)
  then show ?thesis
    unfolding choose_periods_def read_max_rate_def calibrate_both_def fork_stop_exec_def child_side_def
      open_plan_def open_counting_def perf_event_open_def reap_def read_calibration_def Let_def
    by (cases override)
      (auto simp: samples_nothing_def counting_attr_def zero_attr_def intro!: only_rules)
qed

end
