(* ===== verification/Sample_Delivery.thy ===== *)
theory Sample_Delivery
  imports Ring_Sources
begin

text \<open>
  From the kernel to the report: on a kernel that writes its records to the rings as
  documented, whenever it chooses to, the measurement run returns, and every ring has
  delivered its whole stream, each sample once and in order.
\<close>

section \<open>A kernel that serves its rings\<close>

text \<open>The last \<open>data_tail\<close> stored to a ring; a new mapping starts at 0.\<close>

definition stored_tail :: "u64 \<Rightarrow> history \<Rightarrow> u64" where
  "stored_tail base h =
     fold (\<lambda>x tl. case x of (Store_Tail b u, _) \<Rightarrow> if b = base then u else tl | _ \<Rightarrow> tl) h 0"

definition child_gone :: "int \<Rightarrow> history \<Rightarrow> bool" where
  "child_gone child h \<longleftrightarrow> (\<exists>w. (Waitpid child No_Hang, w) \<in> set h \<and> r_ret w = child)"

text \<open>
  The kernel writes the records \<open>rs\<close> to the ring at \<open>base\<close>: at every load, the records from
  the stored tail up to some record boundary are there, no unread record is overwritten,
  and once the child has been reaped all of them are.
\<close>

definition pending_ok :: "reply \<Rightarrow> u64 \<Rightarrow> perf_record list \<Rightarrow> nat \<Rightarrow> nat \<Rightarrow> bool" where
  "pending_ok r sz rs m n \<longleftrightarrow>
     r_head r = word_of_nat (stream_size (take n rs)) \<and> ring_ok (r_data r) sz \<and>
     stream_size (drop m (take n rs)) \<le> unat sz \<and>
     ring_holds (r_data r) (stream_size (take m rs)) (concat (map enc_record (drop m (take n rs))))"

definition serves_ring :: "kernel \<Rightarrow> int \<Rightarrow> u64 \<Rightarrow> u64 \<Rightarrow> perf_record list \<Rightarrow> bool" where
  "serves_ring k child base sz rs \<longleftrightarrow>
     (\<forall>r\<in>set rs. wf_record r) \<and> stream_size rs < 2 ^ 64 \<and>
     (\<forall>h m. m \<le> length rs \<longrightarrow> stored_tail base h = word_of_nat (stream_size (take m rs)) \<longrightarrow>
        (\<exists>n. m \<le> n \<and> n \<le> length rs \<and> (child_gone child h \<longrightarrow> n = length rs) \<and>
           pending_ok (k h (Load_Ring base)) sz rs m n))"

section \<open>One drain\<close>

definition delivered_upto :: "perf_record list \<Rightarrow> nat \<Rightarrow> sampling_event \<Rightarrow> history \<Rightarrow> bool" where
  "delivered_upto rs m ev h \<longleftrightarrow> m \<le> length rs \<and>
     stored_tail (mmap_base ev) h = word_of_nat (stream_size (take m rs)) \<and>
     stream_effect (take m rs) fresh_ring (ev_ring ev) \<and> (\<forall>r\<in>set (take m rs). \<not> throttles r)"

lemma stored_tail_simps [simp]:
  "stored_tail base [] = 0"
  "stored_tail base (h @ [(Store_Tail b u, r)]) = (if b = base then u else stored_tail base h)"
  by (simp_all add: stored_tail_def)

lemma stored_tail_append:
  "\<forall>c\<in>set (calls t). \<forall>u. c \<noteq> Store_Tail base u \<Longrightarrow> stored_tail base (h @ t) = stored_tail base h"
proof (induction t rule: rev_induct)
  case (snoc x t)
  then show ?case by (cases x, cases "fst x") (auto simp: stored_tail_def)
qed simp

lemma child_gone_mono: "child_gone child h \<Longrightarrow> child_gone child (h @ t)"
  by (auto simp: child_gone_def)

lemma stream_effect_append:
  "stream_effect rs s s' \<Longrightarrow> stream_effect rs' s' s'' \<Longrightarrow> stream_effect (rs @ rs') s s''"
  by (simp add: stream_effect_def of_type_def)

lemma stream_size_take_le: "stream_size (take m rs) \<le> stream_size rs"
  using stream_size_append [of "take m rs" "drop m rs"] by simp

lemma unat_stream_size:
  "stream_size rs < 2 ^ 64 \<Longrightarrow> unat (word_of_nat (stream_size (take m rs)) :: u64) = stream_size (take m rs)"
  using stream_size_take_le [of m rs] by (intro unat_word_of_nat_less) simp

lemma take_split_at: "m \<le> n \<Longrightarrow> take n rs = take m rs @ drop m (take n rs)"
  by (metis append_take_drop_id min.absorb1 take_take)

lemma drain_pending:
  assumes "delivered_upto rs m ev h" "\<forall>r\<in>set rs. wf_record r" "stream_size rs < 2 ^ 64"
    and "m \<le> n" "pending_ok r (ev_data_size ev) rs m n"
  shows "if \<exists>x\<in>set (take n rs). throttles x
    then drain label (r_head r) (r_data r) (ev_data_size ev) (ev_ring ev) = Some (Inl (Throttled label))
    else \<exists>ring. drain label (r_head r) (r_data r) (ev_data_size ev) (ev_ring ev) =
      Some (Inr (word_of_nat (stream_size (take n rs)), ring)) \<and> stream_effect (take n rs) fresh_ring ring"
proof -
  let ?new = "drop m (take n rs)"
  have new: "\<forall>r\<in>set ?new. wf_record r"
    using assms(2) by (auto dest: in_set_dropD in_set_takeD)
  have "d_tail (ev_ring ev) = word_of_nat (stream_size (take m rs))"
    using assms(1) by (simp add: delivered_upto_def stream_effect_def fresh_ring_def)
  then have tail: "unat (d_tail (ev_ring ev)) = stream_size (take m rs)"
    using assms(3) by (simp only: unat_stream_size)
  have head: "unat (r_head r) = stream_size (take n rs)"
    using assms(3,5) unfolding pending_ok_def by (simp only: unat_stream_size)
  have size: "stream_size (take m rs) + stream_size ?new = stream_size (take n rs)"
    using stream_size_append [of "take m rs" ?new] take_split_at [OF assms(4), of rs] by simp
  have drained: "drain label (r_head r) (r_data r) (ev_data_size ev) (ev_ring ev) =
      Some (map_sum id (\<lambda>s. (d_tail s, s)) (consume label ?new (ev_ring ev)))"
    using assms(5) new tail head size by (intro drain_decodes) (auto simp: pending_ok_def)
  have "set (take n rs) = set (take m rs) \<union> set ?new"
    by (subst take_split_at [OF assms(4)]) simp
  then have throttled: "(\<exists>x\<in>set (take n rs). throttles x) \<longleftrightarrow> (\<exists>x\<in>set ?new. throttles x)"
    using assms(1) by (auto simp: delivered_upto_def)
  show ?thesis
  proof (cases "\<exists>x\<in>set ?new. throttles x")
    case True
    with throttled drained consume_throttled [OF True] show ?thesis by simp
  next
    case False
    then obtain ring where ring: "consume label ?new (ev_ring ev) = Inr ring" "stream_effect ?new (ev_ring ev) ring"
      using consume_stream [of ?new label "ev_ring ev"] by blast
    have eff: "stream_effect (take n rs) fresh_ring ring"
      using assms(1) by (subst take_split_at [OF assms(4)])
        (auto simp: delivered_upto_def intro: stream_effect_append [OF _ ring(2)])
    then have "d_tail ring = word_of_nat (stream_size (take n rs))"
      by (simp add: stream_effect_def fresh_ring_def)
    with False throttled drained ring(1) eff show ?thesis by simp
  qed
qed

section \<open>All rings\<close>

text \<open>The streams are given by the address of the ring.\<close>

type_synonym streams = "u64 \<Rightarrow> perf_record list"

definition stream_of :: "streams \<Rightarrow> sampling_event \<Rightarrow> perf_record list" where
  "stream_of rs ev = rs (mmap_base ev)"

definition same_event :: "sampling_event \<Rightarrow> sampling_event \<Rightarrow> bool" where
  "same_event ev ev' \<longleftrightarrow> ev' = ev\<lparr>ev_ring := ev_ring ev'\<rparr>"

definition served :: "kernel \<Rightarrow> int \<Rightarrow> streams \<Rightarrow> sampling_event \<Rightarrow> bool" where
  "served k child rs ev \<longleftrightarrow> serves_ring k child (mmap_base ev) (ev_data_size ev) (stream_of rs ev)"

definition in_progress :: "streams \<Rightarrow> sampling_event \<Rightarrow> history \<Rightarrow> bool" where
  "in_progress rs ev h \<longleftrightarrow> (\<exists>m. delivered_upto (stream_of rs ev) m ev h)"

definition all_delivered :: "streams \<Rightarrow> sampling_event \<Rightarrow> bool" where
  "all_delivered rs ev \<longleftrightarrow> stream_effect (stream_of rs ev) fresh_ring (ev_ring ev) \<and>
     (\<forall>r\<in>set (stream_of rs ev). \<not> throttles r)"

text \<open>The end that a throttled ring brings: one of the labelled rings, with a throttle record in its stream.\<close>

definition throttled_ring :: "streams \<Rightarrow> (string \<times> sampling_event) list \<Rightarrow> stop \<Rightarrow> bool" where
  "throttled_ring rs les e \<longleftrightarrow>
     (\<exists>(label, ev)\<in>set les. e = Fatal (Throttled label) \<and> (\<exists>r\<in>set (stream_of rs ev). throttles r))"

definition ring_calls :: "u64 set \<Rightarrow> history \<Rightarrow> bool" where
  "ring_calls bases t \<longleftrightarrow> (\<forall>c\<in>set (calls t). \<exists>b\<in>bases. c = Load_Ring b \<or> (\<exists>u. c = Store_Tail b u))"

lemma same_eventD:
  assumes "same_event ev ev'"
  shows "ev_fd ev' = ev_fd ev" "mmap_base ev' = mmap_base ev" "ev_data_size ev' = ev_data_size ev"
    "stream_of rs ev' = stream_of rs ev" "served k child rs ev' = served k child rs ev"
  unfolding served_def stream_of_def using assms unfolding same_event_def by (cases ev, cases ev', simp)+

lemma same_event_refl [simp]: "same_event ev ev"
  by (simp add: same_event_def)

lemma same_event_trans: "same_event a b \<Longrightarrow> same_event b c \<Longrightarrow> same_event a c"
  unfolding same_event_def by (cases a, cases b, cases c) simp

lemma in_progress_other:
  assumes "ring_calls bases t" "mmap_base ev \<notin> bases"
  shows "in_progress rs ev (h @ t) = in_progress rs ev h"
proof -
  have "stored_tail (mmap_base ev) (h @ t) = stored_tail (mmap_base ev) h"
    using assms by (intro stored_tail_append) (auto simp: ring_calls_def)
  then show ?thesis by (simp add: in_progress_def delivered_upto_def)
qed

text \<open>
  The rings \<open>evs\<close> after a step that only they took part in: still in progress, and
  completely drained if the step drains them after the child has gone.
\<close>

definition moved ::
  "int \<Rightarrow> streams \<Rightarrow> bool \<Rightarrow> sampling_event list \<Rightarrow> history \<Rightarrow> sampling_event list \<Rightarrow> history \<Rightarrow> bool" where
  "moved child rs drains evs h evs' h' \<longleftrightarrow> list_all2 same_event evs evs' \<and>
     (\<exists>t. h' = h @ t \<and> ring_calls (mmap_base ` set evs) t) \<and> (\<forall>ev\<in>set evs'. in_progress rs ev h') \<and>
     (drains \<and> child_gone child h \<longrightarrow> (\<forall>ev\<in>set evs'. all_delivered rs ev))"

definition advances ::
  "kernel \<Rightarrow> int \<Rightarrow> streams \<Rightarrow> bool \<Rightarrow> sampling_event run \<Rightarrow> string \<times> sampling_event \<Rightarrow> bool" where
  "advances k child rs drains m le \<longleftrightarrow> (\<forall>h. in_progress rs (snd le) h \<longrightarrow>
     outcome False k m h (ends_or (throttled_ring rs [le]) (\<lambda>ev' h'. moved child rs drains [snd le] h [ev'] h')))"

lemma drain_event_advances:
  assumes "served k child rs ev"
  shows "advances k child rs True (drain_event label ev) (label, ev)"
  unfolding advances_def snd_conv
proof (intro allI impI)
  fix h assume "in_progress rs ev h"
  then obtain m where m: "delivered_upto (stream_of rs ev) m ev h" by (auto simp: in_progress_def)
  let ?r = "k h (Load_Ring (mmap_base ev))" and ?rs = "stream_of rs ev"
  let ?drain = "drain label (r_head ?r) (r_data ?r) (ev_data_size ev) (ev_ring ev)"
  from assms m obtain n where n: "m \<le> n" "n \<le> length ?rs" "child_gone child h \<longrightarrow> n = length ?rs"
    "pending_ok ?r (ev_data_size ev) ?rs m n"
    unfolding served_def serves_ring_def delivered_upto_def by blast
  have wf: "\<forall>r\<in>set ?rs. wf_record r" "stream_size ?rs < 2 ^ 64"
    using assms by (simp_all add: served_def serves_ring_def)
  note pending = drain_pending [OF m wf n(1,4), of label]
  show "outcome False k (drain_event label ev) h
      (ends_or (throttled_ring rs [(label, ev)]) (\<lambda>ev' h'. moved child rs True [ev] h [ev'] h'))"
  proof (cases "\<exists>x\<in>set (take n ?rs). throttles x")
    case True
    with pending have "?drain = Some (Inl (Throttled label))" by simp
    with True show ?thesis
      by (auto simp: drain_event_def run_rules throttled_ring_def dest: in_set_takeD)
  next
    case False
    with pending obtain ring where ring: "?drain = Some (Inr (word_of_nat (stream_size (take n ?rs)), ring))"
      "stream_effect (take n ?rs) fresh_ring ring" by auto
    let ?ev = "ev\<lparr>ev_ring := ring\<rparr>"
    have "delivered_upto ?rs n ?ev (h @ [(Load_Ring (mmap_base ev), ?r),
        (Store_Tail (mmap_base ev) (word_of_nat (stream_size (take n ?rs))), x)])" for x
      using ring(2) n(2) False stored_tail_simps(2) [of "mmap_base ev" "h @ [(Load_Ring (mmap_base ev), ?r)]"]
      by (simp add: delivered_upto_def)
    moreover have "all_delivered rs ?ev" if "child_gone child h"
      using n(3) that ring(2) False by (simp add: all_delivered_def stream_of_def)
    ultimately show ?thesis
      using ring(1)
      by (auto simp: drain_event_def run_rules moved_def same_event_def ring_calls_def in_progress_def stream_of_def)
  qed
qed

lemma return_advances: "advances k child rs False (return ev) (label, ev)"
  by (simp add: advances_def run_rules moved_def ring_calls_def)

lemma moved_weaken: "moved child rs drains evs h evs' h' \<Longrightarrow> moved child rs False evs h evs' h'"
  by (simp add: moved_def)

lemma moved_Cons:
  assumes "moved child rs drains [ev] h [ev'] h1" "moved child rs drains evs h1 evs' h2"
    and "mmap_base ev \<notin> mmap_base ` set evs"
  shows "moved child rs drains (ev # evs) h (ev' # evs') h2"
proof -
  obtain t where t: "h1 = h @ t" "ring_calls {mmap_base ev} t"
    using assms(1) by (auto simp: moved_def)
  obtain t' where t': "h2 = h1 @ t'" "ring_calls (mmap_base ` set evs) t'"
    using assms(2) unfolding moved_def by blast
  have "mmap_base ev' \<notin> mmap_base ` set evs"
    using assms(1,3) same_eventD(2) [of ev ev'] by (simp add: moved_def)
  then have "in_progress rs ev' h2"
    using in_progress_other [OF t'(2)] assms(1) t'(1) by (simp add: moved_def)
  moreover have "ring_calls (mmap_base ` set (ev # evs)) (t @ t')"
    using t(2) t'(2) by (auto simp: ring_calls_def)
  ultimately show ?thesis
    using assms(1,2) t(1) t'(1) child_gone_mono [of child h t] by (auto simp: moved_def)
qed

lemma throttled_ring_Cons:
  "throttled_ring rs (le # les) e \<longleftrightarrow> throttled_ring rs [le] e \<or> throttled_ring rs les e"
  by (simp add: throttled_ring_def)

lemma all_advance:
  assumes "list_all2 (\<lambda>x le. advances k child rs drains (f x) le) xs les"
    and "distinct (map (mmap_base \<circ> snd) les)" "\<forall>ev\<in>snd ` set les. in_progress rs ev h"
  shows "outcome False k (for_each f xs) h
    (ends_or (throttled_ring rs les) (\<lambda>evs' h'. moved child rs drains (map snd les) h evs' h'))"
  using assms
proof (induction arbitrary: h rule: list_all2_induct)
  case Nil
  then show ?case by (simp add: run_rules moved_def ring_calls_def)
next
  case (Cons x xs le les)
  let ?ev = "snd le" and ?evs = "map snd les" and ?E = "throttled_ring rs (le # les)"
  have first: "outcome False k (f x) h (ends_or ?E (\<lambda>ev' h'. moved child rs drains [?ev] h [ev'] h'))"
    using Cons.hyps(1) Cons.prems unfolding advances_def
    by (auto intro: outcome_ends_mono simp: throttled_ring_Cons [of rs le les])
  have rest: "outcome False k (for_each f xs) h1 (ends_or ?E (\<lambda>evs' h'. moved child rs drains ?evs h1 evs' h'))"
    if m: "moved child rs drains [?ev] h [ev'] h1" for ev' h1
  proof -
    obtain t where t: "h1 = h @ t" "ring_calls {mmap_base ?ev} t" using m by (auto simp: moved_def)
    have "mmap_base e \<noteq> mmap_base ?ev" if "e \<in> snd ` set les" for e
      using Cons.prems(1) that by (fastforce simp: image_iff)
    then have "\<forall>e\<in>snd ` set les. in_progress rs e h1"
      using Cons.prems(2) in_progress_other [OF t(2)] t(1) by auto
    from Cons.IH [OF _ this] Cons.prems(1) show ?thesis
      by (auto intro: outcome_ends_mono simp: throttled_ring_Cons [of rs le les])
  qed
  have "mmap_base ?ev \<notin> mmap_base ` set ?evs" using Cons.prems(1) by (auto simp: image_image)
  then show ?case unfolding for_each.simps
    by (intro outcome_then_ends [OF first] outcome_then_ends [OF rest])
      (auto simp: outcome_return intro: moved_Cons)
qed

section \<open>The poll loop\<close>

definition polls :: "int \<Rightarrow> history \<Rightarrow> nat" where
  "polls child h = length (filter (\<lambda>c. c = Waitpid child No_Hang) (calls h))"

text \<open>
  \<open>poll\<close> works or is interrupted; \<open>waitpid\<close> says that the child is running or gone, and
  after \<open>limit\<close> questions it is gone.
\<close>

definition exits_within :: "kernel \<Rightarrow> int \<Rightarrow> nat \<Rightarrow> bool" where
  "exits_within k child limit \<longleftrightarrow> 0 < child \<and>
     (\<forall>h fds. 0 \<le> r_ret (k h (Poll fds)) \<or> r_errno (k h (Poll fds)) = EINTR) \<and>
     (\<forall>h. r_ret (k h (Waitpid child No_Hang)) \<in> {0, child}) \<and>
     (\<forall>h. limit \<le> polls child h \<longrightarrow> r_ret (k h (Waitpid child No_Hang)) = child)"

definition exited_with :: "int \<Rightarrow> u32 \<Rightarrow> history \<Rightarrow> bool" where
  "exited_with child status h \<longleftrightarrow>
     (\<exists>w. (Waitpid child No_Hang, w) \<in> set h \<and> r_ret w = child \<and> r_status w = status)"

definition rings_ok :: "streams \<Rightarrow> sampling_event list \<Rightarrow> poll_state \<Rightarrow> history \<Rightarrow> bool" where
  "rings_ok rs evs s h \<longleftrightarrow> list_all2 same_event evs (po_events s) \<and>
     (\<forall>ev\<in>set (po_events s). in_progress rs ev h)"

lemma in_progress_append:
  assumes "\<forall>c\<in>set (calls t). \<forall>b u. c \<noteq> Store_Tail b u"
  shows "in_progress rs ev (h @ t) = in_progress rs ev h"
proof -
  have "stored_tail (mmap_base ev) (h @ t) = stored_tail (mmap_base ev) h"
    using assms by (intro stored_tail_append) blast
  then show ?thesis by (simp add: in_progress_def delivered_upto_def)
qed

lemma in_progress_call: "(\<forall>b u. c \<noteq> Store_Tail b u) \<Longrightarrow> in_progress rs ev (h @ [(c, r)]) = in_progress rs ev h"
  by (simp add: in_progress_append)

lemma ring_calls_polls: "ring_calls bases t \<Longrightarrow> polls child (h @ t) = polls child h"
  by (auto simp: polls_def ring_calls_def filter_empty_conv)

lemma same_events_bases:
  "list_all2 same_event evs evs' \<Longrightarrow> map mmap_base evs' = map mmap_base evs"
  by (induction rule: list_all2_induct) (auto dest: same_eventD(2))

lemma same_events_served:
  "list_all2 same_event evs evs' \<Longrightarrow> \<forall>ev\<in>set evs. served k child rs ev \<Longrightarrow> \<forall>ev\<in>set evs'. served k child rs ev"
  by (induction rule: list_all2_induct) (auto dest: same_eventD(5))

lemma same_events_trans:
  "list_all2 same_event a b \<Longrightarrow> list_all2 same_event b c \<Longrightarrow> list_all2 same_event a c"
  by (rule list_all2_trans [OF same_event_trans])

lemma throttled_ring_zip:
  "throttled_ring rs (zip lbls evs) e \<longleftrightarrow> (\<exists>i < min (length lbls) (length evs).
     e = Fatal (Throttled (lbls ! i)) \<and> (\<exists>r\<in>set (stream_of rs (evs ! i)). throttles r))"
  by (auto simp: throttled_ring_def set_zip)

lemma same_events_throttled:
  assumes "list_all2 same_event evs evs'"
  shows "throttled_ring rs (zip lbls evs') = throttled_ring rs (zip lbls evs)"
proof
  fix e
  have "stream_of rs (evs' ! i) = stream_of rs (evs ! i)" if "i < length evs" for i
    using assms that same_eventD(4) by (auto simp: list_all2_conv_all_nth)
  then show "throttled_ring rs (zip lbls evs') e = throttled_ring rs (zip lbls evs) e"
    unfolding throttled_ring_zip list_all2_lengthD [OF assms, symmetric] by (metis min_less_iff_conj)
qed

lemma drain_ready_advances:
  assumes "served k child rs ev"
  shows "advances k child rs False (drain_if_ready ((label, ev), revents)) (label, ev)"
proof -
  have "advances k child rs False (drain_event label ev) (label, ev)"
    using drain_event_advances [OF assms, of label] unfolding advances_def
    by (blast intro: outcome_ends_mono moved_weaken)
  then show ?thesis by (simp add: drain_if_ready_def return_advances)
qed

lemma labelled_events:
  assumes "length lbls = length evs"
  shows "map snd (zip lbls evs) = evs" "snd ` set (zip lbls evs) = set evs"
    "map (mmap_base \<circ> snd) (zip lbls evs) = map mmap_base evs"
proof -
  show snds: "map snd (zip lbls evs) = evs" using assms by simp
  then show "snd ` set (zip lbls evs) = set evs" by (metis list.set_map)
  from snds show "map (mmap_base \<circ> snd) (zip lbls evs) = map mmap_base evs" by (metis map_map)
qed

lemma drains_advance:
  assumes "length lbls = length evs" "length revents = length evs" "distinct (map mmap_base evs)"
    and "\<forall>ev\<in>set evs. served k child rs ev" "\<forall>ev\<in>set evs. in_progress rs ev h"
  shows "outcome False k (for_each drain_if_ready (zip (zip lbls evs) revents)) h
    (ends_or (throttled_ring rs (zip lbls evs)) (\<lambda>evs' h'. moved child rs False evs h evs' h'))"
proof -
  have "list_all2 (\<lambda>x le. advances k child rs False (drain_if_ready x) le) (zip (zip lbls evs) revents) (zip lbls evs)"
    using assms(1,2,4) by (auto simp: list_all2_conv_all_nth intro!: drain_ready_advances)
  from all_advance [OF this] show ?thesis
    using assms(3,5) labelled_events [OF assms(1)] by simp
qed

lemma note_drain_time_outcome:
  "outcome False k (note_drain_time drained t0 iter_ns) h
     (\<lambda>r h'. \<exists>iter. r = Inr iter \<and> (h' = h \<or> (\<exists>x. h' = h @ [(Steady_Clock, x)])))"
  by (simp add: note_drain_time_def run_rules)

definition round_ok ::
  "int \<Rightarrow> nat \<Rightarrow> streams \<Rightarrow> sampling_event list \<Rightarrow> history \<Rightarrow> poll_state \<times> u32 option \<Rightarrow> history \<Rightarrow> bool" where
  "round_ok child limit rs evs h x h' \<longleftrightarrow> rings_ok rs evs (fst x) h' \<and>
     (case snd x of
        None \<Rightarrow> polls child h < limit \<and> polls child h' = Suc (polls child h)
      | Some status \<Rightarrow> exited_with child status h')"

lemma drain_round_outcome:
  assumes k: "exits_within k child limit" and len: "length lbls = length evs" "length revents = length evs"
    and dist: "distinct (map mmap_base evs)" and serve: "\<forall>ev\<in>set evs. served k child rs ev"
    and ok: "rings_ok rs evs s h"
  shows "outcome False k (drain_round lbls child s revents t0) h
    (ends_or (throttled_ring rs (zip lbls evs)) (round_ok child limit rs evs h))"
proof -
  let ?evs = "po_events s" and ?E = "throttled_ring rs (zip lbls evs)"
  have same: "list_all2 same_event evs ?evs" and prog: "\<forall>ev\<in>set ?evs. in_progress rs ev h"
    using ok by (simp_all add: rings_ok_def)
  have lens: "length lbls = length ?evs" "length revents = length ?evs"
    using len list_all2_lengthD [OF same] by simp_all
  have drains: "outcome False k (for_each drain_if_ready (zip (zip lbls ?evs) revents)) h
      (ends_or ?E (\<lambda>evs' h'. moved child rs False ?evs h evs' h'))"
    unfolding same_events_throttled [OF same, symmetric]
    by (rule drains_advance [OF lens])
      (use dist serve prog same_events_bases [OF same] same_events_served [OF same] in auto)
  have finish: "outcome False k (and_then (call (Waitpid child No_Hang)) (\<lambda>w.
        if r_ret w < 0 then die_errno ''waitpid (drain loop)'' w
        else return (\<lparr>po_events = evs', drain_iter_ns = iter\<rparr>,
               if r_ret w = child then Some (r_status w) else None))) h2
      (ends_or ?E (round_ok child limit rs evs h))"
    if prog: "\<forall>ev\<in>set evs'. in_progress rs ev h2" and same': "list_all2 same_event ?evs evs'"
      and polls: "polls child h2 = polls child h" for evs' iter h2
  proof -
    let ?w = "k h2 (Waitpid child No_Hang)"
    have w: "r_ret ?w \<in> {0, child}" "limit \<le> polls child h2 \<longrightarrow> r_ret ?w = child" "0 < child"
      using k by (auto simp: exits_within_def)
    have "rings_ok rs evs \<lparr>po_events = evs', drain_iter_ns = iter\<rparr>
        (h2 @ [(Waitpid child No_Hang, ?w)])"
      using prog len same_events_trans [OF same same'] by (simp add: rings_ok_def in_progress_call)
    moreover have "polls child (h2 @ [(Waitpid child No_Hang, ?w)]) = Suc (polls child h)"
      using polls by (simp add: polls_def)
    ultimately show ?thesis
      using w polls by (auto simp: run_rules round_ok_def exited_with_def)
  qed
  have timed: "outcome False k (and_then (note_drain_time drained t0 (drain_iter_ns s)) (\<lambda>iter.
        and_then (call (Waitpid child No_Hang)) (\<lambda>w.
          if r_ret w < 0 then die_errno ''waitpid (drain loop)'' w
          else return (\<lparr>po_events = evs', drain_iter_ns = iter\<rparr>,
                 if r_ret w = child then Some (r_status w) else None)))) h1
      (ends_or ?E (round_ok child limit rs evs h))"
    if "moved child rs False ?evs h evs' h1" for drained evs' h1
  proof (rule outcome_then_succeeds [OF note_drain_time_outcome], rule finish)
    fix iter h2 assume h2: "h2 = h1 \<or> (\<exists>x. h2 = h1 @ [(Steady_Clock, x)])"
    have "in_progress rs ev h2 = in_progress rs ev h1" for ev
      using h2 by (auto simp: in_progress_call)
    then show "\<forall>ev\<in>set evs'. in_progress rs ev h2" "list_all2 same_event ?evs evs'"
      using that by (auto simp: moved_def)
    have "polls child h2 = polls child h1" using h2 by (auto simp: polls_def)
    then show "polls child h2 = polls child h"
      using that ring_calls_polls [of _ _ child h] by (auto simp: moved_def)
  qed
  show ?thesis unfolding drain_round_def
    by (rule outcome_then_ends [OF drains], rule timed)
qed

lemma round_ok_polls: "polls child h1 = polls child h \<Longrightarrow> round_ok child limit rs evs h1 x h' \<Longrightarrow> round_ok child limit rs evs h x h'"
  by (cases "snd x") (simp_all add: round_ok_def)

lemma poll_round_outcome:
  assumes k: "exits_within k child limit" and len: "length lbls = length evs"
    and dist: "distinct (map mmap_base evs)" and serve: "\<forall>ev\<in>set evs. served k child rs ev"
    and ok: "rings_ok rs evs s h"
  shows "outcome False k (poll_round lbls child s) h
    (ends_or (throttled_ring rs (zip lbls evs)) (round_ok child limit rs evs h))"
proof -
  let ?c = "Poll (map ev_fd (po_events s))"
  let ?p = "k h ?c"
  let ?h1 = "(h @ [(?c, ?p)]) @ [(Steady_Clock, k (h @ [(?c, ?p)]) Steady_Clock)]"
  have "length (po_events s) = length evs"
    using ok by (auto simp: rings_ok_def dest: list_all2_lengthD)
  then have lens: "length (map (r_revents ?p) [0..<length (po_events s)]) = length evs"
    by simp
  have "rings_ok rs evs s ?h1" using ok by (simp add: rings_ok_def in_progress_append)
  note drained = drain_round_outcome [OF k len lens dist serve this]
  have same: "polls child ?h1 = polls child h" by (simp add: polls_def)
  from drained
  have drain: "outcome False k (drain_round lbls child s
        (map (r_revents ?p) [0..<length (po_events s)]) t0) ?h1
      (ends_or (throttled_ring rs (zip lbls evs)) (round_ok child limit rs evs h))" for t0
    by (rule outcome_ends_mono) (auto simp del: append_assoc intro: round_ok_polls [OF same])
  have poll: "\<not> (r_ret ?p < 0 \<and> r_errno ?p \<noteq> EINTR)"
    using k by (auto simp: exits_within_def not_less)
  show ?thesis
    unfolding poll_round_def outcome_and_then [of _ _ "call ?c"] outcome_call sum.case if_not_P [OF poll] Let_def
      outcome_and_then [of _ _ "call Steady_Clock"]
    by (rule drain)
qed

lemma outcome_poll_loop_step:
  assumes "outcome False k (poll_round lbls child s) h (ends_or E P)"
    and "\<And>s' status h'. P (s', Some status) h' \<Longrightarrow> Q (s', status) h'"
    and "\<And>s' h'. P (s', None) h' \<Longrightarrow> outcome False k (poll_loop lbls child s') h' (ends_or E Q)"
  shows "outcome False k (poll_loop lbls child s) h (ends_or E Q)"
proof -
  obtain r h' where round: "poll_round lbls child s k h = Some (r, h')" "ends_or E P r h'"
    using outcome_returns [OF assms(1)] by auto
  show ?thesis
  proof (cases r)
    case (Inl e)
    with round show ?thesis by (simp add: outcome_def poll_loop.simps [of lbls child s])
  next
    case (Inr x)
    then show ?thesis using round assms(2,3)
      by (cases x, cases "snd x") (simp_all add: outcome_def poll_loop.simps [of lbls child s])
  qed
qed

lemma poll_loop_outcome:
  assumes "exits_within k child limit" "length lbls = length evs"
    and "distinct (map mmap_base evs)" "\<forall>ev\<in>set evs. served k child rs ev" "rings_ok rs evs s h"
  shows "outcome False k (poll_loop lbls child s) h
    (ends_or (throttled_ring rs (zip lbls evs)) (\<lambda>x h'. rings_ok rs evs (fst x) h' \<and> exited_with child (snd x) h'))"
  using assms(5)
proof (induction "limit - polls child h" arbitrary: s h rule: less_induct)
  case less
  show ?case
  proof (rule outcome_poll_loop_step [OF poll_round_outcome [OF assms(1-4) less.prems]])
    fix s' h' assume "round_ok child limit rs evs h (s', None) h'"
    then have "polls child h < limit" "polls child h' = Suc (polls child h)" "rings_ok rs evs s' h'"
      by (simp_all add: round_ok_def)
    moreover from this have "limit - polls child h' < limit - polls child h" by linarith
    ultimately show "outcome False k (poll_loop lbls child s') h' (ends_or (throttled_ring rs (zip lbls evs))
        (\<lambda>x h'. rings_ok rs evs (fst x) h' \<and> exited_with child (snd x) h'))"
      by (intro less.hyps)
  qed (simp add: round_ok_def)
qed

section \<open>The whole run\<close>

text \<open>What stays of an event from its opening to the end.\<close>

definition finished :: "streams \<Rightarrow> sampling_event \<Rightarrow> sampling_event \<Rightarrow> bool" where
  "finished rs ev ev' \<longleftrightarrow> mmap_base ev' = mmap_base ev \<and> ev_cpu ev' = ev_cpu ev \<and>
     requested_period ev' = requested_period ev \<and> all_delivered rs ev'"

definition counts_readable :: "kernel \<Rightarrow> bool" where
  "counts_readable k \<longleftrightarrow> (\<forall>h fd. r_ret (k h (Read_Counts fd)) = sizeof_counts)"

lemma finish_all_outcome:
  assumes "counts_readable k"
  shows "outcome False k (for_each finish_sampling evs) h
    (\<lambda>r h'. \<exists>evs' t. r = Inr evs' \<and> h' = h @ t \<and> list_all2 (\<lambda>ev ev'. ev' = ev\<lparr>ev_counts := ev_counts ev'\<rparr>) evs evs')"
proof (induction evs arbitrary: h)
  case Nil
  then show ?case by (simp add: run_rules)
next
  case (Cons ev evs)
  have first: "outcome False k (finish_sampling ev) h
      (\<lambda>r h'. \<exists>ev'. r = Inr ev' \<and> (\<exists>t. h' = h @ t) \<and> ev' = ev\<lparr>ev_counts := ev_counts ev'\<rparr>)"
    using assms by (simp add: finish_sampling_def run_rules counts_readable_def)
  show ?case unfolding for_each.simps
  proof (rule outcome_then_succeeds [OF first])
    fix ev' h1 assume ev': "(\<exists>t. h1 = h @ t) \<and> ev' = ev\<lparr>ev_counts := ev_counts ev'\<rparr>"
    show "outcome False k (and_then (for_each finish_sampling evs) (\<lambda>ys. return (ev' # ys))) h1
        (\<lambda>r h'. \<exists>evs' t. r = Inr evs' \<and> h' = h @ t \<and>
          list_all2 (\<lambda>ev ev'. ev' = ev\<lparr>ev_counts := ev_counts ev'\<rparr>) (ev # evs) evs')"
      unfolding outcome_and_then
      by (rule outcome_mono [OF Cons.IH]) (use ev' in \<open>auto simp: outcome_return\<close>)
  qed
qed

lemma finished_counts:
  assumes "same_event ev ev1" "all_delivered rs ev1" "ev2 = ev1\<lparr>ev_counts := ev_counts ev2\<rparr>"
  shows "finished rs ev ev2"
proof -
  have "mmap_base ev2 = mmap_base ev1 \<and> ev_cpu ev2 = ev_cpu ev1 \<and> requested_period ev2 = requested_period ev1 \<and> ev_ring ev2 = ev_ring ev1"
    by (subst (1 2 3 4) assms(3)) simp
  moreover have "mmap_base ev1 = mmap_base ev \<and> ev_cpu ev1 = ev_cpu ev \<and> requested_period ev1 = requested_period ev"
    using assms(1) unfolding same_event_def by (metis sampling_event.select_convs sampling_event.surjective sampling_event.update_convs(6))
  ultimately show ?thesis using assms(2) by (simp add: finished_def all_delivered_def stream_of_def)
qed

lemma exited_gone: "exited_with child status h \<Longrightarrow> child_gone child h"
  by (auto simp: exited_with_def child_gone_def)

lemma exited_append: "exited_with child status h \<Longrightarrow> exited_with child status (h @ t)"
  by (auto simp: exited_with_def)

lemma final_drains:
  assumes "length lbls = length evs" "distinct (map mmap_base evs)" "\<forall>ev\<in>set evs. served k child rs ev"
    and "\<forall>ev\<in>set evs. in_progress rs ev h"
  shows "outcome False k (for_each (\<lambda>(label, ev). drain_event label ev) (zip lbls evs)) h
    (ends_or (throttled_ring rs (zip lbls evs)) (\<lambda>evs' h'. moved child rs True evs h evs' h'))"
proof -
  have "list_all2 (\<lambda>x le. advances k child rs True (case x of (label, ev) \<Rightarrow> drain_event label ev) le) (zip lbls evs) (zip lbls evs)"
    using assms(1,3) by (auto simp: list_all2_conv_all_nth intro!: drain_event_advances)
  from all_advance [OF this] show ?thesis
    using assms(2,4) labelled_events [OF assms(1)] by simp
qed

definition watched :: "streams \<Rightarrow> int \<Rightarrow> sampling_event list \<Rightarrow> sampling_event list \<times> int list \<times> int \<Rightarrow> history \<Rightarrow> bool" where
  "watched rs child evs x h' \<longleftrightarrow> list_all2 (finished rs) evs (fst x) \<and>
     (\<exists>status. exited_with child status h' \<and> snd (snd x) = exit_code_of status)"

lemma watch_target_outcome:
  assumes k: "exits_within k child limit" "counts_readable k" and len: "length lbls = length evs"
    and dist: "distinct (map mmap_base evs)" and serve: "\<forall>ev\<in>set evs. served k child rs ev"
    and prog: "\<forall>ev\<in>set evs. in_progress rs ev h"
  shows "outcome False k (watch_target lbls child evs) h
    (ends_or (throttled_ring rs (zip lbls evs)) (watched rs child evs))"
proof -
  let ?E = "throttled_ring rs (zip lbls evs)"
  let ?s = "\<lparr>po_events = evs, drain_iter_ns = []\<rparr>"
  have start: "rings_ok rs evs ?s h" using prog by (simp add: rings_ok_def list_all2_refl)
  have finish: "outcome False k (and_then (for_each finish_sampling evs2) (\<lambda>evs. return (evs, iter, exit_code_of status))) h2
      (ends_or ?E (watched rs child evs))"
    if m: "moved child rs True evs1 h1 evs2 h2" and same: "list_all2 same_event evs evs1"
      and ex: "exited_with child status h1" for evs1 h1 evs2 h2 iter status
  proof -
    have same2: "list_all2 same_event evs evs2" and all: "\<forall>ev\<in>set evs2. all_delivered rs ev"
      and ex2: "exited_with child status h2"
      using m same_events_trans [OF same] exited_gone [OF ex] exited_append [OF ex] by (auto simp: moved_def)
    have "list_all2 (finished rs) evs evs3"
      if "list_all2 (\<lambda>ev ev'. ev' = ev\<lparr>ev_counts := ev_counts ev'\<rparr>) evs2 evs3" for evs3
      using same2 all that by (fastforce simp: list_all2_conv_all_nth intro: finished_counts)
    with ex2 show ?thesis unfolding outcome_and_then
      by (intro outcome_mono [OF finish_all_outcome [OF k(2)]])
        (auto simp: outcome_return watched_def intro!: exI [of _ status] exited_append)
  qed
  have after: "outcome False k (and_then (for_each (\<lambda>(label, ev). drain_event label ev) (zip lbls (po_events (fst x)))) (\<lambda>evs.
        and_then (for_each finish_sampling evs) (\<lambda>evs. return (evs, drain_iter_ns (fst x), exit_code_of (snd x))))) h1
      (ends_or ?E (watched rs child evs))"
    if x: "rings_ok rs evs (fst x) h1 \<and> exited_with child (snd x) h1" for x h1
  proof -
    have same: "list_all2 same_event evs (po_events (fst x))" using x by (simp add: rings_ok_def)
    show ?thesis
    proof (rule outcome_then_ends [OF final_drains [where evs = "po_events (fst x)" and lbls = lbls,
          unfolded same_events_throttled [OF same]]])
      show "length lbls = length (po_events (fst x))" using len list_all2_lengthD [OF same] by simp
      show "distinct (map mmap_base (po_events (fst x)))" using dist same_events_bases [OF same] by simp
      show "\<forall>ev\<in>set (po_events (fst x)). served k child rs ev" using same_events_served [OF same serve] .
      show "\<forall>ev\<in>set (po_events (fst x)). in_progress rs ev h1" using x by (simp add: rings_ok_def)
    qed (use x same finish in blast)
  qed
  show ?thesis unfolding watch_target_def
  proof (rule outcome_then_ends [OF poll_loop_outcome [OF k(1) len dist serve start]])
    fix x h1 assume "rings_ok rs evs (fst x) h1 \<and> exited_with child (snd x) h1"
    then show "outcome False k (case x of (s, status) \<Rightarrow>
        and_then (for_each (\<lambda>(label, ev). drain_event label ev) (zip lbls (po_events s))) (\<lambda>evs.
          and_then (for_each finish_sampling evs) (\<lambda>evs. return (evs, drain_iter_ns s, exit_code_of status)))) h1
      (ends_or ?E (watched rs child evs))"
      using after [of x h1] by (cases x) simp
  qed
qed

text \<open>
  A kernel on which a run on this child succeeds: the child stops, every event opens,
  up to \<open>rings\<close> mappings get fresh addresses, with the streams \<open>rs\<close> behind them, the
  child exits within \<open>limit\<close> polls, and the counts can be read.
\<close>

definition cooperates :: "kernel \<Rightarrow> int \<Rightarrow> nat \<Rightarrow> streams \<Rightarrow> nat \<Rightarrow> bool" where
  "cooperates k child limit rs rings \<longleftrightarrow>
     (\<forall>h. 0 \<le> r_ret (k h (Waitpid child Untraced)) \<and> WIFSTOPPED (r_status (k h (Waitpid child Untraced))) \<and>
        \<not> r_blocks (k h (Waitpid child Untraced))) \<and>
     (\<forall>h attr cpu. 0 \<le> r_ret (k h (Perf_Event_Open attr child cpu (-1) 0))) \<and>
     (\<forall>h. 0 < r_ret (k h Page_Size)) \<and>
     (\<forall>h. r_ret (k h (Kill_Sigcont child)) = 0) \<and>
     (\<forall>h fd len. length (trace_of ring_mapped h) < rings \<longrightarrow>
        r_base (k h (Mmap fd len)) \<noteq> MAP_FAILED \<and>
        r_base (k h (Mmap fd len)) \<notin> fst ` set (trace_of ring_mapped h) \<and>
        serves_ring k child (r_base (k h (Mmap fd len))) (r_data_size (k h (Mmap fd len))) (rs (r_base (k h (Mmap fd len))))) \<and>
     exits_within k child limit \<and> counts_readable k"

text \<open>The rings opened so far: freshly mapped, nothing read, served.\<close>

definition no_rings :: "history \<Rightarrow> bool" where
  "no_rings h \<longleftrightarrow> trace_of ring_mapped h = [] \<and> (\<forall>c\<in>set (calls h). \<forall>b u. c \<noteq> Store_Tail b u)"

definition rings_opened ::
  "kernel \<Rightarrow> int \<Rightarrow> streams \<Rightarrow> (sampled_plan \<times> nat) list \<Rightarrow> sampling_event list \<Rightarrow> history \<Rightarrow> bool" where
  "rings_opened k child rs cells evs h \<longleftrightarrow> list_all2 opened_for cells evs \<and>
     map fst (trace_of ring_mapped h) = map mmap_base evs \<and> distinct (map mmap_base evs) \<and>
     (\<forall>c\<in>set (calls h). \<forall>b u. c \<noteq> Store_Tail b u) \<and>
     (\<forall>ev\<in>set evs. served k child rs ev \<and> ev_ring ev = fresh_ring)"

lemma rings_opened_progress:
  assumes "rings_opened k child rs cells evs h"
  shows "\<forall>ev\<in>set evs. in_progress rs ev h"
proof
  fix ev assume "ev \<in> set evs"
  moreover have "stored_tail (mmap_base ev) ([] @ h) = stored_tail (mmap_base ev) []"
    using assms by (intro stored_tail_append) (auto simp: rings_opened_def)
  ultimately show "in_progress rs ev h"
    using assms by (auto simp: rings_opened_def in_progress_def delivered_upto_def stream_effect_Nil intro!: exI [of _ 0])
qed

lemma open_cell_outcome:
  assumes k: "cooperates k child limit rs rings" and ok: "rings_opened k child rs cells evs h" and "length evs < rings"
  shows "outcome False k (open_cell child cell) h
    (\<lambda>r h'. \<exists>ev. r = Inr ev \<and> rings_opened k child rs (cells @ [cell]) (evs @ [ev]) h')"
proof -
  obtain pl period c where cell: "cell = ((pl, period), c)" by (metis prod.exhaust)
  let ?o = "Perf_Event_Open (sampling_attr (hw_config pl) period) child (int c) (-1) 0"
  let ?h1 = "h @ [(?o, k h ?o)]"
  let ?h2 = "?h1 @ [(Page_Size, k ?h1 Page_Size)]"
  let ?len = "(1 + kDataPages) * word_of_int (r_ret (k ?h1 Page_Size))"
  let ?m = "Mmap (r_ret (k h ?o)) ?len"
  have mapped: "trace_of ring_mapped ?h2 = trace_of ring_mapped h" by (simp add: ring_mapped_def)
  have "length (trace_of ring_mapped h) = length evs"
    using ok unfolding rings_opened_def by (metis length_map)
  then have base: "r_base (k ?h2 ?m) \<noteq> MAP_FAILED" "r_base (k ?h2 ?m) \<notin> fst ` set (trace_of ring_mapped h)"
    "serves_ring k child (r_base (k ?h2 ?m)) (r_data_size (k ?h2 ?m)) (rs (r_base (k ?h2 ?m)))"
    using k assms(3) mapped unfolding cooperates_def by metis+
  have opens: "\<not> r_ret (k h ?o) < 0" "\<not> r_ret (k ?h1 Page_Size) \<le> 0"
    using k by (simp_all add: cooperates_def not_less not_le)
  have "fst ` set (trace_of ring_mapped h) = mmap_base ` set evs"
    using ok unfolding rings_opened_def by (metis list.set_map)
  then show ?thesis
    using ok base opens
    by (simp add: open_cell_def cell open_sampling_def perf_event_open_def run_rules Let_def rings_opened_def opened_for_def
        ring_mapped_def served_def stream_of_def list_all2_appendI del: append_assoc)
qed

lemma open_cells_outcome:
  assumes k: "cooperates k child limit rs rings"
    and "rings_opened k child rs cells evs h" "length evs + length cells2 \<le> rings"
  shows "outcome False k (for_each (open_cell child) cells2) h
    (\<lambda>r h'. \<exists>evs'. r = Inr evs' \<and> rings_opened k child rs (cells @ cells2) (evs @ evs') h')"
  using assms(2,3)
proof (induction cells2 arbitrary: cells evs h)
  case Nil
  then show ?case by (simp add: run_rules)
next
  case (Cons cell cells2)
  have len: "length evs < rings" using Cons.prems(2) by simp
  show ?case unfolding for_each.simps
  proof (rule outcome_then_succeeds [OF open_cell_outcome [OF k Cons.prems(1) len]])
    fix ev h1 assume "rings_opened k child rs (cells @ [cell]) (evs @ [ev]) h1"
    then have "outcome False k (for_each (open_cell child) cells2) h1
        (\<lambda>r h'. \<exists>evs'. r = Inr evs' \<and> rings_opened k child rs ((cells @ [cell]) @ cells2) ((evs @ [ev]) @ evs') h')"
      by (rule Cons.IH) (use Cons.prems(2) in simp)
    then show "outcome False k (and_then (for_each (open_cell child) cells2) (\<lambda>ys. return (ev # ys))) h1
        (\<lambda>r h'. \<exists>evs'. r = Inr evs' \<and> rings_opened k child rs (cells @ cell # cells2) (evs @ evs') h')"
      by (rule outcome_then_succeeds) (simp add: outcome_return)
  qed
qed

lemma rings_opened_append:
  "rings_opened k child rs cells evs h \<Longrightarrow> trace_of ring_mapped t = [] \<Longrightarrow>
   \<forall>c\<in>set (calls t). \<forall>b u. c \<noteq> Store_Tail b u \<Longrightarrow> rings_opened k child rs cells evs (h @ t)"
  by (auto simp: rings_opened_def)

text \<open>
  The results of a run: a throttled ring, by its position among the mapped rings, ends it;
  otherwise every stream is delivered, and none has a throttle record.
\<close>

definition throttled_run :: "streams \<Rightarrow> string list \<Rightarrow> history \<Rightarrow> stop \<Rightarrow> bool" where
  "throttled_run rs lbls h e \<longleftrightarrow> (let bases = map fst (trace_of ring_mapped h) in
     length bases = length lbls \<and>
     (\<exists>i<length lbls. e = Fatal (Throttled (lbls ! i)) \<and> (\<exists>r\<in>set (rs (bases ! i)). throttles r)))"

definition delivered_run ::
  "streams \<Rightarrow> int \<Rightarrow> (sampled_plan \<times> nat) list \<Rightarrow> sampling_event list \<times> int list \<times> int \<Rightarrow> history \<Rightarrow> bool" where
  "delivered_run rs child cells = (\<lambda>(evs, iter, code) h'. list_all2 opened_for cells evs \<and>
     distinct (map mmap_base evs) \<and> (\<forall>ev\<in>set evs. all_delivered rs ev) \<and>
     (\<exists>status. exited_with child status h' \<and> code = exit_code_of status))"

lemma opened_throttled:
  assumes "rings_opened k child rs (grid nr_cpus sps) evs h"
    and "throttled_ring rs (zip (labels nr_cpus sps) evs) e" "trace_of ring_mapped t = []"
  shows "throttled_run rs (labels nr_cpus sps) (h @ t) e"
proof -
  have len: "length (labels nr_cpus sps) = length evs"
    using assms(1) by (auto simp: rings_opened_def dest: list_all2_lengthD)
  have bases: "map fst (trace_of ring_mapped (h @ t)) = map mmap_base evs"
    using assms(1,3) by (simp add: rings_opened_def)
  from assms(2) len obtain i where i: "i < length evs" "e = Fatal (Throttled (labels nr_cpus sps ! i))"
    "\<exists>r\<in>set (rs (mmap_base (evs ! i))). throttles r"
    unfolding throttled_ring_zip stream_of_def by auto
  then have "\<exists>r\<in>set (rs (map mmap_base evs ! i)). throttles r" by simp
  with i(1,2) show ?thesis
    unfolding throttled_run_def Let_def bases len by (simp only: length_map) blast
qed

lemma opened_delivered:
  assumes "rings_opened k child rs cells evs h" "watched rs child evs x h'"
  shows "delivered_run rs child cells x h'"
proof -
  have fin: "list_all2 (finished rs) evs (fst x)" using assms(2) by (simp add: watched_def)
  have "map mmap_base (fst x) = map mmap_base evs"
    using fin by (auto simp: list_all2_conv_all_nth finished_def list_eq_iff_nth_eq)
  moreover have "list_all2 opened_for cells (fst x)"
    using assms(1) by (intro list_all2_trans [OF _ _ fin, of opened_for])
      (auto simp: opened_for_def finished_def rings_opened_def)
  moreover have "\<forall>ev\<in>set (fst x). all_delivered rs ev"
    using fin by (auto simp: list_all2_conv_all_nth finished_def in_set_conv_nth)
  ultimately show ?thesis
    using assms by (cases x) (auto simp: delivered_run_def watched_def rings_opened_def)
qed

definition run_result ::
  "streams \<Rightarrow> int \<Rightarrow> nat \<Rightarrow> sampled_plan list \<Rightarrow> stop + sampling_event list \<times> int list \<times> int \<Rightarrow> history \<Rightarrow> bool" where
  "run_result rs child nr_cpus sps r h' = (case r of
       Inl e \<Rightarrow> throttled_run rs (labels nr_cpus sps) h' e
     | Inr x \<Rightarrow> delivered_run rs child (grid nr_cpus sps) x h')"

lemma measure_target_outcome:
  assumes k: "cooperates k child limit rs (length (grid nr_cpus sps))" and h: "no_rings h"
    and f: "r_ret (k h Fork) = child"
  shows "outcome False k (measure_target nr_cpus sps argv) h (run_result rs child nr_cpus sps)"
proof -
  let ?opened = "rings_opened k child rs (grid nr_cpus sps)"
  have ex: "exits_within k child limit" "counts_readable k" and kill: "\<And>h. r_ret (k h (Kill_Sigcont child)) = 0"
    using k by (simp_all add: cooperates_def)
  have fork: "outcome False k (fork_stop_exec argv) h
      (\<lambda>r h'. \<exists>c. r = Inr c \<and> c = child \<and> rings_opened k child rs [] [] h')"
    using k h f ex(1)
    by (simp add: fork_stop_exec_def run_rules cooperates_def exits_within_def rings_opened_def no_rings_def
        ring_mapped_def not_less)
  have opens: "outcome False k (for_each (open_cell child) (grid nr_cpus sps)) h1 (\<lambda>r h'. \<exists>evs. r = Inr evs \<and> ?opened evs h')"
    if "rings_opened k child rs [] [] h1" for h1
    using open_cells_outcome [OF k that, of "grid nr_cpus sps"] by simp
  have start: "outcome False k (start_target nr_cpus sps argv) h
      (\<lambda>r h'. \<exists>x. r = Inr x \<and> fst x = child \<and> ?opened (snd x) h')"
    unfolding start_target_def
    by (rule outcome_then_succeeds [OF fork], elim conjE, simp only:, rule outcome_then_succeeds [OF opens], assumption)
      (simp add: outcome_return)
  have watch: "outcome False k (watch_target (labels nr_cpus sps) child evs) h1 (run_result rs child nr_cpus sps)"
    if o: "?opened evs h1" for evs h1
  proof -
    have len: "length (labels nr_cpus sps) = length evs"
      using o by (auto simp: rings_opened_def dest: list_all2_lengthD)
    have "outcome False k (watch_target (labels nr_cpus sps) child evs) h1
        (ends_or (throttled_ring rs (zip (labels nr_cpus sps) evs)) (watched rs child evs))"
      by (rule watch_target_outcome [OF ex len])
        (use o rings_opened_progress [OF o] in \<open>simp_all add: rings_opened_def\<close>)
    from outcome_returns [OF this] obtain r h' where r: "watch_target (labels nr_cpus sps) child evs k h1 = Some (r, h')"
      "ends_or (throttled_ring rs (zip (labels nr_cpus sps) evs)) (watched rs child evs) r h'" by blast
    moreover obtain t where "h' = h1 @ t" "trace_of ring_mapped t = []"
      using doesD [OF watch_samples_nothing [OF len] r(1)] samples_nothing_traces(3) by blast
    ultimately show ?thesis
      using opened_throttled [OF o] opened_delivered [OF o]
      by (cases r) (auto simp: outcome_def run_result_def)
  qed
  show ?thesis unfolding measure_target_def
  proof (rule outcome_then_succeeds [OF start])
    fix x h1 assume x: "fst x = child \<and> ?opened (snd x) h1"
    have "?opened (snd x) (h1 @ [(Kill_Sigcont child, k h1 (Kill_Sigcont child))])"
      using x by (intro rings_opened_append) (simp_all add: ring_mapped_def)
    with watch x kill show "outcome False k (case x of (child, evs) \<Rightarrow>
        and_then (call (Kill_Sigcont child)) (\<lambda>s. if r_ret s \<noteq> 0 then die_errno ''kill(SIGCONT)'' s
          else watch_target (labels nr_cpus sps) child evs)) h1 (run_result rs child nr_cpus sps)"
      by (cases x) (simp add: outcome_and_then [of _ _ "call c" for c] outcome_call)
  qed
qed

lemma unthrottled_run:
  assumes "cooperates k child limit rs (length (grid nr_cpus sps))" "no_rings h"
    and "\<forall>base. \<forall>r\<in>set (rs base). \<not> throttles r" "r_ret (k h Fork) = child"
  shows "\<exists>x h'. measure_target nr_cpus sps argv k h = Some (Inr x, h') \<and> delivered_run rs child (grid nr_cpus sps) x h'"
proof -
  obtain r h' where r: "measure_target nr_cpus sps argv k h = Some (r, h')" "run_result rs child nr_cpus sps r h'"
    using outcome_returns [OF measure_target_outcome [OF assms(1,2,4), of argv]] by blast
  with assms(3) show ?thesis by (cases r) (auto simp: run_result_def throttled_run_def Let_def)
qed

section \<open>A concrete kernel\<close>

text \<open>
  One CPU; every ring receives one sample; each \<open>fork\<close> gives a new process, which exits with
  status 3 at the second poll. Every event counts 16 times in a second, and the kernel allows
  10 samples a second. Addresses of mappings are given out from two candidates.
\<close>

definition busy_sample :: sample where
  "busy_sample = \<lparr>s_ip = 4198400, s_pid = 7, s_tid = 8, s_period = 3\<rparr>"

definition busy_plans :: "sampled_plan list" where "busy_plans = zip plans [3, 3]"

definition forks :: "history \<Rightarrow> nat" where
  "forks h = length (filter (\<lambda>c. c = Fork) (calls h))"

definition busy_counts :: count_read_format where
  "busy_counts = \<lparr>cr_value = 16, time_enabled = 1000000000, time_running = 1000000000\<rparr>"

definition busy_kernel :: kernel where
  "busy_kernel h c =
     (case c of
        Nprocessors_Online \<Rightarrow> no_reply\<lparr>r_ret := 1\<rparr>
      | Fopen _ \<Rightarrow> no_reply\<lparr>r_ret := 1\<rparr>
      | Fscanf_Long \<Rightarrow> no_reply\<lparr>r_ret := 1, r_value := 10\<rparr>
      | Fork \<Rightarrow> no_reply\<lparr>r_ret := 7 + int (forks h)\<rparr>
      | Waitpid pid No_Hang \<Rightarrow>
          if polls pid h < 1 then no_reply else no_reply\<lparr>r_ret := pid, r_status := status_exited 3\<rparr>
      | Waitpid pid Untraced \<Rightarrow> no_reply\<lparr>r_ret := pid, r_status := 0x137f\<rparr>
      | Waitpid pid Blocking \<Rightarrow> no_reply\<lparr>r_ret := pid, r_status := status_exited 3\<rparr>
      | Perf_Event_Open _ _ _ _ _ \<Rightarrow> no_reply\<lparr>r_ret := int (length h)\<rparr>
      | Page_Size \<Rightarrow> no_reply\<lparr>r_ret := 4096\<rparr>
      | Mmap _ _ \<Rightarrow> no_reply\<lparr>r_data_size := 32,
          r_base := if 0x100000 \<in> fst ` set (trace_of ring_mapped h) then 0x200000 else 0x100000\<rparr>
      | Poll _ \<Rightarrow> no_reply\<lparr>r_ret := 1, r_revents := (\<lambda>_. POLLIN)\<rparr>
      | Load_Ring _ \<Rightarrow> no_reply\<lparr>r_head := 32, r_data := enc_record (sample_record 2 busy_sample)\<rparr>
      | Read_Counts _ \<Rightarrow> no_reply\<lparr>r_ret := 24, r_counts := busy_counts\<rparr>
      | _ \<Rightarrow> no_reply)"

definition busy_stream :: streams where "busy_stream base = [sample_record 2 busy_sample]"

lemma busy_unthrottled: "\<forall>base. \<forall>r\<in>set (busy_stream base). \<not> throttles r"
  by (simp add: busy_stream_def)

lemma busy_serves: "serves_ring busy_kernel child base 32 (busy_stream base)"
  unfolding serves_ring_def
proof (intro conjI allI impI)
  fix h m assume m: "m \<le> length (busy_stream base)"
  then have "m = 0 \<or> m = 1" by (auto simp: busy_stream_def)
  then have "pending_ok (busy_kernel h (Load_Ring base)) 32 (busy_stream base) m 1"
    using ring_holds_rotate [of 0 0 "enc_record (sample_record 2 busy_sample)"]
    by (auto simp: pending_ok_def busy_kernel_def busy_stream_def no_reply_def ring_ok_def ring_holds_def ring_view_def)
  with m show "\<exists>n\<ge>m. n \<le> length (busy_stream base) \<and> (child_gone child h \<longrightarrow> n = length (busy_stream base)) \<and>
      pending_ok (busy_kernel h (Load_Ring base)) 32 (busy_stream base) m n"
    by (intro exI [of _ 1]) (auto simp: busy_stream_def)
qed (simp_all add: busy_stream_def)

lemma fresh_of_two:
  assumes "length xs < 2" "a \<noteq> b"
  shows "(if a \<in> fst ` set xs then b else a) \<notin> fst ` set xs"
proof (cases xs)
  case (Cons y ys)
  then show ?thesis using assms by auto
qed simp

lemma busy_cooperates: "0 < child \<Longrightarrow> cooperates busy_kernel child 1 busy_stream 2"
proof -
  assume child: "0 < child"
  then have "exits_within busy_kernel child 1"
    by (auto simp: exits_within_def busy_kernel_def no_reply_def)
  moreover have "counts_readable busy_kernel"
    by (simp add: counts_readable_def busy_kernel_def no_reply_def sizeof_counts_def)
  moreover have "r_base (busy_kernel h (Mmap fd len)) \<noteq> MAP_FAILED"
    "r_data_size (busy_kernel h (Mmap fd len)) = 32" for h fd len
    by (simp_all add: busy_kernel_def no_reply_def MAP_FAILED_def)
  moreover have "r_base (busy_kernel h (Mmap fd len)) \<notin> fst ` set (trace_of ring_mapped h)"
    if "length (trace_of ring_mapped h) < 2" for h fd len
    using fresh_of_two [OF that, of "0x100000" "0x200000"] by (simp add: busy_kernel_def)
  ultimately show ?thesis
    using child by (simp add: cooperates_def busy_serves) (simp add: busy_kernel_def no_reply_def WIFSTOPPED_def)
qed

lemma busy_grid: "length (grid 1 busy_plans) = 2"
  by (simp add: grid_def busy_plans_def plans_def)

lemma busy_start: "no_rings []"
  by (simp add: no_rings_def)

lemma busy_fork: "r_ret (busy_kernel [] Fork) = 7"
  by (simp add: busy_kernel_def no_reply_def forks_def)

lemma busy_run:
  "\<exists>x before s after child. measure_target 1 busy_plans argv busy_kernel [] =
     Some (Inr x, [] @ before @ (Kill_Sigcont child, s) # after)"
proof -
  obtain x h' where run: "measure_target 1 busy_plans argv busy_kernel [] = Some (Inr x, h')"
    using unthrottled_run [of busy_kernel 7 1 busy_stream 1 busy_plans "[]" argv]
      busy_cooperates [of 7] busy_grid busy_start busy_unthrottled busy_fork by auto
  then have "run_ok 1 busy_plans (Inr x) h'"
    using doesD [OF measure_target_does run] by simp
  then show ?thesis using run by (cases x) (auto simp: run_ok_def in_order_def balanced_def)
qed

text \<open>
  An event that measures what the report says: of the target and what it forks, on the CPU,
  user space only, from \<open>exec\<close> on, a sample with address and period every \<open>period\<close> events.
\<close>

definition exact_event :: "int \<Rightarrow> event_plan \<Rightarrow> u64 \<Rightarrow> int \<Rightarrow> perf_attr \<times> int \<times> int \<times> int \<Rightarrow> bool" where
  "exact_event child pl period cpu = (\<lambda>(attr, pid, c, group_fd). pid = child \<and> c = cpu \<and> group_fd = -1 \<and>
     at_type attr = 0 \<and> at_config attr = hw_config pl \<and> at_sample_period attr = period \<and>
     at_sample_type attr = 0x103 \<and> at_read_format attr = 3 \<and>
     at_disabled attr \<and> at_enable_on_exec attr \<and> at_inherit attr \<and> at_exclude_kernel attr \<and> at_exclude_hv attr)"

lemma planned_exact: "exact_event child (fst (fst x)) (snd (fst x)) (int (snd x)) (planned child x)"
  by (cases x, cases "fst x")
    (simp add: exact_event_def planned_def sampling_attr_def zero_attr_def PERF_TYPE_HARDWARE_def PERF_SAMPLE_IP_def
      PERF_SAMPLE_TID_def PERF_SAMPLE_PERIOD_def PERF_FORMAT_TOTAL_TIME_ENABLED_def PERF_FORMAT_TOTAL_TIME_RUNNING_def)

section \<open>Properties\<close>

text \<open>
  C2: On a kernel that writes its records whenever it likes, the target exiting after
  any number of polls, the measurement run returns. If a throttle record ends it, the
  message names a ring whose stream has one; otherwise no stream has one and every ring
  has delivered its whole stream: each sample once, in order, with the lost and exit
  records counted.
\<close>

theorem measurement_delivers_every_sample:
  assumes "cooperates k child limit rs (length (grid nr_cpus sps))" "no_rings h" "r_ret (k h Fork) = child"
  shows "\<exists>r h'. measure_target nr_cpus sps argv k h = Some (r, h') \<and>
    (case r of
       Inl e \<Rightarrow> throttled_run rs (labels nr_cpus sps) h' e
     | Inr (evs, iter, code) \<Rightarrow>
         list_all2 opened_for (grid nr_cpus sps) evs \<and> distinct (map mmap_base evs) \<and>
         (\<forall>ev\<in>set evs. stream_effect (rs (mmap_base ev)) fresh_ring (ev_ring ev) \<and>
           (\<forall>r\<in>set (rs (mmap_base ev)). \<not> throttles r)) \<and>
         (\<exists>status. exited_with child status h' \<and> code = exit_code_of status))"
  using outcome_returns [OF measure_target_outcome [OF assms, of argv]]
  by (fastforce simp: run_result_def delivered_run_def all_delivered_def stream_of_def split: sum.splits)

theorem measurement_delivers_every_sample_witness:
  "\<exists>evs iter code h'. measure_target 1 busy_plans [''./a''] busy_kernel [] = Some (Inr (evs, iter, code), h') \<and>
    list_all2 opened_for (grid 1 busy_plans) evs \<and> distinct (map mmap_base evs) \<and>
    (\<forall>ev\<in>set evs. stream_effect (busy_stream (mmap_base ev)) fresh_ring (ev_ring ev)) \<and>
    (\<exists>status. exited_with 7 status h' \<and> code = exit_code_of status)"
proof -
  have "cooperates busy_kernel 7 1 busy_stream (length (grid 1 busy_plans))"
    using busy_cooperates [of 7] busy_grid by simp
  from measurement_delivers_every_sample [OF this busy_start busy_fork, of "[''./a'']"] obtain r h' where
    run: "measure_target 1 busy_plans [''./a''] busy_kernel [] = Some (r, h')"
    and res: "case r of
       Inl e \<Rightarrow> throttled_run busy_stream (labels 1 busy_plans) h' e
     | Inr (evs, iter, code) \<Rightarrow>
         list_all2 opened_for (grid 1 busy_plans) evs \<and> distinct (map mmap_base evs) \<and>
         (\<forall>ev\<in>set evs. stream_effect (busy_stream (mmap_base ev)) fresh_ring (ev_ring ev) \<and>
           (\<forall>r\<in>set (busy_stream (mmap_base ev)). \<not> throttles r)) \<and>
         (\<exists>status. exited_with 7 status h' \<and> code = exit_code_of status)"
    by blast
  then show ?thesis
    using busy_unthrottled by (cases r) (auto simp: throttled_run_def Let_def)
qed

text \<open>
  C6: On every kernel, when the measurement resumes the stopped target it has opened
  exactly one sampling event per event and CPU on it, each user space only, inherited,
  armed at exec, with the requested period; afterwards it opens none and resumes
  nothing again.
\<close>

theorem events_open_before_target_runs:
  assumes "measure_target nr_cpus sps argv k h = Some (r, h @ before @ (Kill_Sigcont child, s) # after)"
  shows "trace_of event_opened before = map (planned child) (grid nr_cpus sps) \<and>
    (\<forall>x\<in>set (grid nr_cpus sps). exact_event child (fst (fst x)) (snd (fst x)) (int (snd x)) (planned child x)) \<and>
    (\<forall>c\<in>set (calls after). \<not> opens_event c \<and> \<not> starts_target c)"
proof -
  have "in_order nr_cpus sps (before @ (Kill_Sigcont child, s) # after)"
    using doesD [OF measure_target_does assms] by (auto simp: run_ok_def)
  then obtain b p x a where eq: "before @ (Kill_Sigcont child, s) # after = b @ (Kill_Sigcont p, x) # a"
    and rest: "not_started b" "not_started a" "trace_of event_opened b = map (planned p) (grid nr_cpus sps)"
      "\<forall>c\<in>set (calls a). \<not> opens_event c"
    by (auto simp: in_order_def starts_target_def)
  from start_unique [OF eq rest(1,2)] rest show ?thesis by (auto simp: not_started_def planned_exact)
qed

theorem events_open_before_target_runs_witness:
  "\<exists>r before child s after. measure_target 1 busy_plans [''./a''] busy_kernel [] =
      Some (r, [] @ before @ (Kill_Sigcont child, s) # after) \<and>
    trace_of event_opened before = map (planned child) (grid 1 busy_plans) \<and>
    (\<forall>x\<in>set (grid 1 busy_plans). exact_event child (fst (fst x)) (snd (fst x)) (int (snd x)) (planned child x)) \<and>
    (\<forall>c\<in>set (calls after). \<not> opens_event c \<and> \<not> starts_target c)"
proof -
  obtain x before s after child where run: "measure_target 1 busy_plans [''./a''] busy_kernel [] =
      Some (Inr x, [] @ before @ (Kill_Sigcont child, s) # after)"
    using busy_run by blast
  from events_open_before_target_runs [OF this] run show ?thesis by blast
qed

theorem measurement_releases_what_it_acquires:
  assumes "measure_target nr_cpus sps argv k h = Some (Inr x, h @ t)"
  shows "trace_of fd_read t = trace_of fd_opened t \<and> trace_of fd_closed t = trace_of fd_opened t \<and>
    trace_of ring_unmapped t = trace_of ring_mapped t"
  using doesD [OF measure_target_does assms] by (cases x) (auto simp: run_ok_def balanced_def)

theorem measurement_releases_what_it_acquires_witness:
  "\<exists>x t. measure_target 1 busy_plans [''./a''] busy_kernel [] = Some (Inr x, [] @ t) \<and>
    trace_of fd_read t = trace_of fd_opened t \<and> trace_of fd_closed t = trace_of fd_opened t \<and>
    trace_of ring_unmapped t = trace_of ring_mapped t"
proof -
  obtain x t where run: "measure_target 1 busy_plans [''./a''] busy_kernel [] = Some (Inr x, [] @ t)"
    using busy_run by blast
  from measurement_releases_what_it_acquires [OF this] run show ?thesis by blast
qed

end
