(* ===== verification/Percentiles.thy ===== *)
theory Percentiles
  imports Std_Lib Complex_Main
begin

text \<open>
  Percentiles as \<open>compute_percentiles\<close> of \<open>benchmarks/queue_latency.cpp\<close> and the drain
  statistics of \<open>src/main.cpp\<close> take them: the element at index \<open>min(n - 1, (size_t)(q * n))\<close>
  of the sorted samples. The product \<open>q * n\<close> is a real here.
\<close>

definition quantile_index :: "real \<Rightarrow> nat \<Rightarrow> nat" where
  "quantile_index q n = min (n - 1) (nat \<lfloor>q * real n\<rfloor>)"

definition quantile_at :: "'a list \<Rightarrow> real \<Rightarrow> 'a" where
  "quantile_at xs q = xs ! quantile_index q (length xs)"

lemma quantile_index_bound: "0 < n \<Longrightarrow> quantile_index q n < n"
  by (simp add: quantile_index_def min_less_iff_disj)

lemma quantile_index_mono: "q \<le> r \<Longrightarrow> quantile_index q n \<le> quantile_index r n"
  unfolding quantile_index_def
  by (intro min.mono order_refl nat_mono floor_mono mult_right_mono) simp_all

lemma quantile_index_le: "0 \<le> q \<Longrightarrow> real (quantile_index q n) \<le> q * real n"
proof -
  assume q: "0 \<le> q"
  have "real (quantile_index q n) \<le> real (nat \<lfloor>q * real n\<rfloor>)" by (simp add: quantile_index_def)
  also have "\<dots> \<le> q * real n" using q by simp
  finally show ?thesis .
qed

lemma quantile_index_gt: "q < 1 \<Longrightarrow> 0 < n \<Longrightarrow> q * real n < real (quantile_index q n) + 1"
proof -
  assume q: "q < 1" "0 < n"
  have "q * real n < real n" using q by simp
  moreover have "q * real n < real (nat \<lfloor>q * real n\<rfloor>) + 1" by linarith
  ultimately show ?thesis using q(2) by (simp add: quantile_index_def min_def)
qed

text \<open>In a sorted list, the samples below an element precede it, those up to it include it.\<close>

lemma length_filter_nth_le:
  assumes "sorted xs" "k < length xs"
  shows "length (filter (\<lambda>x. x < xs ! k) xs) \<le> k" and "k < length (filter (\<lambda>x. x \<le> xs ! k) xs)"
proof -
  have split: "xs = take k xs @ drop k xs" "xs = take (Suc k) xs @ drop (Suc k) xs" by simp_all
  have "filter (\<lambda>x. x < xs ! k) (drop k xs) = []"
    using assms by (auto simp: filter_empty_conv in_set_conv_nth sorted_nth_mono not_less)
  then have "filter (\<lambda>x. x < xs ! k) xs = filter (\<lambda>x. x < xs ! k) (take k xs)"
    by (subst split(1)) (simp only: filter_append append_Nil2)
  then show "length (filter (\<lambda>x. x < xs ! k) xs) \<le> k"
    using length_filter_le [of "\<lambda>x. x < xs ! k" "take k xs"] by simp
  have "filter (\<lambda>x. x \<le> xs ! k) (take (Suc k) xs) = take (Suc k) xs"
    using assms by (auto simp: filter_id_conv in_set_conv_nth sorted_nth_mono)
  then have "filter (\<lambda>x. x \<le> xs ! k) xs = take (Suc k) xs @ filter (\<lambda>x. x \<le> xs ! k) (drop (Suc k) xs)"
    by (subst split(2)) (simp only: filter_append)
  with assms(2) show "k < length (filter (\<lambda>x. x \<le> xs ! k) xs)" by simp
qed

text \<open>A percentile of the samples, sorted by \<open>std::sort\<close>: what it promises of them.\<close>

lemma quantile_splits:
  fixes xs :: "'a::linorder list"
  assumes "xs \<noteq> []" "0 \<le> q" "q < 1"
  shows "real (length (filter (\<lambda>x. x < quantile_at (sort_by (<) xs) q) xs)) \<le> q * real (length xs)"
    and "q * real (length xs) < real (length (filter (\<lambda>x. x \<le> quantile_at (sort_by (<) xs) q) xs))"
proof -
  let ?ys = "sort_by (<) xs" and ?k = "quantile_index q (length xs)"
  have ys: "sorted ?ys" "mset ?ys = mset xs" "length ?ys = length xs"
    by (simp_all add: ksort.srt_less)
  have k: "?k < length ?ys" using assms(1) ys by (simp add: quantile_index_bound)
  have filt: "length (filter P xs) = length (filter P ?ys)" for P
    using ys(2) by (metis mset_filter size_mset)
  note le = length_filter_nth_le [OF ys(1) k]
  have gt: "q * real (length xs) < real ?k + 1" using assms by (intro quantile_index_gt) simp_all
  have at: "quantile_at ?ys q = ?ys ! ?k" by (simp add: quantile_at_def ys)
  show "real (length (filter (\<lambda>x. x < quantile_at ?ys q) xs)) \<le> q * real (length xs)"
    using le(1) quantile_index_le [OF assms(2), of "length xs"] unfolding filt at by linarith
  show "q * real (length xs) < real (length (filter (\<lambda>x. x \<le> quantile_at ?ys q) xs))"
    using le(2) gt unfolding filt at by linarith
qed

lemma quantile_mono:
  fixes xs :: "'a::linorder list"
  assumes "xs \<noteq> []" "q \<le> r"
  shows "quantile_at (sort_by (<) xs) q \<le> quantile_at (sort_by (<) xs) r"
  unfolding quantile_at_def using assms
  by (intro sorted_nth_mono quantile_index_mono quantile_index_bound)
    (simp_all add: ksort.srt_less quantile_index_bound)

lemma quantile_le_last:
  fixes xs :: "'a::linorder list"
  assumes "xs \<noteq> []"
  shows "quantile_at (sort_by (<) xs) q \<le> last (sort_by (<) xs)"
proof -
  have ne: "sort_by (<) xs \<noteq> []" using assms isort.srt_length [of "(<)" xs] by (metis length_0_conv)
  then show ?thesis
    using quantile_index_bound [of "length (sort_by (<) xs)" q]
    by (simp add: quantile_at_def last_conv_nth) (intro sorted_nth_mono; simp add: ksort.srt_less)
qed

lemma sorted_last_Max:
  assumes "sorted ys" "ys \<noteq> []"
  shows "last ys = Max (set ys)"
proof -
  have "\<forall>y\<in>set ys. y \<le> last ys"
    using assms by (auto simp: in_set_conv_nth last_conv_nth intro!: sorted_nth_mono)
  with assms(2) show ?thesis by (intro Max_eqI [symmetric]) simp_all
qed

lemma last_sort_by:
  fixes xs :: "'a::linorder list"
  assumes "xs \<noteq> []"
  shows "last (sort_by (<) xs) = Max (set xs)"
proof -
  have "sort_by (<) xs \<noteq> []" using assms isort.srt_length [of "(<)" xs] by (metis length_0_conv)
  then have "last (sort_by (<) xs) = Max (set (sort_by (<) xs))"
    by (intro sorted_last_Max) (simp_all add: ksort.srt_less)
  then show ?thesis by (simp add: isort.srt_set)
qed

end
