(* ===== verification/Event_Report.thy ===== *)
theory Event_Report
  imports Measurement Attribution Percentiles
begin

text \<open>
  What \<open>print_event_report\<close> of \<open>src/main.cpp\<close> prints for one event, as a value: the totals
  over its rings, the line per active CPU, the buckets with their percentages, and whether
  the warning about samples outside the target is given. Then the drain statistics of
  \<open>main\<close>. Percentages and running fractions are exact quotients, not rounded.
\<close>

section \<open>The code\<close>

record ring_totals =
  total_value :: u64
  total_samples :: u64
  total_hist :: record_histogram
  active_cpus :: u64

definition zero_totals :: ring_totals where
  "zero_totals = \<lparr>total_value = 0, total_samples = 0, total_hist = empty_histogram, active_cpus = 0\<rparr>"

definition add_hist :: "record_histogram \<Rightarrow> record_histogram \<Rightarrow> record_histogram" where
  "add_hist a b =
     \<lparr>h_sample = h_sample a + h_sample b, h_lost_records = h_lost_records a + h_lost_records b,
      h_lost_events = h_lost_events a + h_lost_events b, h_exit_records = h_exit_records a + h_exit_records b,
      h_other = h_other a + h_other b\<rparr>"

text \<open>One iteration of the first loop over the rings.\<close>

definition add_ring :: "sampling_event \<Rightarrow> ring_totals \<Rightarrow> ring_totals" where
  "add_ring ev t =
     \<lparr>total_value = total_value t + cr_value (ev_counts ev),
      total_samples = total_samples t + h_sample (d_hist (ev_ring ev)),
      total_hist = add_hist (total_hist t) (d_hist (ev_ring ev)),
      active_cpus = (if 0 < time_running (ev_counts ev) then active_cpus t + 1 else active_cpus t)\<rparr>"

record cpu_line =
  cl_cpu :: int
  cl_value :: u64
  cl_samples :: u64
  cl_lost_records :: u64
  cl_lost_events :: u64
  mux_fraction :: real

definition cpu_line_of :: "sampling_event \<Rightarrow> cpu_line" where
  "cpu_line_of ev =
     \<lparr>cl_cpu = ev_cpu ev, cl_value = cr_value (ev_counts ev), cl_samples = h_sample (d_hist (ev_ring ev)),
      cl_lost_records = h_lost_records (d_hist (ev_ring ev)),
      cl_lost_events = h_lost_events (d_hist (ev_ring ev)),
      mux_fraction = to_double (time_running (ev_counts ev)) / to_double (time_enabled (ev_counts ev))\<rparr>"

record event_report =
  er_label :: string
  er_period :: u64
  er_rings :: nat
  er_totals :: ring_totals
  er_cpus :: "cpu_line list"
  er_ip_range :: "(u64 \<times> u64) option"
  er_buckets :: "(u64 \<times> real) list"
  er_kernel_ips :: "u64 list"
  er_attributed :: u64
  er_unattributed :: u64
  er_unattributed_pct :: real
  er_outside_warning :: "real option"

definition percent_of :: "u64 \<Rightarrow> real \<Rightarrow> real" where
  "percent_of c whole = (if 0 < whole then 100 * to_double c / whole else 0)"

definition print_event_report :: "string \<Rightarrow> sampling_event list \<Rightarrow> attribution_result \<Rightarrow> event_report" where
  "print_event_report label rings a =
     (let t = fold add_ring rings zero_totals;
          whole = to_double (total_samples t);
          target_total = bucket_count a ! bucket_index KTarget;
          out_of_target = bucket_count a ! bucket_index KKernel + bucket_count a ! bucket_index KUnclassifiable
      in \<lparr>er_label = label, er_period = requested_period (hd rings), er_rings = length rings, er_totals = t,
          er_cpus = map cpu_line_of (filter (\<lambda>ev. time_running (ev_counts ev) \<noteq> 0) rings),
          er_ip_range = (if line_counts a \<noteq> [] \<or> 0 < total_samples t then Some (ip_lo a, ip_hi a) else None),
          er_buckets = map (\<lambda>i. (bucket_count a ! i, percent_of (bucket_count a ! i) whole)) [0..<4],
          er_kernel_ips = kernel_ips a, er_attributed = attributed a, er_unattributed = unattributed a,
          er_unattributed_pct =
            (if 0 < target_total then 100 * to_double (unattributed a) / to_double target_total else 0),
          er_outside_warning =
            (if 1 < percent_of out_of_target whole then Some (percent_of out_of_target whole) else None)\<rparr>)"

text \<open>The drain statistics, printed if any drain was timed.\<close>

record drain_stats =
  ds_count :: nat
  ds_mean :: real
  ds_p50 :: int
  ds_p99 :: int
  ds_max :: int

definition drain_statistics :: "int list \<Rightarrow> drain_stats option" where
  "drain_statistics iter_ns =
     (if iter_ns = [] then None
      else (let sorted_ns = sort_by (<) iter_ns in
        Some \<lparr>ds_count = length sorted_ns,
              ds_mean = real_of_int (sum_list sorted_ns) / real (length sorted_ns),
              ds_p50 = quantile_at sorted_ns 0.5, ds_p99 = quantile_at sorted_ns 0.99,
              ds_max = last sorted_ns\<rparr>))"

text \<open>The samples of an event: those of its rings, one ring after the other.\<close>

definition combined_samples :: "sampling_event list \<Rightarrow> sample list" where
  "combined_samples rings = fold (\<lambda>ev acc. acc @ d_samples (ev_ring ev)) rings []"

section \<open>Totals\<close>

lemma combined_samples_concat: "combined_samples rings = concat (map (\<lambda>ev. d_samples (ev_ring ev)) rings)"
proof -
  have "fold (\<lambda>ev acc. acc @ d_samples (ev_ring ev)) rings acc = acc @ concat (map (\<lambda>ev. d_samples (ev_ring ev)) rings)" for acc
    by (induction rings arbitrary: acc) simp_all
  then show ?thesis by (simp add: combined_samples_def)
qed

text \<open>The histogram of a ring counts its samples; every operation keeps it so.\<close>

definition hist_ok :: "drain_state \<Rightarrow> bool" where
  "hist_ok s \<longleftrightarrow> h_sample (d_hist s) = word_of_nat (length (d_samples s))"

lemma hist_ok_switch: "drain_switch label data data_size off hdr s = Inr s' \<Longrightarrow> hist_ok s \<Longrightarrow> hist_ok s'"
  by (auto simp: drain_switch_def hist_ok_def split: if_splits option.splits)

lemma hist_ok_record: "drain_record label data data_size head s = Inr s' \<Longrightarrow> hist_ok s \<Longrightarrow> hist_ok s'"
  by (auto simp: drain_record_def Let_def hist_ok_def dest!: hist_ok_switch split: if_splits option.splits sum.splits)

lemma hist_ok_loop:
  assumes "drain_loop label data data_size head s = Some r" "hist_ok s"
  shows "\<forall>s'. r = Inr s' \<longrightarrow> hist_ok s'"
proof -
  have "hist_ok s \<longrightarrow> (\<forall>s'. r = Inr s' \<longrightarrow> hist_ok s')"
  proof (rule drain_loop.raw_induct
      [where P = "\<lambda>_ _ _ _ s r. hist_ok s \<longrightarrow> (\<forall>s'. r = Inr s' \<longrightarrow> hist_ok s')", OF _ assms(1)])
    fix f label data data_size head s r
    assume "\<And>label data data_size head s r. f label data data_size head s = Some r \<Longrightarrow>
        hist_ok s \<longrightarrow> (\<forall>s'. r = Inr s' \<longrightarrow> hist_ok s')"
      and "(if d_tail s < head then
          case drain_record label data data_size head s of
            Inl e \<Rightarrow> Some (Inl e) | Inr s' \<Rightarrow> f label data data_size head s'
        else Some (Inr s)) = Some r"
    then show "hist_ok s \<longrightarrow> (\<forall>s'. r = Inr s' \<longrightarrow> hist_ok s')"
      by (auto split: if_splits sum.splits dest: hist_ok_record)
  qed
  with assms(2) show ?thesis by simp
qed

lemma hist_ok_drain:
  assumes "drain label head data data_size s = Some (Inr (published, s'))" "hist_ok s"
  shows "hist_ok s'"
proof -
  from assms(1) obtain r where r: "drain_loop label data data_size head s = Some r"
    "map_sum id (\<lambda>s'. (d_tail s', s')) r = Inr (published, s')"
    by (auto simp: drain_def split: if_splits)
  then have "r = Inr s'" by (cases r) simp_all
  with hist_ok_loop [OF r(1) assms(2)] show ?thesis by simp
qed

lemma total_samples_rings:
  assumes "\<forall>ev\<in>set rings. hist_ok (ev_ring ev)"
  shows "total_samples (fold add_ring rings t) = total_samples t + word_of_nat (length (combined_samples rings))"
  using assms
  by (induction rings arbitrary: t) (auto simp: combined_samples_concat add_ring_def hist_ok_def)

lemma fresh_hist_ok: "hist_ok fresh_ring"
  by (simp add: hist_ok_def fresh_ring_def empty_histogram_def)

interpretation histogram: ring_invariant "\<lambda>ev. hist_ok (ev_ring ev)"
proof
  fix k child cell show "does k (open_cell child cell) (\<lambda>r t. \<forall>ev. r = Inr ev \<longrightarrow> hist_ok (ev_ring ev))"
    unfolding open_cell_def open_sampling_def perf_event_open_def by (intro does_rules) (auto simp: fresh_hist_ok intro!: does_rules)
next
  fix k label and ev :: sampling_event assume ok: "hist_ok (ev_ring ev)"
  have "hist_ok ring"
    if "map_option (map_sum Fatal id) (drain label head data sz (ev_ring ev)) = Some (Inr (p, ring))" for head data sz p ring
  proof -
    from that obtain z where z: "drain label head data sz (ev_ring ev) = Some z" "map_sum Fatal id z = Inr (p, ring)"
      by auto
    then have "z = Inr (p, ring)" by (cases z) simp_all
    with z(1) hist_ok_drain [OF _ ok] show ?thesis by simp
  qed
  then show "does k (drain_event label ev) (\<lambda>r t. \<forall>ev'. r = Inr ev' \<longrightarrow> hist_ok (ev_ring ev'))"
    unfolding drain_event_def by (intro does_rules) auto
next
  fix k and ev :: sampling_event assume "hist_ok (ev_ring ev)"
  then show "does k (finish_sampling ev) (\<lambda>r t. \<forall>ev'. r = Inr ev' \<longrightarrow> hist_ok (ev_ring ev'))"
    unfolding finish_sampling_def by (intro does_rules) (auto intro!: does_rules)
qed

end
