(* ===== verification/Analysis.thy ===== *)
theory Analysis
  imports Event_Report
begin

text \<open>
  What \<open>main\<close> of \<open>src/main.cpp\<close> does with the events of a finished run: the three
  checks that refuse a measurement (a ring that never armed, an event that shared its
  counter, a sample with another period than requested), the attribution and the report of
  each event, the drain statistics, the lost records and the rankings. What it prints is
  the value \<open>report\<close>.
\<close>

section \<open>The code\<close>

text \<open>\<open>ev[i]\<close>: the rings of the \<open>i\<close>-th event.\<close>

definition rings_of :: "nat \<Rightarrow> sampling_event list \<Rightarrow> nat \<Rightarrow> sampling_event list" where
  "rings_of nr_cpus evs i = take nr_cpus (drop (i * nr_cpus) evs)"

definition never_armed :: "string list \<Rightarrow> sampling_event list \<Rightarrow> string option" where
  "never_armed lbls evs =
     map_option fst (List.find (\<lambda>(label, ev). time_enabled (ev_counts ev) = 0) (zip lbls evs))"

text \<open>The sum of \<open>time_running\<close> over the rings, over the \<open>time_enabled\<close> of the last.\<close>

definition running_fraction :: "sampling_event list \<Rightarrow> real" where
  "running_fraction rings =
     (let (total_running, enabled) =
        fold (\<lambda>ev (running, _). (running + time_running (ev_counts ev), time_enabled (ev_counts ev))) rings (0, 0)
      in if 0 < enabled then to_double total_running / to_double enabled else 0)"

definition multiplexed :: "event_plan list \<Rightarrow> sampling_event list list \<Rightarrow> (string \<times> real) option" where
  "multiplexed pls rings =
     map_option (\<lambda>(pl, rs). (plan_label pl, running_fraction rs)) (List.find (\<lambda>(_, rs). running_fraction rs < 0.99) (zip pls rings))"

definition mismatched_period :: "string list \<Rightarrow> sampling_event list \<Rightarrow> (string \<times> u64 \<times> u64) option" where
  "mismatched_period lbls evs =
     List.find (\<lambda>(label, got, requested). got \<noteq> requested)
       (concat (map (\<lambda>(label, ev). map (\<lambda>s. (label, s_period s, requested_period ev)) (d_samples (ev_ring ev)))
          (zip lbls evs)))"

record report =
  rp_events :: "event_report list"
  rp_drain :: "drain_stats option"
  rp_lost_records :: u64
  rp_lost_events :: u64
  rp_periods :: "u64 list"
  rp_scale :: real
  rp_ranking :: "ranked list"
  rp_insufficient :: "(site \<times> u64 \<times> u64) list"
  rp_raw :: "(site \<times> u64) list"

text \<open>The totals of the lost records over all rings of both events.\<close>

definition lost_totals :: "sampling_event list \<Rightarrow> u64 \<times> u64" where
  "lost_totals evs =
     fold (\<lambda>ev (records, events). (records + h_lost_records (d_hist (ev_ring ev)),
                                   events + h_lost_events (d_hist (ev_ring ev)))) evs (0, 0)"

definition make_report ::
  "event_plan list \<Rightarrow> u64 list \<Rightarrow> text_range \<Rightarrow> 'l dwfl \<Rightarrow> sampling_event list list \<Rightarrow> int list \<Rightarrow> report" where
  "make_report pls periods target dw rings iter_ns =
     (let attr = map (\<lambda>rs. classify_and_attribute (combined_samples rs) target dw) rings;
          miss_counts = line_counts (attr ! 0);
          access_counts = line_counts (attr ! 1);
          (ranking, insufficient) = concentration_ranking (periods ! 0) (periods ! 1) miss_counts access_counts
      in \<lparr>rp_events = map (\<lambda>(pl, rs, a). print_event_report (plan_label pl) rs a) (zip pls (zip rings attr)),
          rp_drain = drain_statistics iter_ns,
          rp_lost_records = fst (lost_totals (concat rings)),
          rp_lost_events = snd (lost_totals (concat rings)),
          rp_periods = periods,
          rp_scale = period_scale (periods ! 0) (periods ! 1),
          rp_ranking = ranking,
          rp_insufficient =
            map (\<lambda>site. (site, smap_count miss_counts site, smap_count access_counts site)) insufficient,
          rp_raw = raw_ranking miss_counts\<rparr>)"

definition analyse ::
  "nat \<Rightarrow> u64 list \<Rightarrow> text_range \<Rightarrow> 'l dwfl \<Rightarrow> sampling_event list \<times> int list \<times> int \<Rightarrow> stop + report \<times> int" where
  "analyse nr_cpus periods target dw = (\<lambda>(evs, iter_ns, exit_code).
     let lbls = labels nr_cpus (zip plans periods);
         rings = map (rings_of nr_cpus evs) [0..<2]
     in case never_armed lbls evs of
          Some label \<Rightarrow> Inl (Never_Armed label (if exit_code = 0 then 1 else exit_code))
        | None \<Rightarrow>
            (case multiplexed plans rings of
               Some (label, fraction) \<Rightarrow> Inl (Multiplexed label fraction nr_cpus)
             | None \<Rightarrow>
                 (case mismatched_period lbls evs of
                    Some (label, got, requested) \<Rightarrow> Inl (Period_Mismatch label got requested)
                  | None \<Rightarrow> Inr (make_report plans periods target dw rings iter_ns, exit_code))))"

section \<open>What the checks accept\<close>

text \<open>The first element with a defect, paired with a label: there is none if all are good.\<close>

lemma find_defect_None:
  assumes "length xs = length ys"
  shows "List.find (\<lambda>(_, y). \<not> Q y) (zip xs ys) = None \<longleftrightarrow> (\<forall>y\<in>set ys. Q y)"
  using assms by (induction xs ys rule: list_induct2) simp_all

definition armed :: "sampling_event \<Rightarrow> bool" where
  "armed ev \<longleftrightarrow> time_enabled (ev_counts ev) \<noteq> 0"

lemma never_armed_None: "length lbls = length evs \<Longrightarrow> never_armed lbls evs = None \<longleftrightarrow> (\<forall>ev\<in>set evs. armed ev)"
  using find_defect_None [of lbls evs armed] by (simp add: never_armed_def armed_def)

text \<open>The counter ran for 99 percent of the time: over all CPUs, as the task migrates.\<close>

definition dedicated :: "sampling_event list \<Rightarrow> bool" where
  "dedicated rings \<longleftrightarrow> rings \<noteq> [] \<and> time_enabled (ev_counts (last rings)) \<noteq> 0 \<and>
     0.99 * to_double (time_enabled (ev_counts (last rings))) \<le> to_double (\<Sum>ev\<leftarrow>rings. time_running (ev_counts ev))"

lemma running_fold:
  "fold (\<lambda>ev (running, _). (running + time_running (ev_counts ev), time_enabled (ev_counts ev))) rings (a, b) =
     (a + (\<Sum>ev\<leftarrow>rings. time_running (ev_counts ev)), if rings = [] then b else time_enabled (ev_counts (last rings)))"
  by (induction rings arbitrary: a b) (simp_all add: add.assoc)

lemma running_fraction_dedicated: "running_fraction rings < 0.99 \<longleftrightarrow> \<not> dedicated rings"
proof (cases "rings = [] \<or> time_enabled (ev_counts (last rings)) = 0")
  case True
  then show ?thesis by (auto simp: running_fraction_def running_fold dedicated_def)
next
  case False
  then have "0 < to_double (time_enabled (ev_counts (last rings)))" by simp
  with False show ?thesis
    by (simp add: running_fraction_def running_fold dedicated_def pos_divide_less_eq not_le word_gt_0)
qed

lemma multiplexed_None:
  "length pls = length rings \<Longrightarrow> multiplexed pls rings = None \<longleftrightarrow> (\<forall>rs\<in>set rings. dedicated rs)"
  using find_defect_None [of pls rings dedicated] unfolding multiplexed_def running_fraction_dedicated by simp

text \<open>Every sample was taken at the period its ring asked for.\<close>

definition as_requested :: "sampling_event \<Rightarrow> bool" where
  "as_requested ev \<longleftrightarrow> (\<forall>s\<in>set (d_samples (ev_ring ev)). s_period s = requested_period ev)"

lemma find_append_None: "List.find P (xs @ ys) = None \<longleftrightarrow> List.find P xs = None \<and> List.find P ys = None"
  by (induction xs) simp_all

lemma no_mismatch_in_ring:
  "List.find (\<lambda>(label, got, requested). got \<noteq> requested) (map (\<lambda>s. (l, s_period s, p)) ss) = None \<longleftrightarrow>
     (\<forall>s\<in>set ss. s_period s = p)"
  by (induction ss) simp_all

lemma mismatched_period_None:
  "length lbls = length evs \<Longrightarrow> mismatched_period lbls evs = None \<longleftrightarrow> (\<forall>ev\<in>set evs. as_requested ev)"
proof (induction lbls evs rule: list_induct2)
  case (Cons x xs y ys)
  then show ?case
    by (simp add: mismatched_period_def as_requested_def find_append_None no_mismatch_in_ring)
qed (simp add: mismatched_period_def)

section \<open>The rings of the events\<close>

lemma rings_of_concat: "length evs = n * m \<Longrightarrow> concat (map (rings_of n evs) [0..<m]) = evs"
proof (induction m arbitrary: evs)
  case (Suc m)
  have "rings_of n evs i = rings_of n (take (n * m) evs) i" if "i < m" for i
  proof -
    from that have "i * n + n \<le> n * m" by (metis Suc_leI mult.commute mult_Suc mult_le_mono2 add.commute)
    then show ?thesis by (simp add: rings_of_def drop_take min_def) 
  qed
  then have "map (rings_of n evs) [0..<m] = map (rings_of n (take (n * m) evs)) [0..<m]" by simp
  moreover have "concat (map (rings_of n (take (n * m) evs)) [0..<m]) = take (n * m) evs"
    by (rule Suc.IH) (simp add: Suc.prems)
  moreover have "rings_of n evs m = drop (n * m) evs" using Suc.prems by (simp add: rings_of_def mult.commute)
  ultimately show ?case by (simp only: upt_Suc_append le0 map_append concat_append) simp
qed simp

lemma rings_of_length: "length evs = n * m \<Longrightarrow> i < m \<Longrightarrow> length (rings_of n evs i) = n"
proof -
  assume "length evs = n * m" "i < m"
  then have "i * n + n \<le> length evs" by (metis Suc_leI mult.commute mult_Suc mult_le_mono2 add.commute)
  then show ?thesis by (simp add: rings_of_def)
qed

lemma rings_of_subset: "set (rings_of n evs i) \<subseteq> set evs"
  unfolding rings_of_def by (meson order_trans set_drop_subset set_take_subset)

section \<open>The outcome of the analysis\<close>

lemma length_two_plans: "length (labels n (zip plans periods)) = n * min (length plans) (length periods)"
  by (simp add: grid_def mult.commute)

lemma analyse_accepts:
  assumes "length periods = 2" "length evs = n * 2"
  shows "(\<exists>rep. analyse n periods target dw (evs, iter_ns, code) = Inr (rep, code)) \<longleftrightarrow>
    (\<forall>ev\<in>set evs. armed ev) \<and> (\<forall>i<2. dedicated (rings_of n evs i)) \<and> (\<forall>ev\<in>set evs. as_requested ev)"
proof -
  have lbls: "length (labels n (zip plans periods)) = length evs"
    using assms by (simp only: length_two_plans) (simp add: plans_def)
  have pls: "length plans = length (map (rings_of n evs) [0..<2])" by (simp add: plans_def)
  have "(\<forall>rs\<in>set (map (rings_of n evs) [0..<2]). dedicated rs) \<longleftrightarrow> (\<forall>i<2. dedicated (rings_of n evs i))"
    by auto
  then show ?thesis
    using never_armed_None [OF lbls] multiplexed_None [OF pls] mismatched_period_None [OF lbls]
    by (auto simp: analyse_def Let_def split: option.splits)
qed

lemma analyse_report:
  assumes "analyse n periods target dw (evs, iter_ns, code) = Inr (rep, c)"
  shows "rep = make_report plans periods target dw (map (rings_of n evs) [0..<2]) iter_ns" "c = code"
  using assms by (auto simp: analyse_def Let_def split: option.splits)

section \<open>Properties\<close>

text \<open>Two rings of one CPU, each with a sample at the requested period.\<close>

definition sound_ring :: "u64 \<Rightarrow> sampling_event" where
  "sound_ring period =
     \<lparr>ev_fd = 3, ev_cpu = 0, mmap_base = 0x10000, mmap_len = 0x81000, ev_data_size = 0x80000,
      ev_ring = fresh_ring\<lparr>d_samples := [\<lparr>s_ip = 0x401146, s_pid = 7, s_tid = 8, s_period = period\<rparr>]\<rparr>,
      requested_period = period,
      ev_counts = \<lparr>cr_value = 5000, time_enabled = 1000, time_running = 990\<rparr>\<rparr>"



end
