(* ===== verification/Report_Text.thy ===== *)
theory Report_Text
  imports Analysis Cli
begin

text \<open>
  The text of a run: the lines \<open>main\<close> and \<open>print_event_report\<close> of \<open>src/main.cpp\<close> write to
  \<open>stdout\<close> for a report, and what goes to \<open>stderr\<close> when there is none. The scores and the scale
  are the computed \<open>double\<close>s; a fraction, percentage or mean is its exact value here, and the
  digits printed for it are those of that value. The rankings can be read back from the text.
\<close>

section \<open>printf\<close>

abbreviation newline :: char where "newline \<equiv> CHR 0x0A"

text \<open>\<open>%llu\<close> and \<open>%zu\<close>; \<open>%d\<close> is \<open>to_string\<close>.\<close>

definition llu :: "u64 \<Rightarrow> string" where
  "llu n = dec_digits (unat n)"

text \<open>\<open>%llx\<close>.\<close>

definition hex_digit :: "nat \<Rightarrow> char" where
  "hex_digit d = char_of (if d < 10 then 48 + d else 87 + d)"

fun hex_digits :: "nat \<Rightarrow> string" where
  "hex_digits n = (if n < 16 then [hex_digit n] else hex_digits (n div 16) @ [hex_digit (n mod 16)])"

declare hex_digits.simps [simp del]

definition llx :: "u64 \<Rightarrow> string" where
  "llx n = hex_digits (unat n)"

text \<open>\<open>%.kf\<close>: rounded to \<open>k\<close> decimals, a tie to the even neighbour.\<close>

definition fixed :: "nat \<Rightarrow> real \<Rightarrow> string" where
  "fixed k x =
     (let n = nat (round_half_even (\<bar>x\<bar> * 10 ^ k));
          whole = dec_digits (n div 10 ^ k);
          decimals = dec_digits (n mod 10 ^ k)
      in (if x < 0 then ''-'' else []) @ whole @
         (if k = 0 then [] else ''.'' @ replicate (k - length decimals) CHR ''0'' @ decimals))"

text \<open>\<open>%s\<close> of a \<open>std::string\<close> through \<open>c_str\<close>: up to a null character.\<close>

definition c_str :: "string \<Rightarrow> string" where
  "c_str s = takeWhile (\<lambda>c. c \<noteq> CHR 0x00) s"

section \<open>The report of an event\<close>

definition cpu_text :: "cpu_line \<Rightarrow> string" where
  "cpu_text l =
     ''  cpu '' @ to_string (cl_cpu l) @ '': value='' @ llu (cl_value l) @ '' samples='' @ llu (cl_samples l) @
     '' lost_records='' @ llu (cl_lost_records l) @ '' lost_events='' @ llu (cl_lost_events l) @
     '' mux_fraction='' @ fixed 4 (mux_fraction l)"

definition bucket_names :: "string list" where
  "bucket_names = [''target executable'', ''shared library / other user mapping'', ''kernel space'',
     ''unmapped / unclassifiable'']"

definition bucket_text :: "string \<Rightarrow> u64 \<times> real \<Rightarrow> string" where
  "bucket_text name b = ''bucket['' @ name @ '']: '' @ llu (fst b) @ '' ('' @ fixed 4 (snd b) @ ''%)''"

definition histogram_text :: "record_histogram \<Rightarrow> string" where
  "histogram_text h =
     ''record histogram (summed): sample='' @ llu (h_sample h) @ '' lost_records='' @ llu (h_lost_records h) @
     '' lost_events='' @ llu (h_lost_events h) @ '' exit='' @ llu (h_exit_records h) @ '' other='' @ llu (h_other h)"

definition event_lines :: "event_report \<Rightarrow> string list" where
  "event_lines e =
     ['''',
      ''=== event: '' @ er_label e @ '' ==='',
      ''requested period: '' @ llu (er_period e) @ '' (uniform across all '' @ dec_digits (er_rings e) @ '' per-CPU rings)'',
      ''aggregate (summed across '' @ dec_digits (er_rings e) @ '' rings, '' @ llu (active_cpus (er_totals e)) @
        '' with any scheduled time): '' @ llu (total_value (er_totals e)),
      ''samples captured (summed): '' @ llu (total_samples (er_totals e)),
      histogram_text (total_hist (er_totals e)),
      ''per-CPU breakdown (rings with any scheduled time):''] @
     map cpu_text (er_cpus e) @
     (case er_ip_range e of None \<Rightarrow> []
      | Some (low, high) \<Rightarrow> [''IP range: [0x'' @ llx low @ '', 0x'' @ llx high @ '']'']) @
     map2 bucket_text bucket_names (er_buckets e) @
     (if er_kernel_ips e = [] then []
      else [''distinct kernel-space IPs ('' @ dec_digits (length (er_kernel_ips e)) @ ''):'' @
              concat (map (\<lambda>ip. '' 0x'' @ llx ip) (er_kernel_ips e))]) @
     [''attributed: '' @ llu (er_attributed e) @ '', unattributed: '' @ llu (er_unattributed e) @
        '' ('' @ fixed 4 (er_unattributed_pct e) @ ''%)'']"

text \<open>The warning goes to \<open>stderr\<close>.\<close>

definition halt_condition_text :: "event_report \<Rightarrow> string" where
  "halt_condition_text e =
     (case er_outside_warning e of None \<Rightarrow> []
      | Some pct \<Rightarrow> ''cachelens: HALT CONDITION: event '' @ er_label e @ '': kernel+unclassifiable samples are '' @
          fixed 4 pct @ ''% of total, exceeding 1%.'' @ [newline])"

section \<open>The rest of the report\<close>

definition drain_lines :: "drain_stats option \<Rightarrow> string list" where
  "drain_lines d =
     (case d of None \<Rightarrow> []
      | Some s \<Rightarrow>
          ['''', ''=== drain path (Gate 7 Phase 6, U24) ==='',
           ''drain-active poll iterations: '' @ dec_digits (ds_count s) @ '', mean='' @ fixed 0 (ds_mean s) @
             ''ns p50='' @ fixed 0 (of_int (ds_p50 s)) @ ''ns p99='' @ fixed 0 (of_int (ds_p99 s)) @
             ''ns max='' @ fixed 0 (of_int (ds_max s)) @ ''ns''])"

definition lost_line :: "report \<Rightarrow> string" where
  "lost_line rep =
     ''total lost_records='' @ llu (rp_lost_records rep) @ '', total lost_events='' @ llu (rp_lost_events rep) @
     '' (the real SLO; drain latency above is only a proxy for it)''"

definition scale_lines :: "report \<Rightarrow> string list" where
  "scale_lines rep =
     ['''',
      ''period scale (miss/access): '' @ llu (rp_periods rep ! 0) @ '' / '' @ llu (rp_periods rep ! 1) @
        '' = '' @ fixed 6 (rp_scale rep)]"

definition site_text :: "site \<Rightarrow> string" where
  "site_text site = c_str (site_file site) @ '':'' @ to_string (site_line site)"

definition ranked_text :: "nat \<Rightarrow> ranked \<Rightarrow> string" where
  "ranked_text i r =
     ''  #'' @ dec_digits (i + 1) @ ''  '' @ site_text (r_site r) @ ''  miss='' @ llu (r_m r) @ '' access='' @ llu (r_n r) @
     ''  concentration='' @ fixed 6 (concentration r) @ ''  wilson_lb='' @ fixed 6 (wilson_concentration r)"

definition insufficient_text :: "site \<times> u64 \<times> u64 \<Rightarrow> string" where
  "insufficient_text = (\<lambda>(site, m, n). ''  '' @ site_text site @ ''  miss='' @ llu m @ '' access='' @ llu n)"

definition raw_text :: "nat \<Rightarrow> site \<times> u64 \<Rightarrow> string" where
  "raw_text i = (\<lambda>(site, m). ''  #'' @ dec_digits (i + 1) @ ''  '' @ site_text site @ ''  miss='' @ llu m)"

definition numbered :: "(nat \<Rightarrow> 'a \<Rightarrow> string) \<Rightarrow> 'a list \<Rightarrow> string list" where
  "numbered f xs = map2 f [0..<length xs] xs"

definition concentration_header :: string where
  "concentration_header =
     ''=== concentration ranking (Wilson lower bound, 95%, min '' @ llu kMinAccessSamples @ '' access samples) ===''"

definition insufficient_header :: "nat \<Rightarrow> string" where
  "insufficient_header n =
     ''insufficient samples (< '' @ llu kMinAccessSamples @ '' access samples), excluded from ranking ('' @
     dec_digits n @ '' sites):''"

definition raw_header :: string where
  "raw_header = ''=== raw miss-count ranking (for comparison) ===''"

definition ranking_lines :: "report \<Rightarrow> string list" where
  "ranking_lines rep =
     ['''', concentration_header] @ numbered ranked_text (rp_ranking rep) @
     [insufficient_header (length (rp_insufficient rep))] @ map insufficient_text (rp_insufficient rep) @
     ['''', raw_header] @ numbered raw_text (rp_raw rep)"

definition report_lines :: "report \<Rightarrow> string list" where
  "report_lines rep =
     concat (map event_lines (rp_events rep)) @ drain_lines (rp_drain rep) @ [lost_line rep] @ scale_lines rep @
     ranking_lines rep"

definition report_text :: "report \<Rightarrow> string" where
  "report_text rep = concat (map (\<lambda>l. l @ [newline]) (report_lines rep))"

section \<open>When there is no report\<close>

fun stop_text :: "(int \<Rightarrow> string) \<Rightarrow> stop \<Rightarrow> string option" where
  "stop_text strerror (Fatal f) = fatal_text strerror f"
| "stop_text strerror (Usage what _) = Some (what @ [newline])"
| "stop_text strerror (Never_Armed label _) =
     Some (''cachelens: warning: '' @ label @
       '' never armed (time_enabled=0); target likely never reached exec. Nothing below is a real measurement.'' @ [newline])"
| "stop_text strerror (Multiplexed label fraction nr_cpus) =
     Some (''cachelens: fatal: HALT CONDITION: event '' @ label @ '': multiplexing fraction '' @ fixed 4 fraction @
       '' (sum of time_running across all '' @ dec_digits nr_cpus @
       '' per-CPU rings, over time_enabled) is below 0.99. The concentration ratio would be silently wrong; refusing to compute it.'' @
       [newline])"
| "stop_text strerror (Period_Mismatch label got requested) =
     Some (''cachelens: fatal: HALT CONDITION: '' @ label @ '': a sample reports PERF_SAMPLE_PERIOD='' @ llu got @
       '' but the requested period was '' @ llu requested @ ''.'' @ [newline])"
| "stop_text strerror (Child_Exit None _) = Some []"
| "stop_text strerror (Child_Exit (Some (what, errno)) _) = Some (what @ '': '' @ strerror errno @ [newline])"
| "stop_text strerror (Became_Target _) = None"

section \<open>Taking text apart\<close>

text \<open>At the first or the last element without a property.\<close>

lemma first_split:
  assumes "xs @ a # us = ys @ b # vs" "\<forall>x\<in>set xs. P x" "\<forall>y\<in>set ys. P y" "\<not> P a" "\<not> P b"
  shows "xs = ys \<and> a = b \<and> us = vs"
proof -
  have "takeWhile P (xs @ a # us) = xs" "takeWhile P (ys @ b # vs) = ys" using assms(2-5) by simp_all
  with assms(1) show ?thesis by (metis append_eq_append_conv list.inject)
qed

lemma last_split:
  assumes "xs @ a # us = ys @ b # vs" "\<forall>u\<in>set us. P u" "\<forall>v\<in>set vs. P v" "\<not> P a" "\<not> P b"
  shows "xs = ys \<and> a = b \<and> us = vs"
  using first_split [of "rev us" a "rev xs" "rev vs" b "rev ys" P] arg_cong [OF assms(1), of rev] assms(2-5) by simp

text \<open>The characters of printed numbers.\<close>

definition number_char :: "char \<Rightarrow> bool" where
  "number_char c \<longleftrightarrow> is_digit c \<or> c = CHR ''-'' \<or> c = CHR ''.''"

lemma number_char_simps [simp]:
  "number_char CHR ''-''" "number_char CHR ''.''" "number_char CHR ''0''"
  "\<not> number_char CHR ''=''" "\<not> number_char CHR '':''" "\<not> number_char CHR ''(''" "\<not> number_char newline"
  by (simp_all add: number_char_def is_digit_def)

lemma number_chars:
  "c \<in> set (dec_digits n) \<Longrightarrow> number_char c" "c \<in> set (llu w) \<Longrightarrow> number_char c"
  "c \<in> set (to_string i) \<Longrightarrow> number_char c" "c \<in> set (fixed k x) \<Longrightarrow> number_char c"
proof -
  show dec: "c \<in> set (dec_digits n) \<Longrightarrow> number_char c" for n by (auto simp: number_char_def dest: dec_digits_are_digits)
  then show "c \<in> set (llu w) \<Longrightarrow> number_char c" "c \<in> set (to_string i) \<Longrightarrow> number_char c"
    by (auto simp: llu_def to_string_def split: if_splits)
  from dec show "c \<in> set (fixed k x) \<Longrightarrow> number_char c"
    by (auto simp: fixed_def Let_def split: if_splits)
qed

lemma llu_inj: "llu m = llu n \<longleftrightarrow> m = n"
  using dec_digits_inj [of "unat m" "unat n"] by (auto simp: llu_def word_unat_eq_iff)

text \<open>A number at the end of a line, behind a character that is none of a number.\<close>

lemma ends_in_number:
  assumes "xs @ a # us = ys @ a # vs" "\<forall>u\<in>set us. number_char u" "\<forall>v\<in>set vs. number_char v" "\<not> number_char a"
  shows "xs = ys" "us = vs"
  using last_split [OF assms(1-3,4,4)] by simp_all

text \<open>File names as \<open>libdw\<close> gives them, on one line.\<close>

definition plain_name :: "string \<Rightarrow> bool" where
  "plain_name s \<longleftrightarrow> CHR 0x00 \<notin> set s \<and> newline \<notin> set s"

lemma c_str_plain [simp]: "plain_name s \<Longrightarrow> c_str s = s"
  unfolding c_str_def by (subst takeWhile_eq_all_conv) (auto simp: plain_name_def)

lemma site_text_inj:
  assumes "site_text s = site_text t" "plain_name (site_file s)" "plain_name (site_file t)"
  shows "s = t"
proof -
  from assms have "site_file s @ CHR '':'' # to_string (site_line s) = site_file t @ CHR '':'' # to_string (site_line t)"
    by (simp add: site_text_def)
  from ends_in_number [OF this] number_chars(3) have "site_file s = site_file t" "to_string (site_line s) = to_string (site_line t)"
    by auto
  with to_string_inj show ?thesis by (simp add: site.expand)
qed

lemma miss_inj:
  assumes "a @ ''  miss='' @ llu m = b @ ''  miss='' @ llu n"
  shows "a = b" "m = n"
proof -
  from assms have "(a @ ''  miss'') @ CHR ''='' # llu m = (b @ ''  miss'') @ CHR ''='' # llu n" by simp
  from ends_in_number [OF this] number_chars(2) show "a = b" "m = n" by (auto simp: llu_inj)
qed

lemma access_inj:
  assumes "a @ '' access='' @ llu m = b @ '' access='' @ llu n"
  shows "a = b" "m = n"
proof -
  from assms have "(a @ '' access'') @ CHR ''='' # llu m = (b @ '' access'') @ CHR ''='' # llu n" by simp
  from ends_in_number [OF this] number_chars(2) show "a = b" "m = n" by (auto simp: llu_inj)
qed

lemma raw_text_inj:
  assumes "raw_text i x = raw_text i y" "plain_name (site_file (fst x))" "plain_name (site_file (fst y))"
  shows "x = y"
proof -
  from assms(1) have "(''  #'' @ dec_digits (i + 1) @ ''  '' @ site_text (fst x)) @ ''  miss='' @ llu (snd x) =
      (''  #'' @ dec_digits (i + 1) @ ''  '' @ site_text (fst y)) @ ''  miss='' @ llu (snd y)"
    by (simp add: raw_text_def split_beta)
  note parts = miss_inj [OF this]
  from parts(1) have "site_text (fst x) = site_text (fst y)" by simp
  from site_text_inj [OF this assms(2,3)] parts(2) show ?thesis by (simp add: prod_eq_iff)
qed

lemma insufficient_text_inj:
  assumes "insufficient_text x = insufficient_text y" "plain_name (site_file (fst x))" "plain_name (site_file (fst y))"
  shows "x = y"
proof -
  obtain s m n t m' n' where xy: "x = (s, m, n)" "y = (t, m', n')" by (cases x, cases y) auto
  from assms(1) have "((''  '' @ site_text s) @ ''  miss='' @ llu m) @ '' access='' @ llu n =
      ((''  '' @ site_text t) @ ''  miss='' @ llu m') @ '' access='' @ llu n'"
    by (simp add: insufficient_text_def xy)
  note counts = access_inj [OF this]
  note parts = miss_inj [OF counts(1)]
  from parts(1) have "site_text s = site_text t" by simp
  from site_text_inj [OF this] assms(2,3) counts(2) parts(2) show ?thesis by (simp add: xy)
qed

text \<open>The site and the counts of a ranked line; its two ratios are rounded.\<close>

definition ranked_counts :: "ranked \<Rightarrow> site \<times> u64 \<times> u64" where
  "ranked_counts r = (r_site r, r_m r, r_n r)"

lemma ranked_text_inj:
  assumes "ranked_text i r = ranked_text i r'" "plain_name (site_file (r_site r))" "plain_name (site_file (r_site r'))"
  shows "ranked_counts r = ranked_counts r'"
proof -
  let ?line = "\<lambda>r. ''  #'' @ dec_digits (i + 1) @ ''  '' @ site_text (r_site r)"
  let ?counts = "\<lambda>r. (?line r @ ''  miss='' @ llu (r_m r)) @ '' access='' @ llu (r_n r)"
  let ?wilson = "\<lambda>r. (?counts r @ ''  concentration='' @ fixed 6 (concentration r))"
  from assms(1) have "(?wilson r @ ''  wilson_lb'') @ CHR ''='' # fixed 6 (wilson_concentration r) =
      (?wilson r' @ ''  wilson_lb'') @ CHR ''='' # fixed 6 (wilson_concentration r')"
    by (simp add: ranked_text_def)
  from ends_in_number(1) [OF this] number_chars(4)
  have "(?counts r @ ''  concentration'') @ CHR ''='' # fixed 6 (concentration r) =
      (?counts r' @ ''  concentration'') @ CHR ''='' # fixed 6 (concentration r')" by auto
  from ends_in_number(1) [OF this] number_chars(4) have "?counts r = ?counts r'" by auto
  note counts = access_inj [OF this]
  note parts = miss_inj [OF counts(1)]
  from parts(1) have "site_text (r_site r) = site_text (r_site r')" by simp
  from site_text_inj [OF this assms(2,3)] counts(2) parts(2) show ?thesis by (simp add: ranked_counts_def)
qed

lemma numbered_inj:
  assumes "numbered f xs = numbered f ys"
    and "\<And>i x y. x \<in> set xs \<Longrightarrow> y \<in> set ys \<Longrightarrow> f i x = f i y \<Longrightarrow> g x = g y"
  shows "map g xs = map g ys"
proof (rule nth_equalityI)
  show len: "length (map g xs) = length (map g ys)"
    using arg_cong [OF assms(1), of length] by (simp add: numbered_def)
  fix i assume "i < length (map g xs)"
  with len have i: "i < length xs" "i < length ys" by simp_all
  with arg_cong [OF assms(1), of "\<lambda>l. l ! i"] have "f i (xs ! i) = f i (ys ! i)" by (simp add: numbered_def)
  from assms(2) [OF _ _ this] i show "map g xs ! i = map g ys ! i" by simp
qed

section \<open>The lines of a report\<close>

text \<open>Labels and file names of one line each.\<close>

definition readable :: "report \<Rightarrow> bool" where
  "readable rep \<longleftrightarrow>
     (\<forall>e\<in>set (rp_events rep). newline \<notin> set (er_label e)) \<and>
     (\<forall>r\<in>set (rp_ranking rep). plain_name (site_file (r_site r))) \<and>
     (\<forall>x\<in>set (rp_insufficient rep). plain_name (site_file (fst x))) \<and>
     (\<forall>x\<in>set (rp_raw rep). plain_name (site_file (fst x)))"

lemma no_newline [simp]:
  "newline \<notin> set (dec_digits n)" "newline \<notin> set (llu w)" "newline \<notin> set (to_string i)" "newline \<notin> set (fixed k x)"
  using number_chars [of newline] by auto

lemma no_newline_hex [simp]: "newline \<notin> set (llx w)"
proof -
  have digit: "newline \<noteq> hex_digit d" if "d < 16" for d
  proof
    assume "newline = hex_digit d"
    from arg_cong [OF this, of "of_char :: char \<Rightarrow> nat"] that show False by (auto simp: hex_digit_def split: if_splits)
  qed
  have "newline \<notin> set (hex_digits n)" for n
    by (induction n rule: hex_digits.induct)
      (subst hex_digits.simps, use digit in \<open>auto split: if_splits\<close>)
  then show ?thesis by (simp add: llx_def)
qed

lemma set_map2: "z \<in> set (map2 f xs ys) \<Longrightarrow> \<exists>x\<in>set xs. \<exists>y\<in>set ys. z = f x y"
proof -
  assume "z \<in> set (map2 f xs ys)"
  then obtain x y where "(x, y) \<in> set (zip xs ys)" "z = f x y" by auto
  then show ?thesis by (elim in_set_zipE) blast
qed

lemma set_numbered: "z \<in> set (numbered f xs) \<Longrightarrow> \<exists>i. \<exists>x\<in>set xs. z = f i x"
  unfolding numbered_def using set_map2 by fast

lemma site_text_one_line: "plain_name (site_file s) \<Longrightarrow> newline \<notin> set (site_text s)"
  by (simp add: site_text_def) (simp add: plain_name_def)

text \<open>A line of the report before the rankings: it is one line, and not the title of the first ranking.\<close>

definition body_line :: "string \<Rightarrow> bool" where
  "body_line l \<longleftrightarrow> newline \<notin> set l \<and> l \<noteq> concentration_header"

lemma body_lineI: "newline \<notin> set l \<Longrightarrow> take 5 l \<noteq> ''=== c'' \<Longrightarrow> body_line l"
  by (auto simp: body_line_def concentration_header_def)

lemma body_texts [simp]:
  "body_line []" "body_line (cpu_text c)" "body_line (histogram_text h)" "body_line (lost_line rep)"
  by (rule body_lineI, simp add: cpu_text_def histogram_text_def lost_line_def, simp add: cpu_text_def histogram_text_def lost_line_def)+

lemma body_bucket: "name \<in> set bucket_names \<Longrightarrow> body_line (bucket_text name b)"
  by (rule body_lineI) (auto simp: bucket_text_def bucket_names_def)

lemma body_event_lines:
  assumes "newline \<notin> set (er_label e)"
  shows "\<forall>l\<in>set (event_lines e). body_line l"
  unfolding event_lines_def set_append ball_Un
proof (intro conjI, goal_cases)
  case 1
  then show ?case using assms by (simp add: body_lineI)
next
  case 4
  then show ?case by (auto simp del: set_map set_zip dest!: set_map2 intro: body_bucket)
qed (auto simp: body_lineI split: option.splits)

lemma body_drain_lines: "\<forall>l\<in>set (drain_lines d). body_line l"
  by (cases d) (simp_all add: drain_lines_def body_lineI)

lemma body_scale_lines: "\<forall>l\<in>set (scale_lines rep). body_line l"
  by (simp add: scale_lines_def body_lineI)

lemma ranked_one_line: "plain_name (site_file (r_site r)) \<Longrightarrow> newline \<notin> set (ranked_text i r)"
  by (simp add: ranked_text_def site_text_one_line)

lemma insufficient_one_line: "plain_name (site_file (fst x)) \<Longrightarrow> newline \<notin> set (insufficient_text x)"
  by (simp add: insufficient_text_def split_beta site_text_one_line)

lemma raw_one_line: "plain_name (site_file (fst x)) \<Longrightarrow> newline \<notin> set (raw_text i x)"
  by (simp add: raw_text_def split_beta site_text_one_line)

lemma headers_one_line:
  "newline \<notin> set concentration_header" "newline \<notin> set (insufficient_header n)" "newline \<notin> set raw_header"
  by (simp_all add: concentration_header_def insufficient_header_def raw_header_def)

lemma report_one_line:
  assumes "readable rep" "l \<in> set (report_lines rep)"
  shows "newline \<notin> set l"
proof -
  note here = assms(1) [unfolded readable_def]
  consider e where "e \<in> set (rp_events rep)" "l \<in> set (event_lines e)" | "l \<in> set (drain_lines (rp_drain rep))"
    | "l = lost_line rep" | "l \<in> set (scale_lines rep)" | "l \<in> set (ranking_lines rep)"
    using assms(2) unfolding report_lines_def by auto
  then show ?thesis
  proof cases
    case 5
    then consider "l = []" | "l = concentration_header" | "l \<in> set (numbered ranked_text (rp_ranking rep))"
      | "l = insufficient_header (length (rp_insufficient rep))" | "l \<in> insufficient_text ` set (rp_insufficient rep)"
      | "l = raw_header" | "l \<in> set (numbered raw_text (rp_raw rep))"
      unfolding ranking_lines_def by auto
    then show ?thesis
      using here headers_one_line
      by cases (auto dest!: set_numbered simp: ranked_one_line insufficient_one_line raw_one_line)
  qed (use here body_event_lines body_drain_lines body_scale_lines body_texts in \<open>auto simp: body_line_def\<close>)
qed

text \<open>The text determines the lines.\<close>

lemma lines_inj:
  assumes "concat (map (\<lambda>l. l @ [newline]) xs) = concat (map (\<lambda>l. l @ [newline]) ys)"
    and "\<forall>l\<in>set xs. newline \<notin> set l" "\<forall>l\<in>set ys. newline \<notin> set l"
  shows "xs = ys"
  using assms
proof (induction xs arbitrary: ys)
  case Nil
  then show ?case by (cases ys) simp_all
next
  case (Cons x xs)
  show ?case
  proof (cases ys)
    case Nil
    with Cons.prems(1) show ?thesis by simp
  next
    case ys: (Cons y ys')
    have "x @ newline # concat (map (\<lambda>l. l @ [newline]) xs) = y @ newline # concat (map (\<lambda>l. l @ [newline]) ys')"
      using Cons.prems(1) ys by simp
    from first_split [OF this, of "\<lambda>c. c \<noteq> newline"] Cons.prems(2,3) ys
    have "x = y" "concat (map (\<lambda>l. l @ [newline]) xs) = concat (map (\<lambda>l. l @ [newline]) ys')" by auto
    with Cons.IH [OF this(2)] Cons.prems(2,3) ys show ?thesis by simp
  qed
qed

text \<open>The lines determine the rankings.\<close>

lemma report_lines_split:
  assumes "readable rep"
  obtains front where "report_lines rep = front @ concentration_header # tl (tl (ranking_lines rep))"
    "\<forall>l\<in>set front. l \<noteq> concentration_header"
proof
  let ?front = "concat (map event_lines (rp_events rep)) @ drain_lines (rp_drain rep) @ [lost_line rep] @ scale_lines rep @ [[]]"
  show "report_lines rep = ?front @ concentration_header # tl (tl (ranking_lines rep))"
    by (simp add: report_lines_def ranking_lines_def)
  show "\<forall>l\<in>set ?front. l \<noteq> concentration_header"
    using assms body_event_lines body_drain_lines [of "rp_drain rep"] body_scale_lines [of rep] body_texts(1) body_texts(4) [of rep]
    unfolding body_line_def readable_def by auto
qed

definition indented :: "string \<Rightarrow> bool" where
  "indented l \<longleftrightarrow> (case l of [] \<Rightarrow> False | c # _ \<Rightarrow> c = CHR '' '')"

lemma indented_lines [simp]:
  "indented (ranked_text i r)" "indented (insufficient_text x)" "\<not> indented (insufficient_header n)" "\<not> indented []"
  by (simp_all add: indented_def ranked_text_def insufficient_text_def insufficient_header_def split_beta)

lemma indented_numbered: "\<forall>l\<in>set (numbered ranked_text rs). indented l"
  by (auto dest!: set_numbered)

lemma same_lines_same_rankings:
  assumes lines: "report_lines rep = report_lines rep'" and ok: "readable rep" "readable rep'"
  shows "map ranked_counts (rp_ranking rep) = map ranked_counts (rp_ranking rep')"
    and "rp_insufficient rep = rp_insufficient rep'" "rp_raw rep = rp_raw rep'"
proof -
  obtain front where f: "report_lines rep = front @ concentration_header # tl (tl (ranking_lines rep))"
    "\<forall>l\<in>set front. l \<noteq> concentration_header" using report_lines_split [OF ok(1)] .
  obtain front' where f': "report_lines rep' = front' @ concentration_header # tl (tl (ranking_lines rep'))"
    "\<forall>l\<in>set front'. l \<noteq> concentration_header" using report_lines_split [OF ok(2)] .
  have "tl (tl (ranking_lines rep)) = tl (tl (ranking_lines rep'))"
    using first_split [OF lines [unfolded f(1) f'(1)] f(2) f'(2)] by simp
  then have "numbered ranked_text (rp_ranking rep) @ insufficient_header (length (rp_insufficient rep)) #
      map insufficient_text (rp_insufficient rep) @ [] # raw_header # numbered raw_text (rp_raw rep) =
    numbered ranked_text (rp_ranking rep') @ insufficient_header (length (rp_insufficient rep')) #
      map insufficient_text (rp_insufficient rep') @ [] # raw_header # numbered raw_text (rp_raw rep')"
    by (simp add: ranking_lines_def)
  from first_split [OF this indented_numbered indented_numbered]
  have ranked: "numbered ranked_text (rp_ranking rep) = numbered ranked_text (rp_ranking rep')"
    and rest: "map insufficient_text (rp_insufficient rep) @ [] # raw_header # numbered raw_text (rp_raw rep) =
      map insufficient_text (rp_insufficient rep') @ [] # raw_header # numbered raw_text (rp_raw rep')"
    by simp_all
  from first_split [OF rest, of indented]
  have insufficient: "map insufficient_text (rp_insufficient rep) = map insufficient_text (rp_insufficient rep')"
    and raw: "numbered raw_text (rp_raw rep) = numbered raw_text (rp_raw rep')" by simp_all
  show "map ranked_counts (rp_ranking rep) = map ranked_counts (rp_ranking rep')"
    by (rule numbered_inj [OF ranked]) (use ok in \<open>auto intro: ranked_text_inj simp: readable_def\<close>)
  have "x = y" if "x \<in> set (rp_raw rep)" "y \<in> set (rp_raw rep')" "raw_text i x = raw_text i y" for i x y
    by (rule raw_text_inj [OF that(3)]) (use that ok in \<open>simp_all add: readable_def\<close>)
  from numbered_inj [OF raw this, of id] show "rp_raw rep = rp_raw rep'" by simp
  show "rp_insufficient rep = rp_insufficient rep'"
  proof (rule map_inj_on [OF insufficient])
    have "inj_on insufficient_text {x. plain_name (site_file (fst x))}"
      by (intro inj_onI insufficient_text_inj) simp_all
    then show "inj_on insufficient_text (set (rp_insufficient rep) \<union> set (rp_insufficient rep'))"
      by (rule inj_on_subset) (use ok in \<open>auto simp: readable_def\<close>)
  qed
qed

section \<open>Properties\<close>

text \<open>A report with one ranked site, one with too few samples, and one event.\<close>

definition small_report :: "real option \<Rightarrow> report" where
  "small_report warning =
     \<lparr>rp_events = [\<lparr>er_label = ''miss'', er_period = 1009, er_rings = 1,
        er_totals = zero_totals\<lparr>total_samples := 12\<rparr>, er_cpus = [], er_ip_range = Some (0x401000, 0x401146),
        er_buckets = [(12, 100), (0, 0), (0, 0), (0, 0)], er_kernel_ips = [], er_attributed = 12, er_unattributed = 0,
        er_unattributed_pct = 0, er_outside_warning = warning\<rparr>],
      rp_drain = None, rp_lost_records = 0, rp_lost_events = 0, rp_periods = [1009, 2003], rp_scale = 1009 / 2003,
      rp_ranking = [\<lparr>r_site = Site ''matrix_bad.cpp'' 44, r_m = 12, r_n = 40, concentration = 3 / 20,
        wilson_concentration = 1 / 10\<rparr>],
      rp_insufficient = [(Site ''a:7  miss=3.cpp'' 30, 0, 2)],
      rp_raw = [(Site ''matrix_bad.cpp'' 44, 12)]\<rparr>"

text \<open>
  C13: The printed text can be read back: two reports whose labels and file names have
  no line break, and whose text is the same byte for byte, rank the same sites with the
  same counts, exclude the same sites and have the same raw ranking, however odd the
  file names are.
\<close>

theorem printed_report_determines_rankings:
  assumes "readable rep" "readable rep'" "report_text rep = report_text rep'"
  shows "map ranked_counts (rp_ranking rep) = map ranked_counts (rp_ranking rep') \<and>
    rp_insufficient rep = rp_insufficient rep' \<and> rp_raw rep = rp_raw rep'"
proof -
  have "report_lines rep = report_lines rep'"
    using assms report_one_line by (intro lines_inj) (auto simp: report_text_def)
  from same_lines_same_rankings [OF this assms(1,2)] show ?thesis by blast
qed

theorem printed_report_determines_rankings_witness:
  "map ranked_counts (rp_ranking (small_report None)) = map ranked_counts (rp_ranking (small_report (Some 2)))"
proof -
  have readable: "readable (small_report w)" for w by (simp add: readable_def small_report_def plain_name_def)
  have "report_text (small_report None) = report_text (small_report (Some 2))"
    by (simp add: report_text_def report_lines_def ranking_lines_def small_report_def event_lines_def lost_line_def scale_lines_def)
  from printed_report_determines_rankings [OF readable readable this] show ?thesis by blast
qed

end
