(* ===== verification/Session.thy ===== *)
theory Session
  imports Analysis Cli Sample_Delivery
begin

text \<open>
  \<open>main\<close> of \<open>src/main.cpp\<close> as a whole: the command line, the number of CPUs, the target's
  text range and its DWARF, the periods, the measurement and the analysis.
\<close>

section \<open>The code\<close>

text \<open>
  What the session reads of the files and of \<open>libdw\<close>: the content of a file that can be
  opened, whether \<open>dwfl_begin\<close> succeeds, and the module that \<open>dwfl_report_offline\<close>
  reports for a path, if any.
\<close>

record 'l environment =
  read_file :: "string \<Rightarrow> u8 list option"
  dwfl_begins :: bool
  dwfl_report_offline :: "string \<Rightarrow> 'l dwfl option"

definition dwarf_init :: "'l environment \<Rightarrow> string \<Rightarrow> 'l dwfl option" where
  "dwarf_init env path = (if dwfl_begins env then dwfl_report_offline env path else None)"

text \<open>The session once the command line is parsed, on \<open>target_argv\<close>.\<close>

definition profile :: "'l environment \<Rightarrow> u64 option \<Rightarrow> string list \<Rightarrow> (report \<times> int) run" where
  "profile env override target_argv =
     and_then (call Nprocessors_Online) (\<lambda>nproc.
       if r_ret nproc \<le> 0 then die_errno ''sysconf(_SC_NPROCESSORS_ONLN)'' nproc
       else (case get_target_text_range (read_file env) (hd target_argv) of
           None \<Rightarrow> die ''could not determine the target's executable range from its ELF headers''
         | Some target_range \<Rightarrow>
             (case dwarf_init env (hd target_argv) of
                None \<Rightarrow> die (''libdw could not load DWARF info from the target '' @ em_dash @ '' was it built with -g?'')
              | Some dwarf \<Rightarrow>
                  and_then (choose_periods override target_argv) (\<lambda>periods.
                    and_then (measure_target (nat (r_ret nproc)) (zip plans periods) target_argv) (\<lambda>measured.
                      pure (Some (analyse (nat (r_ret nproc)) periods target_range dwarf measured)))))))"

definition session :: "'l environment \<Rightarrow> string list \<Rightarrow> (report \<times> int) run" where
  "session env argv =
     (case parse_args argv of
        Usage_Error what status \<Rightarrow> stop_with (Usage what status)
      | Profile override target_argv \<Rightarrow> profile env override target_argv)"

text \<open>The exit status, where the process has one of its own.\<close>

definition exit_status :: "stop + report \<times> int \<Rightarrow> int option" where
  "exit_status r =
     (case r of
        Inr (_, exit_code) \<Rightarrow> Some exit_code
      | Inl (Fatal f) \<Rightarrow> fatal_exit_code f
      | Inl (Usage _ status) \<Rightarrow> Some status
      | Inl (Never_Armed _ status) \<Rightarrow> Some status
      | Inl (Multiplexed _ _ _) \<Rightarrow> Some 1
      | Inl (Period_Mismatch _ _ _) \<Rightarrow> Some 1
      | Inl (Child_Exit _ status) \<Rightarrow> Some status
      | Inl (Became_Target _) \<Rightarrow> None)"

section \<open>How a session can end early\<close>

text \<open>\<open>ends_in E m\<close>: when \<open>m\<close> stops early, it is in one of the ways \<open>E\<close>.\<close>

definition ends_in :: "(stop \<Rightarrow> bool) \<Rightarrow> 'a run \<Rightarrow> bool" where
  "ends_in E m \<longleftrightarrow> (\<forall>k h e h'. m k h = Some (Inl e, h') \<longrightarrow> E e)"

named_theorems ends_rules \<open>how the basic runs end\<close>

lemma ends_basic [ends_rules]:
  "ends_in E (return a)" "ends_in E (call c)" "ends_in E (waiting_call c)" "E e \<Longrightarrow> ends_in E (stop_with e)"
  by (simp_all add: ends_in_def return_def call_def waiting_call_def stop_with_def)

lemma ends_die [ends_rules]:
  "(\<And>what. E (Fatal (Die what))) \<Longrightarrow> ends_in E (die what)"
  "(\<And>what n. E (Fatal (Die_Errno what n))) \<Longrightarrow> ends_in E (die_errno what r)"
  by (simp_all add: die_def die_errno_def ends_basic)

lemma ends_pure [ends_rules]: "(\<And>e. r = Some (Inl e) \<Longrightarrow> E e) \<Longrightarrow> ends_in E (pure r)"
  by (auto simp: ends_in_def pure_def)

lemma ends_and_then [ends_rules]:
  assumes "ends_in E m" "\<And>a. ends_in E (f a)"
  shows "ends_in E (and_then m f)"
  using assms unfolding ends_in_def and_then_def by (fastforce split: option.splits sum.splits)

lemma ends_cases [ends_rules]:
  "(c \<Longrightarrow> ends_in E m) \<Longrightarrow> (\<not> c \<Longrightarrow> ends_in E m') \<Longrightarrow> ends_in E (if c then m else m')"
  "(\<And>a b. ends_in E (f a b)) \<Longrightarrow> ends_in E (case p of (a, b) \<Rightarrow> f a b)"
  "(\<And>x. ends_in E (g x)) \<Longrightarrow> ends_in E (Let y g)"
  "ends_in E n \<Longrightarrow> (\<And>z. ends_in E (s z)) \<Longrightarrow> ends_in E (case opt of None \<Rightarrow> n | Some z \<Rightarrow> s z)"
  by (auto split: prod.split option.split)

lemma ends_for_each [ends_rules]: "(\<And>x. ends_in E (f x)) \<Longrightarrow> ends_in E (for_each f xs)"
  by (induction xs) (auto intro!: ends_rules)

lemma ends_poll_loop [ends_rules]:
  assumes "\<And>s. ends_in E (poll_round lbls child s)"
  shows "ends_in E (poll_loop lbls child s)"
proof -
  have "E e" if ret: "poll_loop lbls child s k h = Some (Inl e, h')" for k h e h'
  proof -
    let ?P = "\<lambda>lbls' child' (s :: poll_state) (k :: kernel) (h :: history) x.
      lbls' = lbls \<longrightarrow> child' = child \<longrightarrow> (\<forall>e. fst x = Inl e \<longrightarrow> E e)"
    have "?P lbls child s k h (Inl e :: stop + poll_state \<times> u32, h')"
    proof (rule poll_loop.raw_induct [where P = ?P, OF _ ret])
      fix loop lbls' child' s k h x
      assume IH: "\<And>lbls' child' s k h x. loop lbls' child' s k h = Some x \<Longrightarrow> ?P lbls' child' s k h x"
        and body: "Option.bind (poll_round lbls' child' s k h) (\<lambda>(r, h').
            case r of Inl e \<Rightarrow> Some (Inl e, h')
            | Inr (s', exited) \<Rightarrow> (case exited of Some status \<Rightarrow> Some (Inr (s', status), h')
                                  | None \<Rightarrow> loop lbls' child' s' k h')) = Some x"
      show "?P lbls' child' s k h x"
      proof (intro impI)
        assume eqs: "lbls' = lbls" "child' = child"
        from body obtain r1 h1 where round: "poll_round lbls child s k h = Some (r1, h1)"
          unfolding eqs by (cases "poll_round lbls child s k h") auto
        show "\<forall>e. fst x = Inl e \<longrightarrow> E e"
        proof (cases r1)
          case (Inl e1)
          then have "E e1" using assms round unfolding ends_in_def by blast
          with Inl body round eqs show ?thesis by auto
        next
          case (Inr y)
          then show ?thesis using body round eqs IH by (cases y, cases "snd y") auto
        qed
      qed
    qed
    then show ?thesis by simp
  qed
  then show ?thesis by (simp add: ends_in_def)
qed

section \<open>The steps behind a report\<close>

lemma session_steps:
  assumes "session env argv k h = Some (Inr (rep, code), h')"
  obtains override cmd n target dw periods evs iter h1 where
    "parse_args argv = Profile override cmd"
    "n = nat (r_ret (k h Nprocessors_Online))" "0 < n"
    "get_target_text_range (read_file env) (hd cmd) = Some target"
    "dwarf_init env (hd cmd) = Some dw"
    "choose_periods override cmd k (h @ [(Nprocessors_Online, k h Nprocessors_Online)]) = Some (Inr periods, h1)"
    "measure_target n (zip plans periods) cmd k h1 = Some (Inr (evs, iter, code), h')"
    "rep = make_report plans periods target dw (map (rings_of n evs) [0..<2]) iter"
    "analyse n periods target dw (evs, iter, code) = Inr (rep, code)"
proof -
  obtain override cmd where cli: "parse_args argv = Profile override cmd"
    using assms by (cases "parse_args argv") (auto simp: session_def stop_with_def)
  let ?n = "r_ret (k h Nprocessors_Online)"
  let ?h0 = "h @ [(Nprocessors_Online, k h Nprocessors_Online)]"
  from assms cli have prof: "profile env override cmd k h = Some (Inr (rep, code), h')" by (simp add: session_def)
  then have n: "0 < ?n"
    by (auto simp: profile_def and_then_def call_def die_errno_def stop_with_def split: if_splits)
  obtain target where target: "get_target_text_range (read_file env) (hd cmd) = Some target"
    using prof n by (cases "get_target_text_range (read_file env) (hd cmd)")
      (auto simp: profile_def and_then_def call_def die_def stop_with_def)
  obtain dw where dw: "dwarf_init env (hd cmd) = Some dw"
    using prof n target by (cases "dwarf_init env (hd cmd)")
      (auto simp: profile_def and_then_def call_def die_def stop_with_def)
  have "and_then (choose_periods override cmd) (\<lambda>periods.
      and_then (measure_target (nat ?n) (zip plans periods) cmd) (\<lambda>measured.
        pure (Some (analyse (nat ?n) periods target dw measured)))) k ?h0 = Some (Inr (rep, code), h')"
    using prof n target dw by (simp add: profile_def and_then_def [of "call c" for c] call_def)
  from run_then [OF this] obtain periods h1 where periods: "choose_periods override cmd k ?h0 = Some (Inr periods, h1)"
    and rest: "and_then (measure_target (nat ?n) (zip plans periods) cmd) (\<lambda>measured.
        pure (Some (analyse (nat ?n) periods target dw measured))) k h1 = Some (Inr (rep, code), h')" by blast
  from run_then [OF rest] obtain measured h2 where m: "measure_target (nat ?n) (zip plans periods) cmd k h1 = Some (Inr measured, h2)"
    and an: "pure (Some (analyse (nat ?n) periods target dw measured)) k h2 = Some (Inr (rep, code), h')" by blast
  obtain evs iter c where x: "measured = (evs, iter, c)" by (cases measured)
  have an': "analyse (nat ?n) periods target dw (evs, iter, c) = Inr (rep, code)" "h2 = h'"
    using an by (simp_all add: pure_def x)
  show thesis
    by (rule that [OF cli refl _ target dw periods])
      (use n m an' analyse_report [OF an'(1)] in \<open>simp_all add: x\<close>)
qed

text \<open>The descriptors of a whole session: the calibration closes what it opens, as the measurement does.\<close>

definition paired :: "history \<Rightarrow> bool" where
  "paired t \<longleftrightarrow> trace_of fd_closed t = trace_of fd_opened t \<and> trace_of ring_unmapped t = trace_of ring_mapped t"

lemma paired_append: "paired t \<Longrightarrow> paired t' \<Longrightarrow> paired (t @ t')"
  by (simp add: paired_def)

lemma only_drains_paired: "only_drains t \<Longrightarrow> paired t"
  by (simp add: paired_def only_drains_traces)

definition opened_only :: "int list \<Rightarrow> history \<Rightarrow> bool" where
  "opened_only fds t \<longleftrightarrow> trace_of fd_opened t = fds \<and> trace_of fd_closed t = [] \<and>
     trace_of ring_mapped t = [] \<and> trace_of ring_unmapped t = []"

definition closed_only :: "int list \<Rightarrow> history \<Rightarrow> bool" where
  "closed_only fds t \<longleftrightarrow> trace_of fd_opened t = [] \<and> trace_of fd_closed t = fds \<and>
     trace_of ring_mapped t = [] \<and> trace_of ring_unmapped t = []"

lemma open_plans_do:
  "does k (for_each (open_plan child) pls) (\<lambda>r t. \<forall>fds. r = Inr fds \<longrightarrow> opened_only fds t)"
proof (induction pls)
  case (Cons pl pls)
  have first: "does k (open_plan child pl) (\<lambda>r t. \<forall>fd. r = Inr fd \<longrightarrow> opened_only [fd] t)"
    unfolding open_plan_def open_counting_def perf_event_open_def
    by (intro does_rules) (auto simp: opened_only_def events_defs)
  show ?case unfolding for_each.simps
    by (rule does_and_then [OF first], simp, rule does_and_then [OF Cons.IH])
      (auto simp: opened_only_def intro!: does_return)
qed (auto simp: opened_only_def intro!: does_rules)

lemma read_calibrations_do:
  "does k (for_each read_calibration fds) (\<lambda>r t. \<forall>rates. r = Inr rates \<longrightarrow> closed_only fds t)"
proof (induction fds)
  case (Cons fd fds)
  have first: "does k (read_calibration fd) (\<lambda>r t. \<forall>rate. r = Inr rate \<longrightarrow> closed_only [fd] t)"
    unfolding read_calibration_def
    by (intro does_rules) (auto simp: closed_only_def events_defs)
  show ?case unfolding for_each.simps
    by (rule does_and_then [OF first], simp, rule does_and_then [OF Cons.IH])
      (auto simp: closed_only_def intro!: does_return)
qed (auto simp: closed_only_def intro!: does_rules)

lemma drains_only: "only_calls quiet m \<Longrightarrow> does k m (\<lambda>r t. only_drains t)"
  unfolding only_drains_def by (rule does_only)

lemma opened_then_closed: "opened_only fds t \<Longrightarrow> only_drains t' \<Longrightarrow> closed_only fds t'' \<Longrightarrow> paired (t @ (Kill_Sigcont c, s) # t' @ t'')"
  by (simp add: opened_only_def closed_only_def paired_def only_drains_traces) (simp add: events_defs)

lemma calibrate_both_do:
  "does k (calibrate_both pls argv) (\<lambda>r t. \<forall>rates. r = Inr rates \<longrightarrow> paired t)"
proof -
  have reaped: "does k (reap child) (\<lambda>r t. only_drains t)" for child
    unfolding reap_def by (intro drains_only only_rules) simp
  have after: "does k (and_then (call (Kill_Sigcont child)) (\<lambda>s.
        if r_ret s \<noteq> 0 then die_errno ''kill(SIGCONT) [calibration]'' s
        else and_then (reap child) (\<lambda>_. for_each read_calibration fds)))
      (\<lambda>r t'. \<forall>rates. r = Inr rates \<longrightarrow> paired (t @ t'))" if "opened_only fds t" for child fds t
    by (intro does_call_then does_if does_die, simp, rule does_and_then [OF reaped], simp,
        rule does_mono [OF read_calibrations_do])
      (use opened_then_closed [OF that] in simp)
  have opened: "does k (and_then (for_each (open_plan child) pls) (\<lambda>fds.
        and_then (call (Kill_Sigcont child)) (\<lambda>s.
          if r_ret s \<noteq> 0 then die_errno ''kill(SIGCONT) [calibration]'' s
          else and_then (reap child) (\<lambda>_. for_each read_calibration fds))))
      (\<lambda>r t. \<forall>rates. r = Inr rates \<longrightarrow> paired t)" for child
    by (rule does_and_then [OF open_plans_do], simp, rule after, simp)
  show ?thesis unfolding calibrate_both_def
    by (rule does_and_then [OF fork_does], simp, rule does_mono [OF opened])
      (auto intro: paired_append only_drains_paired)
qed

lemma choose_periods_do:
  "does k (choose_periods override argv) (\<lambda>r t. \<forall>ps. r = Inr ps \<longrightarrow> paired t)"
proof (cases override)
  case None
  have cap: "does k read_max_rate (\<lambda>r t. only_drains t)"
    unfolding read_max_rate_def by (intro drains_only only_rules) simp_all
  have primes: "does k (for_each (calibrated_period max_rate) rates) (\<lambda>r t. only_drains t)" for max_rate rates
    unfolding calibrated_period_def
    by (intro drains_only only_for_each) (auto split: option.split intro: only_rules)
  have measured: "does k (and_then (calibrate_both plans argv) (\<lambda>rates. for_each (calibrated_period max_rate) rates))
      (\<lambda>r t. \<forall>ps. r = Inr ps \<longrightarrow> paired t)" for max_rate
    by (rule does_and_then [OF calibrate_both_do], simp, rule does_mono [OF primes])
      (auto intro: paired_append only_drains_paired)
  show ?thesis unfolding choose_periods_def None option.case
    by (rule does_and_then [OF cap], simp, rule does_mono [OF measured])
      (auto intro: paired_append only_drains_paired)
qed (auto simp: choose_periods_def paired_def intro!: does_return)

lemma choose_periods_length:
  assumes "choose_periods override argv k h = Some (Inr ps, h')"
  shows "length ps = 2"
proof (cases override)
  case None
  with outcomeD [OF choose_periods_outcome [of k argv h]] assms
  have "\<exists>R. list_all2 R plans ps" by fastforce
  then show ?thesis using list_all2_lengthD by (fastforce simp: plans_def)
qed (use assms in \<open>auto simp: choose_periods_def return_def\<close>)

lemma session_paired:
  assumes "session env argv k h = Some (Inr x, h')"
  shows "\<exists>t. h' = h @ t \<and> paired t"
proof -
  obtain rep code where x: "x = (rep, code)" by (cases x)
  from assms [unfolded x] show ?thesis
  proof (rule session_steps)
    fix override cmd n target dw periods evs iter h1
    assume c: "choose_periods override cmd k (h @ [(Nprocessors_Online, k h Nprocessors_Online)]) = Some (Inr periods, h1)"
      and m: "measure_target n (zip plans periods) cmd k h1 = Some (Inr (evs, iter, code), h')"
    from doesD [OF choose_periods_do c] obtain t1 where
      t1: "h1 = (h @ [(Nprocessors_Online, k h Nprocessors_Online)]) @ t1" "paired t1" by auto
    from doesD [OF measure_target_does m] obtain t2 where
      t2: "h' = h1 @ t2" "run_ok n (zip plans periods) (Inr (evs, iter, code)) t2" by blast
    then have "paired t2" by (simp add: run_ok_def balanced_def paired_def)
    moreover have "paired [(Nprocessors_Online, k h Nprocessors_Online)]" by (simp add: paired_def events_defs)
    ultimately show ?thesis
      using t1 t2(1) by (intro exI [of _ "[(Nprocessors_Online, k h Nprocessors_Online)] @ t1 @ t2"])
        (simp add: paired_append del: append.simps)
  qed
qed

section \<open>What a report says\<close>

lemma report_events:
  assumes "length rings = length pls"
  shows "rp_events (make_report pls periods target dw rings iter) =
    map (\<lambda>(pl, rs). print_event_report (plan_label pl) rs (classify_and_attribute (combined_samples rs) target dw))
      (zip pls rings)"
  using assms by (auto simp: make_report_def Let_def split_beta intro!: nth_equalityI)

text \<open>The numbers of an event's report fit together.\<close>

definition adds_up :: "nat \<Rightarrow> event_report \<Rightarrow> bool" where
  "adds_up nr_cpus er \<longleftrightarrow> er_rings er = nr_cpus \<and>
     sum_list (map fst (er_buckets er)) = total_samples (er_totals er) \<and>
     er_attributed er + er_unattributed er = fst (er_buckets er ! bucket_index KTarget) \<and>
     active_cpus (er_totals er) = word_of_nat (length (er_cpus er))"

lemma total_rings:
  "active_cpus (fold add_ring rings t) =
     active_cpus t + word_of_nat (length (filter (\<lambda>ev. time_running (ev_counts ev) \<noteq> 0) rings))"
  by (induction rings arbitrary: t) (auto simp: add_ring_def word_gt_0 algebra_simps)

lemma printed_buckets:
  "map fst (er_buckets (print_event_report label rings (classify_and_attribute samples target dw))) =
     bucket_count (classify_and_attribute samples target dw)"
proof -
  have "length (bucket_count (classify_and_attribute samples target dw)) = 4"
    unfolding classify_and_attribute_fields(3) by simp
  then show ?thesis
    using map_nth [of "bucket_count (classify_and_attribute samples target dw)"]
    by (simp add: print_event_report_def Let_def o_def)
qed

lemma print_event_report_adds_up:
  assumes "\<forall>ev\<in>set rings. hist_ok (ev_ring ev)"
  shows "adds_up (length rings)
    (print_event_report label rings (classify_and_attribute (combined_samples rings) target dw))"
proof -
  define a where "a = classify_and_attribute (combined_samples rings) target dw"
  have buckets: "bucket_count a = map (\<lambda>b. count_if (in_bucket target b) (combined_samples rings))
      [KTarget, KOtherUser, KKernel, KUnclassifiable]"
    unfolding a_def by (rule classify_and_attribute_fields(3))
  then have len: "length (bucket_count a) = 4" by simp
  have "map (\<lambda>i. bucket_count a ! i) [0..<4] = bucket_count a"
    using len map_nth [of "bucket_count a"] by simp
  moreover have "sum_list (bucket_count a) = total_samples (fold add_ring rings zero_totals)"
    using total_samples_rings [OF assms, of zero_totals] by (simp add: a_def buckets_total zero_totals_def)
  moreover have "attributed a + unattributed a = bucket_count a ! 0"
    using target_total [of "combined_samples rings" target dw] unfolding a_def [symmetric] buckets by simp
  ultimately show ?thesis unfolding a_def [symmetric]
    using total_rings [of rings zero_totals]
    by (simp add: adds_up_def print_event_report_def Let_def o_def zero_totals_def)
qed

text \<open>The report as a function of the samples of the two events.\<close>

definition at_site :: "text_range \<Rightarrow> 'l dwfl \<Rightarrow> site \<Rightarrow> sample \<Rightarrow> bool" where
  "at_site target dw site s \<longleftrightarrow> site_of target dw s = Some site"

text \<open>What the kernel lost of an event: the lost records of its rings, and the events they stand for.\<close>

definition events_lost :: "perf_record list \<Rightarrow> u64" where
  "events_lost lost = (\<Sum>r\<leftarrow>lost. snd (decode_lost (take 16 (pr_body r))))"

definition reports_losses :: "perf_record list \<Rightarrow> event_report \<Rightarrow> bool" where
  "reports_losses lost er \<longleftrightarrow> h_lost_records (total_hist (er_totals er)) = word_of_nat (length lost) \<and>
     h_lost_events (total_hist (er_totals er)) = events_lost lost"

text \<open>
  The counts of the rings of an event, one per CPU: the lines are those of the CPUs on which
  the event was scheduled, in order, each with the CPU's number, its value and the fraction of
  time it ran; the aggregate is the sum.
\<close>

definition reports_counts :: "count_read_format list \<Rightarrow> event_report \<Rightarrow> bool" where
  "reports_counts counts er \<longleftrightarrow>
     map (\<lambda>l. (cl_cpu l, cl_value l, mux_fraction l)) (er_cpus er) =
       map (\<lambda>c. (int c, cr_value (counts ! c), to_double (time_running (counts ! c)) / to_double (time_enabled (counts ! c))))
         (filter (\<lambda>c. time_running (counts ! c) \<noteq> 0) [0..<length counts]) \<and>
     total_value (er_totals er) = (\<Sum>c\<leftarrow>counts. cr_value c)"

lemma total_values: "total_value (fold add_ring rings t) = total_value t + (\<Sum>c\<leftarrow>map ev_counts rings. cr_value c)"
  by (induction rings arbitrary: t) (simp_all add: add_ring_def algebra_simps)

lemma print_event_report_counts:
  assumes "\<forall>c<length rings. ev_cpu (rings ! c) = int c"
  shows "reports_counts (map ev_counts rings) (print_event_report label rings a)"
proof -
  let ?run = "\<lambda>ev. time_running (ev_counts ev) \<noteq> 0"
  let ?line = "\<lambda>ev. (ev_cpu ev, cr_value (ev_counts ev),
    to_double (time_running (ev_counts ev)) / to_double (time_enabled (ev_counts ev)))"
  have "filter ?run rings = map (\<lambda>c. rings ! c) (filter (\<lambda>c. ?run (rings ! c)) [0..<length rings])"
    by (subst map_nth [of rings, symmetric]) (simp only: filter_map o_def)
  then have "map ?line (filter ?run rings) = map (\<lambda>c. ?line (rings ! c)) (filter (\<lambda>c. ?run (rings ! c)) [0..<length rings])"
    by simp
  also have "\<dots> = map (\<lambda>c. (int c, cr_value (map ev_counts rings ! c),
      to_double (time_running (map ev_counts rings ! c)) / to_double (time_enabled (map ev_counts rings ! c))))
      (filter (\<lambda>c. time_running (map ev_counts rings ! c) \<noteq> 0) [0..<length rings])"
    using assms by (intro map_cong filter_cong) auto
  finally show ?thesis
    using total_values [of rings zero_totals]
    by (simp add: reports_counts_def print_event_report_def Let_def cpu_line_of_def o_def zero_totals_def)
qed

definition event_counts :: "text_range \<Rightarrow> sample list \<Rightarrow> event_report \<Rightarrow> bool" where
  "event_counts target samples er \<longleftrightarrow> total_samples (er_totals er) = word_of_nat (length samples) \<and>
     map fst (er_buckets er) =
       map (\<lambda>b. count_if (in_bucket target b) samples) [KTarget, KOtherUser, KKernel, KUnclassifiable]"

definition reports_samples :: "text_range \<Rightarrow> 'l dwfl \<Rightarrow> sample list \<Rightarrow> sample list \<Rightarrow> report \<Rightarrow> bool" where
  "reports_samples target dw miss access rep \<longleftrightarrow>
     (\<forall>site c. (site, c) \<in> set (rp_raw rep) \<longleftrightarrow>
        (\<exists>s\<in>set miss. at_site target dw site s) \<and> c = count_if (at_site target dw site) miss) \<and>
     (\<forall>r\<in>set (rp_ranking rep). r_m r = count_if (at_site target dw (r_site r)) miss \<and>
        r_n r = count_if (at_site target dw (r_site r)) access) \<and>
     (\<forall>(site, m, n)\<in>set (rp_insufficient rep). m = count_if (at_site target dw site) miss \<and>
        n = count_if (at_site target dw site) access) \<and>
     r_site ` set (rp_ranking rep) \<union> fst ` set (rp_insufficient rep) =
       {site. \<exists>s\<in>set miss \<union> set access. at_site target dw site s} \<and>
     list_all2 (event_counts target) [miss, access] (rp_events rep)"

lemma smap_count_site:
  "smap_count (line_counts (classify_and_attribute samples target dw)) site = count_if (at_site target dw site) samples"
proof -
  have "count_if (at_site target dw site) samples = 0" if "\<not> (\<exists>s\<in>set samples. at_site target dw site s)"
    using that by (simp add: count_if_def filter_empty_conv)
  then show ?thesis
    unfolding smap_count_def classify_and_attribute_fields(1) at_site_def by auto
qed

lemma entries_site:
  "(site, c) \<in> set (line_counts (classify_and_attribute samples target dw)) \<longleftrightarrow>
     (\<exists>s\<in>set samples. at_site target dw site s) \<and> c = count_if (at_site target dw site) samples"
  unfolding smap_find_mem [OF classify_and_attribute_fields(2)] classify_and_attribute_fields(1) at_site_def
  by auto

lemma sites_of_entries:
  "fst ` set (line_counts (classify_and_attribute samples target dw)) = {site. \<exists>s\<in>set samples. at_site target dw site s}"
proof (rule set_eqI)
  fix site
  have "site \<in> fst ` set (line_counts (classify_and_attribute samples target dw)) \<longleftrightarrow>
      smap_find (line_counts (classify_and_attribute samples target dw)) site \<noteq> None"
    by (simp add: smap_find_None)
  then show "site \<in> fst ` set (line_counts (classify_and_attribute samples target dw)) \<longleftrightarrow>
      site \<in> {site. \<exists>s\<in>set samples. at_site target dw site s}"
    unfolding classify_and_attribute_fields(1) at_site_def by simp
qed

lemma ranking_entries:
  fixes pm pa miss access
  assumes "concentration_ranking pm pa miss access = (ranking, insufficient)"
  shows "\<forall>r\<in>set ranking. r_m r = smap_count miss (r_site r) \<and> r_n r = smap_count access (r_site r)"
    and "r_site ` set ranking \<union> set insufficient = fst ` set miss \<union> fst ` set access"
proof -
  let ?scored = "map (\<lambda>s. score_site (period_scale pm pa) s (smap_count miss s) (smap_count access s))
      (filter (supported access) (all_sites miss access))"
  have r: "set ranking = set ?scored" "insufficient = filter (\<lambda>s. \<not> supported access s) (all_sites miss access)"
    using assms unfolding concentration_ranking_split by (auto simp: isort.srt_set)
  show "\<forall>r\<in>set ranking. r_m r = smap_count miss (r_site r) \<and> r_n r = smap_count access (r_site r)"
    unfolding r(1) by (simp add: score_site_def)
  have "r_site ` set ranking = {s \<in> set (all_sites miss access). supported access s}"
    unfolding r(1) by (force simp: score_site_def)
  then show "r_site ` set ranking \<union> set insufficient = fst ` set miss \<union> fst ` set access"
    unfolding r(2) all_sites_set [symmetric] by auto
qed

lemma make_report_samples:
  assumes "\<forall>ev\<in>set (mr @ ar). hist_ok (ev_ring ev)"
  shows "reports_samples target dw (combined_samples mr) (combined_samples ar)
    (make_report plans periods target dw [mr, ar] iter)"
proof -
  let ?m = "line_counts (classify_and_attribute (combined_samples mr) target dw)"
  let ?a = "line_counts (classify_and_attribute (combined_samples ar) target dw)"
  obtain ranking insufficient where
    rank: "concentration_ranking (periods ! 0) (periods ! 1) ?m ?a = (ranking, insufficient)" by fastforce
  have rep: "rp_raw (make_report plans periods target dw [mr, ar] iter) = raw_ranking ?m"
    "rp_ranking (make_report plans periods target dw [mr, ar] iter) = ranking"
    "fst ` set (rp_insufficient (make_report plans periods target dw [mr, ar] iter)) = set insufficient"
    "\<forall>(site, m, n)\<in>set (rp_insufficient (make_report plans periods target dw [mr, ar] iter)).
       m = smap_count ?m site \<and> n = smap_count ?a site"
    using rank by (auto simp: make_report_def Let_def image_image)
  have raw: "set (raw_ranking ?m) = set ?m" by (simp add: raw_ranking_def isort.srt_set)
  have counts: "event_counts target (combined_samples rs)
      (print_event_report l rs (classify_and_attribute (combined_samples rs) target dw))"
    if "\<forall>ev\<in>set rs. hist_ok (ev_ring ev)" for rs l
    using total_samples_rings [OF that, of zero_totals] printed_buckets [of l rs "combined_samples rs" target dw]
    unfolding event_counts_def classify_and_attribute_fields(3)
    by (simp add: print_event_report_def Let_def zero_totals_def)
  have "list_all2 (event_counts target) [combined_samples mr, combined_samples ar]
      (rp_events (make_report plans periods target dw [mr, ar] iter))"
    using assms by (simp add: report_events plans_def counts)
  then show ?thesis
    unfolding reports_samples_def rep raw
    using ranking_entries [OF rank] rep(4) by (auto simp: entries_site smap_count_site sites_of_entries)
qed

end
