(* ===== verification/Profiling_Run.thy ===== *)
theory Profiling_Run
  imports Session Report_Text
begin

text \<open>
  The session as a whole: on a kernel that serves its rings it returns, and what it reports
  is what the kernel sampled; on every kernel it closes what it opened, its numbers add up,
  and it does not end early with status 0.
\<close>

section \<open>On a kernel that serves its rings\<close>

text \<open>The samples that the kernel writes to the rings at these addresses, one ring after the other.\<close>

definition streamed :: "streams \<Rightarrow> u64 list \<Rightarrow> sample list" where
  "streamed rs bases = concat (map (\<lambda>base. map sample_of (of_type PERF_RECORD_SAMPLE (rs base))) bases)"

lemma streamed_complete:
  "\<forall>ev\<in>set evs. all_delivered rs ev \<Longrightarrow> streamed rs (map mmap_base evs) = combined_samples evs"
  unfolding streamed_def combined_samples_concat map_map
  by (intro arg_cong [of _ _ concat] map_cong)
    (simp_all add: all_delivered_def stream_of_def stream_effect_def fresh_ring_def)

text \<open>The lost records that the kernel writes to these rings.\<close>

definition lost_records :: "streams \<Rightarrow> u64 list \<Rightarrow> perf_record list" where
  "lost_records rs bases = concat (map (\<lambda>base. of_type PERF_RECORD_LOST (rs base)) bases)"

lemma lost_totals_delivered:
  assumes "\<forall>ev\<in>set evs. all_delivered rs ev"
  shows "lost_totals evs = (word_of_nat (length (lost_records rs (map mmap_base evs))),
    events_lost (lost_records rs (map mmap_base evs)))"
proof -
  have "fold (\<lambda>ev (records, events). (records + h_lost_records (d_hist (ev_ring ev)),
      events + h_lost_events (d_hist (ev_ring ev)))) evs (a, b) =
    (a + word_of_nat (length (lost_records rs (map mmap_base evs))), b + events_lost (lost_records rs (map mmap_base evs)))"
    for a b
    using assms
    by (induction evs arbitrary: a b)
      (simp_all add: lost_records_def events_lost_def all_delivered_def stream_of_def stream_effect_def fresh_ring_def
        empty_histogram_def)
  then show ?thesis by (simp add: lost_totals_def)
qed

lemma losses_delivered:
  assumes "\<forall>ev\<in>set evs. all_delivered rs ev"
  shows "reports_losses (lost_records rs (map mmap_base evs)) (print_event_report label evs a)"
proof -
  have "h_lost_records (total_hist (fold add_ring evs t)) =
      h_lost_records (total_hist t) + word_of_nat (length (lost_records rs (map mmap_base evs))) \<and>
    h_lost_events (total_hist (fold add_ring evs t)) =
      h_lost_events (total_hist t) + events_lost (lost_records rs (map mmap_base evs))" for t
    using assms
    by (induction evs arbitrary: t)
      (simp_all add: lost_records_def events_lost_def add_ring_def add_hist_def all_delivered_def stream_of_def
        stream_effect_def fresh_ring_def empty_histogram_def)
  from this [of zero_totals] show ?thesis
    by (simp add: reports_losses_def print_event_report_def Let_def zero_totals_def empty_histogram_def)
qed

lemma choose_periods_opens_nothing:
  assumes "choose_periods override argv k h = Some (r, h')"
  shows "no_rings h' = no_rings h" "trace_of sampling_opened h' = trace_of sampling_opened h"
proof -
  have "only_calls (\<lambda>c. \<forall>b u. c \<noteq> Store_Tail b u) (calibrated_period max_rate rate)" for max_rate rate
    by (auto simp: calibrated_period_def split: option.split intro: only_rules)
  then have "only_calls (\<lambda>c. \<forall>b u. c \<noteq> Store_Tail b u) (choose_periods override argv)"
    unfolding choose_periods_def read_max_rate_def calibrate_both_def fork_stop_exec_def child_side_def
      open_plan_def open_counting_def perf_event_open_def reap_def read_calibration_def Let_def
    by (cases override) (auto intro!: only_rules)
  from doesD [OF does_conj [OF does_only [OF choose_periods_samples_nothing] does_only [OF this]] assms]
  obtain t where t: "h' = h @ t" "\<forall>c\<in>set (calls t). samples_nothing c" "\<forall>c\<in>set (calls t). \<forall>b u. c \<noteq> Store_Tail b u"
    by blast
  with samples_nothing_traces [OF t(2)]
  show "no_rings h' = no_rings h" "trace_of sampling_opened h' = trace_of sampling_opened h"
    by (simp_all add: no_rings_def ball_Un)
qed

lemma choose_periods_two:
  assumes "choose_periods override argv k h = Some (Inr periods, h')"
  shows "\<exists>p q. periods = [p, q] \<and> override \<in> {None, Some p}"
proof (cases override)
  case None
  with choose_periods_length [OF assms] show ?thesis by (auto simp: length_Suc_conv numeral_2_eq_2)
next
  case (Some p)
  then show ?thesis using assms by (auto simp: choose_periods_def return_def)
qed

text \<open>The ways in which the analysis refuses a run.\<close>

fun refused :: "stop \<Rightarrow> bool" where
  "refused (Never_Armed _ _) = True"
| "refused (Multiplexed _ _ _) = True"
| "refused (Period_Mismatch _ _ _) = True"
| "refused _ = False"

lemma analyse_refuses: "analyse n periods target dw x = Inl e \<Longrightarrow> refused e"
  by (auto simp: analyse_def Let_def split: prod.splits option.splits)

text \<open>
  What a report says of the session behind it, \<open>h\<close>: the rings are those of the sampling
  events, the miss events of all CPUs and then the access events, with the periods reported
  and, if one was given, the period of the command line; the kernel throttled none of them,
  and the sites, buckets, totals and losses of each event are those of its streams.
\<close>

definition faithful ::
  "u64 option \<Rightarrow> nat \<Rightarrow> text_range \<Rightarrow> 'l dwfl \<Rightarrow> streams \<Rightarrow> int \<Rightarrow> report \<Rightarrow> int \<Rightarrow> history \<Rightarrow> bool" where
  "faithful override n target dw rs child rep code h \<longleftrightarrow>
     (let bases = map fst (trace_of ring_mapped h);
          periods = map er_period (rp_events rep);
          lost = lost_records rs bases;
          lost_of = map (lost_records rs) [take n bases, drop n bases] in
       length bases = 2 * n \<and> distinct bases \<and>
       rings_for child (grid n (zip plans periods)) h \<and> override \<in> {None, Some (periods ! 0)} \<and>
       (\<forall>base\<in>set bases. \<forall>r\<in>set (rs base). \<not> throttles r) \<and>
       reports_samples target dw (streamed rs (take n bases)) (streamed rs (drop n bases)) rep \<and>
       list_all2 reports_losses lost_of (rp_events rep) \<and>
       rp_lost_records rep = word_of_nat (length lost) \<and> rp_lost_events rep = events_lost lost) \<and>
     (\<exists>status. exited_with child status h \<and> code = exit_code_of status)"

lemma delivered_hist_ok: "all_delivered rs ev \<Longrightarrow> hist_ok (ev_ring ev)"
  by (simp add: all_delivered_def stream_of_def stream_effect_def hist_ok_def fresh_ring_def empty_histogram_def)

lemma length_measured_grid: "length periods = 2 \<Longrightarrow> length (grid n (zip plans periods)) = n * 2"
  by (simp add: grid_def plans_def)

lemma opened_periods:
  assumes "list_all2 opened_for (grid n (zip plans [p, q])) evs" "0 < n"
  shows "requested_period (hd (take n evs)) = p" "requested_period (hd (drop n evs)) = q"
proof -
  have g: "grid n (zip plans [p, q]) = map (\<lambda>c. ((plans ! 0, p), c)) [0..<n] @ map (\<lambda>c. ((plans ! 1, q), c)) [0..<n]"
    by (simp add: grid_def plans_def)
  from assms(1) obtain es es' where evs: "evs = es @ es'"
    "list_all2 opened_for (map (\<lambda>c. ((plans ! 0, p), c)) [0..<n]) es"
    "list_all2 opened_for (map (\<lambda>c. ((plans ! 1, q), c)) [0..<n]) es'"
    unfolding g list_all2_append1 by blast
  have len: "length es = n" "length es' = n" using evs(2,3) by (auto dest: list_all2_lengthD)
  have "opened_for ((plans ! 0, p), 0) (es ! 0)" "opened_for ((plans ! 1, q), 0) (es' ! 0)"
    using list_all2_nthD [OF evs(2), of 0] list_all2_nthD [OF evs(3), of 0] assms(2) by simp_all
  moreover have "es \<noteq> []" "es' \<noteq> []" using len assms(2) by auto
  ultimately have "opened_for ((plans ! 0, p), 0) (hd es)" "opened_for ((plans ! 1, q), 0) (hd es')"
    by (simp_all add: hd_conv_nth)
  then show "requested_period (hd (take n evs)) = p" "requested_period (hd (drop n evs)) = q"
    using len by (simp_all add: evs(1) opened_for_def)
qed

lemma measured_faithful:
  assumes m: "measure_target n (zip plans [p, q]) cmd k h = Some (Inr (evs, iter, code), h')"
    and k: "cooperates k child limit rs (n * 2)" and h: "no_rings h" "trace_of sampling_opened h = []" "0 < n"
    and fork: "r_ret (k h Fork) = child" and override: "override \<in> {None, Some p}"
  shows "faithful override n target dw rs child
    (make_report plans [p, q] target dw (map (rings_of n evs) [0..<2]) iter) code h'"
proof -
  let ?sps = "zip plans [p, q]" and ?rep = "make_report plans [p, q] target dw [take n evs, drop n evs] iter"
  have len: "length (grid n ?sps) = n * 2" by (simp add: grid_def plans_def)
  have c: "delivered_run rs child (grid n ?sps) (evs, iter, code) h'"
    using outcomeD [OF measure_target_outcome [where nr_cpus = n and sps = ?sps and argv = cmd] m] k h(1) fork
    by (simp only: run_result_def len sum.case simp_thms)
  then have c: "list_all2 opened_for (grid n ?sps) evs" "distinct (map mmap_base evs)" "\<forall>ev\<in>set evs. all_delivered rs ev"
    "\<exists>status. exited_with child status h' \<and> code = exit_code_of status"
    by (simp_all add: delivered_run_def)
  have "\<exists>t. h' = h @ t \<and> rings_of_cells (grid n ?sps) evs t \<and> maps_rings evs t"
    using doesD [OF measure_target_rings m] by blast
  then obtain t where t: "h' = h @ t" "length evs = n * 2" "maps_rings evs t" "rings_for child (grid n ?sps) t"
    using measure_rings [OF m] fork rings_of_cells_length len by auto
  have bases: "map fst (trace_of ring_mapped h') = map mmap_base evs"
    using t h by (simp add: no_rings_def maps_rings_def)
  have "map snd (trace_of ring_backed h) = []" using h(1) ring_backed_mapped [of h] by (simp add: no_rings_def)
  then have backed: "rings_for child (grid n ?sps) h'"
    using t(1,4) h(2) by (simp add: rings_for_def)
  have rings: "map (rings_of n evs) [0..<2] = [take n evs, drop n evs]"
    using t(2) by (simp add: rings_of_def upt_rec)
  have periods: "map er_period (rp_events ?rep) = [p, q]"
    using opened_periods [OF c(1) h(3)] by (simp add: report_events plans_def print_event_report_def Let_def)
  have lost: "rp_lost_records ?rep = fst (lost_totals evs)" "rp_lost_events ?rep = snd (lost_totals evs)"
    by (simp_all add: make_report_def Let_def split: prod.split)
  have "reports_samples target dw (combined_samples (take n evs)) (combined_samples (drop n evs)) ?rep"
    using c(3) by (intro make_report_samples) (auto intro: delivered_hist_ok)
  moreover have "streamed rs (take n (map mmap_base evs)) = combined_samples (take n evs)"
    "streamed rs (drop n (map mmap_base evs)) = combined_samples (drop n evs)"
    unfolding take_map drop_map using c(3)
    by (auto intro!: streamed_complete dest: in_set_takeD in_set_dropD)
  moreover have "\<forall>base\<in>set (map mmap_base evs). \<forall>r\<in>set (rs base). \<not> throttles r"
    using c(3) by (simp add: all_delivered_def stream_of_def)
  moreover have "list_all2 reports_losses
      (map (lost_records rs) [take n (map mmap_base evs), drop n (map mmap_base evs)]) (rp_events ?rep)"
    unfolding take_map drop_map using c(3)
    by (simp add: report_events plans_def)
      (auto intro!: losses_delivered dest: in_set_takeD in_set_dropD)
  ultimately show ?thesis
    using c(2,4) t(2) backed override lost_totals_delivered [OF c(3)]
    unfolding faithful_def bases rings periods Let_def lost by simp
qed

section \<open>A concrete session\<close>

text \<open>The counts of the result are those that the kernel returned to \<open>read\<close>.\<close>

definition counted :: "kernel \<Rightarrow> sampling_event \<Rightarrow> bool" where
  "counted k ev \<longleftrightarrow> (\<exists>h fd. ev_counts ev = r_counts (k h (Read_Counts fd)))"

lemma finish_all_counted:
  "outcome True k (for_each finish_sampling evs) h (result_ok (\<lambda>evs' _. \<forall>ev\<in>set evs'. counted k ev))"
proof (induction evs arbitrary: h)
  case (Cons ev evs)
  have "outcome True k (finish_sampling ev) h (result_ok (\<lambda>ev' _. counted k ev'))"
    by (auto simp: finish_sampling_def run_rules counted_def)
  then show ?case unfolding for_each.simps outcome_and_then [of _ _ "finish_sampling ev"]
  proof (rule outcome_mono)
    fix r h1 assume "result_ok (\<lambda>ev' _. counted k ev') r h1"
    then show "case r of Inl e \<Rightarrow> result_ok (\<lambda>evs' _. \<forall>ev\<in>set evs'. counted k ev) (Inl e) h1
      | Inr ev' \<Rightarrow> outcome True k (and_then (for_each finish_sampling evs) (\<lambda>ys. return (ev' # ys))) h1
          (result_ok (\<lambda>evs' _. \<forall>ev\<in>set evs'. counted k ev))"
      by (cases r) (auto simp: outcome_return result_ok_def intro!: outcome_ok_and_then [OF Cons.IH])
  qed
qed (simp add: run_rules)

lemma measure_target_counted:
  assumes "measure_target nr_cpus sps argv k h = Some (Inr (evs, iter, code), h')"
  shows "\<forall>ev\<in>set evs. counted k ev"
proof -
  have finish: "outcome True k (and_then (for_each finish_sampling evs) (\<lambda>evs. return (evs, iter, code))) h
      (result_ok (\<lambda>x _. \<forall>ev\<in>set (fst x). counted k ev))" for evs iter code h
    by (rule outcome_ok_and_then [OF finish_all_counted]) (simp add: outcome_return)
  have watch: "outcome True k (watch_target lbls child evs) h (result_ok (\<lambda>x _. \<forall>ev\<in>set (fst x). counted k ev))"
    for lbls child evs h
    unfolding watch_target_def by (rule outcome_last, simp only: split_beta, rule outcome_last, rule finish)
  have "outcome True k (measure_target nr_cpus sps argv) h (result_ok (\<lambda>x _. \<forall>ev\<in>set (fst x). counted k ev))" for h
    unfolding measure_target_def
    by (rule outcome_last, simp only: split_beta, rule outcome_last) (simp add: outcome_die_errno watch)
  from outcomeD [OF this assms] show ?thesis by simp
qed

definition busy_dw :: "nat dwfl" where
  "busy_dw = \<lparr>dwfl_module_getsrc = (\<lambda>_. Some 0), dwfl_lineinfo = (\<lambda>_. (Some ''a.c'', 7))\<rparr>"

definition busy_phdrs :: "(elf64_phdr \<times> u8 list) list" where
  "busy_phdrs = [(\<lparr>p_type = 1, p_flags = 5, p_vaddr = 0x401000, p_memsz = 0x2d5\<rparr>, replicate 32 0)]"

definition busy_env :: "nat environment" where
  "busy_env = \<lparr>read_file = [''./a'' \<mapsto> elf_image (replicate 49 0) [] busy_phdrs []],
     dwfl_begins = True, dwfl_report_offline = (\<lambda>_. Some busy_dw)\<rparr>"

definition busy_target :: text_range where
  "busy_target = \<lparr>lo = 0x401000, hi = 0x4012d5\<rparr>"

definition busy_argv :: "string list" where
  "busy_argv = [''cachelens'', ''--period'', ''3'', ''--'', ''./a'']"

lemma busy_target_range: "get_target_text_range (read_file busy_env) ''./a'' = Some busy_target"
proof -
  have "get_target_text_range (read_file busy_env) ''./a'' = text_hull (map fst busy_phdrs)"
    by (rule parse_image [of _ _ "replicate 49 0" "[]" _ "[]"])
      (simp_all add: busy_env_def busy_phdrs_def sizeof_ehdr_def)
  then show ?thesis by (simp add: busy_phdrs_def text_hull_def exec_load_def busy_target_def)
qed

lemma busy_dwarf: "dwarf_init busy_env path = Some busy_dw"
  by (simp add: dwarf_init_def busy_env_def)

lemma busy_cli: "parse_args busy_argv = Profile (Some 3) [''./a'']"
proof -
  have "dec_digits 3 = ''3''" by code_simp
  then show ?thesis
    using parse_period [of 3 "[''./a'']" "''cachelens''"]
    by (simp add: busy_argv_def clamp_llong_nat [of 3, simplified])
qed

definition calibrated_argv :: "string list" where
  "calibrated_argv = [''cachelens'', ''--'', ''./a'']"

lemma calibrated_cli: "parse_args calibrated_argv = Profile None [''./a'']"
  by (simp add: calibrated_argv_def parse_args_def parse_target_def)

lemma busy_counted: "counted busy_kernel ev \<Longrightarrow> ev_counts ev = busy_counts"
  by (auto simp: counted_def busy_kernel_def no_reply_def)

lemma busy_delivered: "all_delivered busy_stream ev \<Longrightarrow> d_samples (ev_ring ev) = [busy_sample]"
  by (simp add: all_delivered_def stream_of_def busy_stream_def stream_effect_def fresh_ring_def of_type_def)

text \<open>After the calibration, which forks once, or without one: the session reports.\<close>

definition busy_began :: history where
  "busy_began = [(Nprocessors_Online, busy_kernel [] Nprocessors_Online)]"

lemma busy_session_from:
  assumes cli: "parse_args argv = Profile override [''./a'']"
    and c: "choose_periods override [''./a''] busy_kernel busy_began = Some (Inr [3, 3], h1)"
  shows "\<exists>rep code h'. session busy_env argv busy_kernel [] = Some (Inr (rep, code), h')"
proof -
  let ?sps = "zip plans [3, 3]"
  have n: "r_ret (busy_kernel [] Nprocessors_Online) = 1" by (simp add: busy_kernel_def)
  have g: "length (grid 1 ?sps) = 2" by (simp add: grid_def plans_def)
  have h1: "no_rings h1"
    using choose_periods_opens_nothing [OF c] by (simp add: busy_began_def no_rings_def ring_mapped_def)
  have f: "r_ret (busy_kernel h1 Fork) = 7 + int (forks h1)" by (simp add: busy_kernel_def no_reply_def)
  have "cooperates busy_kernel (7 + int (forks h1)) 1 busy_stream (length (grid 1 ?sps))"
    unfolding g by (rule busy_cooperates) simp
  from unthrottled_run [OF this h1 busy_unthrottled f, of "[''./a'']"]
  obtain evs iter code h' where
    m: "measure_target 1 ?sps [''./a''] busy_kernel h1 = Some (Inr (evs, iter, code), h')"
    and evs: "list_all2 opened_for (grid 1 ?sps) evs" "\<forall>ev\<in>set evs. all_delivered busy_stream ev"
    by (auto simp: delivered_run_def)
  have len: "length evs = 1 * 2" using list_all2_lengthD [OF evs(1)] by (simp add: grid_def plans_def)
  have counts: "\<forall>ev\<in>set evs. ev_counts ev = busy_counts"
    using measure_target_counted [OF m] busy_counted by blast
  then have armed: "\<forall>ev\<in>set evs. armed ev" by (simp add: armed_def busy_counts_def)
  have "\<forall>ev\<in>set evs. requested_period ev = 3"
    using evs(1) by (auto simp: grid_def plans_def opened_for_def list_all2_Cons1)
  then have periods: "\<forall>ev\<in>set evs. as_requested ev"
    using evs(2) busy_delivered by (simp add: as_requested_def busy_sample_def)
  have "dedicated (rings_of 1 evs i)" if i: "i < 2" for i
  proof -
    obtain ev where ev: "rings_of 1 evs i = [ev]"
      using rings_of_length [OF len i] by (cases "rings_of 1 evs i") auto
    then have "ev \<in> set evs" using rings_of_subset [of 1 evs i] by simp
    with counts ev show ?thesis by (simp add: dedicated_def to_double_def busy_counts_def)
  qed
  then obtain rep where "analyse 1 [3, 3] busy_target busy_dw (evs, iter, code) = Inr (rep, code)"
    using analyse_accepts [OF _ len, of "[3, 3]" busy_target busy_dw iter code] armed periods by auto
  then show ?thesis
    using m n busy_target_range c
    by (simp add: session_def cli profile_def busy_dwarf and_then_def call_def pure_def busy_began_def)
qed

lemma busy_session: "\<exists>rep code h'. session busy_env busy_argv busy_kernel [] = Some (Inr (rep, code), h')"
  by (rule busy_session_from [OF busy_cli]) (simp add: choose_periods_def return_def)

lemma busy_n: "r_ret (busy_kernel [] Nprocessors_Online) = int 1"
  by (simp add: busy_kernel_def)

lemma busy_cooperates_1: "0 < child \<Longrightarrow> cooperates busy_kernel child 1 busy_stream (1 * 2)"
  using busy_cooperates by simp

lemma busy_calibration:
  "\<exists>h1. choose_periods None [''./a''] busy_kernel busy_began = Some (Inr [3, 3], h1) \<and> forks h1 = 1"
proof -
  have prime: "nearest_prime 3 = Some 3"
    by (simp add: nearest_prime_def Let_def nearest_loop.simps is_prime_def is_prime_loop.simps)
  have counts: "double_of 16 = 16" "double_of 1000000000 = 1000000000"
    by (simp_all add: double_of_def fl_numerals)
  have usable: "\<not> 1 < fl (99 / 100)" using fl_le_1 [of "99 / 100"] by simp
  show ?thesis
    by (simp add: choose_periods_def and_then_def call_def waiting_call_def return_def read_max_rate_def calibrate_both_def
        fork_stop_exec_def open_plan_def open_counting_def perf_event_open_def reap_def read_calibration_def plans_def
        calibrated_period_def pure_def busy_kernel_def busy_counts_def busy_began_def no_reply_def sizeof_counts_def WIFSTOPPED_def
        forks_def counts fl_numerals usable quiet_period [simplified] prime)
qed

lemma busy_waits: "waits_return busy_kernel"
proof -
  have "\<not> r_blocks (busy_kernel h (Waitpid pid mode))" for h pid mode
    by (cases mode) (simp_all add: busy_kernel_def)
  then show ?thesis by (simp add: waits_return_def)
qed

section \<open>How a session ends\<close>

text \<open>
  The ends of which something is promised: all but that the process became the target, and
  undefined behaviour.
\<close>

definition reported_end :: "(int \<Rightarrow> string) \<Rightarrow> stop \<Rightarrow> bool" where
  "reported_end strerror e \<longleftrightarrow>
     (\<exists>status text. exit_status (Inl e) = Some status \<and> status \<noteq> 0 \<and> stop_text strerror e = Some text \<and> text \<noteq> [])"

definition nonzero_end :: "(int \<Rightarrow> string) \<Rightarrow> stop \<Rightarrow> bool" where
  "nonzero_end strerror e \<longleftrightarrow> e = Fatal Undefined_Behaviour \<or> (\<exists>argv. e = Became_Target argv) \<or> reported_end strerror e"

lemma nonzero_fatal [simp]: "nonzero_end strerror (Fatal f)"
  by (cases f) (simp_all add: nonzero_end_def reported_end_def exit_status_def fatal_exit_code_def)

lemma nonzero_ends [simp]:
  "nonzero_end strerror (Multiplexed l x m)" "nonzero_end strerror (Period_Mismatch l a b)"
  "nonzero_end strerror (Became_Target argv)" "nonzero_end strerror (Usage w n) \<longleftrightarrow> n \<noteq> 0"
  "nonzero_end strerror (Never_Armed l n) \<longleftrightarrow> n \<noteq> 0"
  "nonzero_end strerror (Child_Exit (Some (what, errno)) n) \<longleftrightarrow> n \<noteq> 0"
  by (simp_all add: nonzero_end_def reported_end_def exit_status_def)

lemma analyse_ends: "analyse n periods target dw x = Inl e \<Longrightarrow> nonzero_end strerror e"
  by (auto simp: analyse_def Let_def split: prod.splits option.splits if_splits)

lemma ends_drain_event: "ends_in (nonzero_end strerror) (drain_event label ev)"
  unfolding drain_event_def by (auto simp: map_sum_def intro!: ends_rules split: sum.splits)

lemma ends_open_cell: "ends_in (nonzero_end strerror) (open_cell child cell)"
  by (cases cell, cases "fst cell")
    (auto simp: open_cell_def open_sampling_def perf_event_open_def diagnose_perf_open_failure_def intro!: ends_rules)

lemma ends_drain_if_ready: "ends_in (nonzero_end strerror) (drain_if_ready x)"
  by (cases x, cases "fst x") (auto simp: drain_if_ready_def intro!: ends_rules ends_drain_event)

lemma ends_poll_round: "ends_in (nonzero_end strerror) (poll_round lbls child s)"
  unfolding poll_round_def drain_round_def note_drain_time_def
  by (intro ends_rules ends_drain_if_ready) simp_all

lemma ends_measure_target: "ends_in (nonzero_end strerror) (measure_target n sps argv)"
  unfolding measure_target_def start_target_def fork_stop_exec_def child_side_def watch_target_def finish_sampling_def
  by (intro ends_rules ends_drain_event ends_open_cell ends_poll_round) simp_all

lemma ends_choose_periods: "ends_in (nonzero_end strerror) (choose_periods override argv)"
  unfolding choose_periods_def read_max_rate_def calibrate_both_def fork_stop_exec_def child_side_def
    open_plan_def open_counting_def perf_event_open_def reap_def read_calibration_def calibrated_period_def diagnose_perf_open_failure_def
  by (intro ends_rules) auto

lemma usage_is_2: "parse_args argv = Usage_Error w n \<Longrightarrow> n = 2"
  by (auto simp: parse_args_def parse_target_def Let_def split: if_splits prod.splits)

lemma ends_session: "ends_in (nonzero_end strerror) (session env argv)"
proof (cases "parse_args argv")
  case (Usage_Error w n)
  then show ?thesis using usage_is_2 [OF Usage_Error] by (simp add: session_def ends_basic)
next
  case (Profile override cmd)
  have "ends_in (nonzero_end strerror) (profile env override cmd)"
    unfolding profile_def
    by (intro ends_rules ends_choose_periods ends_measure_target) (auto dest: analyse_ends)
  then show ?thesis by (simp add: session_def Profile)
qed

section \<open>The counts of the measurement\<close>

text \<open>The last counts read in a session: those of the measurement, for two events on \<open>n\<close> CPUs.\<close>

definition measured_counts :: "nat \<Rightarrow> history \<Rightarrow> count_read_format list" where
  "measured_counts n t = (let counts = trace_of counts_read t in drop (length counts - 2 * n) counts)"

lemma measured_counts_last:
  assumes "choose_periods override cmd k (h @ [x]) = Some (r, h1)" "h @ t = h1 @ t2"
    and "length (trace_of counts_read t2) = 2 * n"
  shows "measured_counts n t = trace_of counts_read t2"
proof -
  obtain t1 where "h1 = (h @ [x]) @ t1" using doesD [OF choose_periods_do assms(1)] by blast
  with assms(2) have "t = [x] @ t1 @ t2" by simp
  with assms(3) show ?thesis by (simp add: measured_counts_def)
qed

lemma measured_cpus:
  assumes "rings_of_cells (grid n (zip plans periods)) evs t" "length periods = 2" "i < 2"
  shows "\<forall>c<length (rings_of n evs i). ev_cpu (rings_of n evs i ! c) = int c"
proof (intro allI impI)
  fix c assume c: "c < length (rings_of n evs i)"
  have opened: "list_all2 opened_for (grid n (zip plans periods)) evs" using assms(1) by (simp add: rings_of_cells_def)
  have len: "length evs = n * 2"
    using rings_of_cells_length [OF assms(1)] length_measured_grid [OF assms(2)] by simp
  then have n: "c < n" using c rings_of_length [OF len assms(3)] by simp
  obtain p q where pq: "periods = [p, q]" using assms(2) by (auto simp: length_Suc_conv numeral_2_eq_2)
  have idx: "i * n + c < n * 2" using n assms(3) by (auto simp: less_2_cases_iff)
  have cell: "snd (grid n (zip plans periods) ! (i * n + c)) = c"
    using n assms(3) by (auto simp: grid_def plans_def pq less_2_cases_iff nth_append)
  have ring: "rings_of n evs i ! c = evs ! (i * n + c)"
    using n nth_drop [of "i * n" evs c] idx len add_leD1 [OF less_imp_le [OF idx]] by (simp add: rings_of_def)
  have "opened_for (grid n (zip plans periods) ! (i * n + c)) (evs ! (i * n + c))"
    using list_all2_nthD2 [OF opened] idx len by simp
  then show "ev_cpu (rings_of n evs i ! c) = int c"
    unfolding ring using cell by (cases "grid n (zip plans periods) ! (i * n + c)") (auto simp: opened_for_def)
qed

section \<open>Properties\<close>

text \<open>
  C1: End to end, with calibration or with a given period: on a kernel with at least
  one CPU that serves the rings of the measured process, whose target exits, main
  returns (with calibration: if the waits for the calibration process return). It
  reports, unless the calibration stops it, a ring was throttled (the message names a
  ring with a throttle record) or the analysis refuses the run. In a report the rings
  are those of one sampling event per event and CPU, with the reported periods; none
  was throttled; sites, buckets, totals and losses of each event are those of the
  records the kernel wrote to its rings; the exit code is that of the target.
\<close>

theorem session_reports_what_was_sampled:
  assumes "parse_args argv = Profile override cmd"
    and "get_target_text_range (read_file env) (hd cmd) = Some target" "dwarf_init env (hd cmd) = Some dw"
    and "r_ret (k [] Nprocessors_Online) = int n" "0 < n" "cooperates k child limit rs (n * 2)"
    and "\<And>periods h1. choose_periods override cmd k [(Nprocessors_Online, k [] Nprocessors_Online)] = Some (Inr periods, h1) \<Longrightarrow>
      r_ret (k h1 Fork) = child"
    and "override = None \<Longrightarrow> waits_return k"
  shows "\<exists>r h'. session env argv k [] = Some (r, h') \<and>
    (case r of
       Inr (rep, code) \<Rightarrow> faithful override n target dw rs child rep code h'
     | Inl e \<Rightarrow> refused e \<or> (\<exists>p q. throttled_run rs (labels n (zip plans [p, q])) h' e) \<or>
         (\<exists>h1. choose_periods override cmd k [(Nprocessors_Online, k [] Nprocessors_Online)] = Some (Inl e, h1)))"
proof -
  let ?h = "[(Nprocessors_Online, k [] Nprocessors_Online)]"
  obtain r1 h1 where c: "choose_periods override cmd k ?h = Some (r1, h1)"
  proof (cases override)
    case None
    then have "outcome False k (choose_periods override cmd) ?h (\<lambda>_ _. True)"
      using choose_periods_outcome [of k cmd ?h] assms(8) by (auto elim: outcome_mono)
    then show thesis using outcome_returns that by blast
  qed (auto simp: choose_periods_def return_def that)
  have unfolded: "session env argv k [] = and_then (choose_periods override cmd) (\<lambda>periods.
      and_then (measure_target n (zip plans periods) cmd) (\<lambda>measured.
        pure (Some (analyse n periods target dw measured)))) k ?h"
    using assms(1-5) by (simp add: session_def profile_def and_then_def [of "call c" for c] call_def)
  show ?thesis
  proof (cases r1)
    case (Inl e)
    with c show ?thesis unfolding unfolded by (simp add: and_then_def)
  next
    case (Inr periods)
    obtain p q where pq: "periods = [p, q]" "override \<in> {None, Some p}"
      using choose_periods_two [OF c [unfolded Inr]] by blast
    have h1: "no_rings h1" "trace_of sampling_opened h1 = []"
      using choose_periods_opens_nothing [OF c] by (simp_all add: no_rings_def ring_mapped_def sampling_opened_def)
    have fork: "r_ret (k h1 Fork) = child" using assms(7) c Inr by blast
    have coop: "cooperates k child limit rs (length (grid n (zip plans [p, q])))"
      using assms(6) by (simp only: length_measured_grid list.size)
    obtain r2 h2 where m: "measure_target n (zip plans [p, q]) cmd k h1 = Some (r2, h2)"
      "run_result rs child n (zip plans [p, q]) r2 h2"
      using outcome_returns [OF measure_target_outcome [OF coop h1(1) fork, of cmd]] by blast
    show ?thesis
    proof (cases r2)
      case (Inl e)
      then show ?thesis unfolding unfolded using c \<open>r1 = Inr periods\<close> m pq(1)
        by (auto simp: and_then_def run_result_def)
    next
      case (Inr measured)
      obtain evs iter code where x: "measured = (evs, iter, code)" by (cases measured)
      have run: "session env argv k [] = Some (analyse n [p, q] target dw (evs, iter, code), h2)"
        unfolding unfolded using c \<open>r1 = Inr periods\<close> Inr x m pq(1) by (simp add: and_then_def pure_def)
      have "faithful override n target dw rs child
          (make_report plans [p, q] target dw (map (rings_of n evs) [0..<2]) iter) code h2"
        by (rule measured_faithful [OF m(1) [unfolded Inr x] assms(6) h1 assms(5) fork pq(2)])
      with run show ?thesis
        by (auto dest: analyse_refuses analyse_report split: sum.splits)
    qed
  qed
qed

theorem session_reports_what_was_sampled_witness:
  "\<exists>rep code h'. session busy_env calibrated_argv busy_kernel [] = Some (Inr (rep, code), h') \<and>
    faithful None 1 busy_target busy_dw busy_stream 8 rep code h'"
proof -
  obtain h1 where h1: "choose_periods None [''./a''] busy_kernel busy_began = Some (Inr [3, 3], h1)" "forks h1 = 1"
    using busy_calibration by blast
  have fork: "r_ret (busy_kernel h1 Fork) = 8" using h1(2) by (simp add: busy_kernel_def no_reply_def)
  obtain rep code h' where run: "session busy_env calibrated_argv busy_kernel [] = Some (Inr (rep, code), h')"
    using busy_session_from [OF calibrated_cli h1(1)] by blast
  have target: "get_target_text_range (read_file busy_env) (hd [''./a'']) = Some busy_target"
    using busy_target_range by simp
  have "\<exists>r h'. session busy_env calibrated_argv busy_kernel [] = Some (r, h') \<and>
    (case r of
       Inr (rep, code) \<Rightarrow> faithful None 1 busy_target busy_dw busy_stream 8 rep code h'
     | Inl e \<Rightarrow> refused e \<or> (\<exists>p q. throttled_run busy_stream (labels 1 (zip plans [p, q])) h' e) \<or>
         (\<exists>h1. choose_periods None [''./a''] busy_kernel [(Nprocessors_Online, busy_kernel [] Nprocessors_Online)] = Some (Inl e, h1)))"
    by (rule session_reports_what_was_sampled [OF calibrated_cli target busy_dwarf busy_n _ busy_cooperates_1])
      (use h1 fork busy_waits in \<open>simp_all add: busy_began_def\<close>)
  with run show ?thesis by auto
qed

text \<open>
  C9: On every kernel, in every report the two events come in order, the four buckets
  of an event add up to its printed sample total and attributed and unattributed to its
  target bucket. The per-CPU lines are exactly those of the CPUs on which the event had
  scheduled time, in order, each with the CPU's number and the value and running
  fraction that the last read of that CPU's ring returned; their number is the printed
  one, and the aggregate is the sum of these values over all CPUs.
\<close>

theorem report_adds_up:
  assumes "session env argv k h = Some (Inr (rep, code), h @ t)"
  shows "let n = nat (r_ret (k h Nprocessors_Online)); counts = measured_counts n t in
    map er_label (rp_events rep) = [''miss'', ''access''] \<and>
    (\<forall>er\<in>set (rp_events rep). adds_up n er) \<and>
    list_all2 reports_counts [take n counts, drop n counts] (rp_events rep)"
  using assms
proof (rule session_steps)
  fix override cmd n target dw periods evs iter h1
  assume n: "n = nat (r_ret (k h Nprocessors_Online))"
    and c: "choose_periods override cmd k (h @ [(Nprocessors_Online, k h Nprocessors_Online)]) = Some (Inr periods, h1)"
    and m: "measure_target n (zip plans periods) cmd k h1 = Some (Inr (evs, iter, code), h @ t)"
    and rep: "rep = make_report plans periods target dw (map (rings_of n evs) [0..<2]) iter"
  obtain t2 where t2: "h @ t = h1 @ t2" "rings_of_cells (grid n (zip plans periods)) evs t2"
    using doesD [OF measure_target_rings m] by blast
  have len: "length evs = n * 2"
    using rings_of_cells_length [OF t2(2)] length_measured_grid [OF choose_periods_length [OF c]] by simp
  have ok: "\<forall>ev\<in>set evs. hist_ok (ev_ring ev)" using doesD [OF histogram.measured m] by auto
  have counts: "measured_counts n t = map ev_counts evs"
    using measured_counts_last [OF c t2(1)] t2(2) len by (simp add: rings_of_cells_def)
  have rings: "rings_of n evs 0 = take n evs" "rings_of n evs 1 = drop n evs"
    using len by (simp_all add: rings_of_def)
  have cpus: "\<forall>c<length (rings_of n evs i). ev_cpu (rings_of n evs i ! c) = int c" if "i < 2" for i
    using measured_cpus [OF t2(2) choose_periods_length [OF c]] that by blast
  have "adds_up n (print_event_report l (rings_of n evs i)
      (classify_and_attribute (combined_samples (rings_of n evs i)) target dw))" if "i < 2" for l i
    using print_event_report_adds_up [of "rings_of n evs i"] rings_of_length [OF len that] ok rings_of_subset [of n evs i]
    by (metis subsetD)
  moreover have "reports_counts (map ev_counts (rings_of n evs i)) (print_event_report l (rings_of n evs i) a)"
    if "i < 2" for l i a
    by (rule print_event_report_counts [OF cpus [OF that]])
  ultimately show ?thesis
    unfolding rep n [symmetric] Let_def counts take_map drop_map rings [symmetric]
    by (simp add: report_events plans_def upt_rec) (simp add: print_event_report_def Let_def)
qed

theorem report_adds_up_witness:
  "\<exists>rep code t. session busy_env calibrated_argv busy_kernel [] = Some (Inr (rep, code), [] @ t) \<and>
    (\<forall>er\<in>set (rp_events rep). adds_up 1 er) \<and>
    list_all2 reports_counts [take 1 (measured_counts 1 t), drop 1 (measured_counts 1 t)] (rp_events rep)"
proof -
  obtain rep code t where run: "session busy_env calibrated_argv busy_kernel [] = Some (Inr (rep, code), [] @ t)"
    using busy_calibration busy_session_from [OF calibrated_cli] by (metis append_Nil)
  with report_adds_up [OF run] busy_n show ?thesis by (simp add: Let_def)
qed

text \<open>
  C10: On every kernel, a session that reports has closed every perf descriptor it
  opened, those of the calibration included, and unmapped every ring it mapped, in the
  order of acquisition.
\<close>

theorem session_closes_what_it_opens:
  assumes "session env argv k h = Some (Inr x, h @ t)"
  shows "trace_of fd_closed t = trace_of fd_opened t \<and> trace_of ring_unmapped t = trace_of ring_mapped t"
  using session_paired [OF assms] by (simp add: paired_def)

theorem session_closes_what_it_opens_witness:
  "\<exists>x t. session busy_env busy_argv busy_kernel [] = Some (Inr x, [] @ t) \<and>
    trace_of fd_closed t = trace_of fd_opened t \<and> trace_of ring_unmapped t = trace_of ring_mapped t"
proof -
  obtain x t where run: "session busy_env busy_argv busy_kernel [] = Some (Inr x, [] @ t)"
    using busy_session by auto
  from session_closes_what_it_opens [OF run] run show ?thesis by blast
qed

text \<open>
  C11: On every kernel, when a session ends without a report, the process has become
  the target (on the child's side of fork), or the run was undefined in C++ (a read
  outside the ring, a period out of the range of uint64_t), or it has written a message
  that is not empty to stderr and its exit status is not 0, whichever call failed and
  on either side of fork.
\<close>

theorem early_exit_is_nonzero:
  assumes "session env argv k h = Some (Inl e, h')"
  shows "(\<exists>argv. e = Became_Target argv) \<or> e = Fatal Undefined_Behaviour \<or>
    (\<exists>status text. exit_status (Inl e) = Some status \<and> status \<noteq> 0 \<and>
       stop_text strerror e = Some text \<and> text \<noteq> [])"
  using ends_session [of strerror env argv] assms unfolding ends_in_def nonzero_end_def reported_end_def by blast

theorem early_exit_is_nonzero_witness:
  "\<exists>status text.
     exit_status (Inl (Usage ''usage: cachelens [--period N] -- <command> [args...]'' 2) :: stop + report \<times> int) = Some status \<and>
     status \<noteq> 0 \<and>
     stop_text (\<lambda>_. ''?'') (Usage ''usage: cachelens [--period N] -- <command> [args...]'' 2) = Some text \<and> text \<noteq> []"
proof -
  have "session busy_env [''cachelens'', ''./a''] busy_kernel [] =
      Some (Inl (Usage ''usage: cachelens [--period N] -- <command> [args...]'' 2), [])"
    by (simp add: session_def parse_args_def parse_target_def stop_with_def)
  from early_exit_is_nonzero [OF this, of "\<lambda>_. ''?''"] show ?thesis by blast
qed

text \<open>
  C12: On every kernel, a measurement that returns has exactly one ring per event and
  CPU, event by event and CPU by CPU: the i-th ring has the CPU and the period of the
  i-th cell of the grid, its descriptor is that of the i-th perf event opened, which is
  the sampling event of that cell on the child, it is mapped from that descriptor, and
  its counts are the i-th that were read, from that descriptor; its sample counter is
  the number of its samples.
\<close>

theorem measured_rings_well_formed:
  assumes "measure_target nr_cpus sps argv k h = Some (Inr (evs, iter, code), h @ t)"
  shows "length evs = length sps * nr_cpus \<and> list_all2 opened_for (grid nr_cpus sps) evs \<and>
    (\<exists>child. trace_of event_opened t = map (planned child) (grid nr_cpus sps)) \<and>
    trace_of fd_opened t = map ev_fd evs \<and>
    trace_of ring_backed t = map (\<lambda>ev. (ev_fd ev, mmap_base ev)) evs \<and>
    trace_of fd_read t = map ev_fd evs \<and> trace_of counts_read t = map ev_counts evs \<and>
    (\<forall>ev\<in>set evs. h_sample (d_hist (ev_ring ev)) = word_of_nat (length (d_samples (ev_ring ev))))"
proof -
  have r: "rings_of_cells (grid nr_cpus sps) evs t" using doesD [OF measure_target_rings assms] by auto
  moreover have "length evs = length sps * nr_cpus" using rings_of_cells_length [OF r] by (simp add: grid_def)
  moreover have "\<forall>ev\<in>set evs. h_sample (d_hist (ev_ring ev)) = word_of_nat (length (d_samples (ev_ring ev)))"
    using doesD [OF histogram.measured assms] by (auto simp: hist_ok_def)
  ultimately show ?thesis by (simp add: rings_of_cells_def)
qed

theorem measured_rings_well_formed_witness:
  "\<exists>evs iter code t. measure_target 1 busy_plans [''./a''] busy_kernel [] = Some (Inr (evs, iter, code), [] @ t) \<and>
    length evs = length busy_plans * 1 \<and> list_all2 opened_for (grid 1 busy_plans) evs \<and>
    trace_of fd_opened t = map ev_fd evs \<and>
    (\<forall>ev\<in>set evs. h_sample (d_hist (ev_ring ev)) = word_of_nat (length (d_samples (ev_ring ev))))"
proof -
  obtain x t where run: "measure_target 1 busy_plans [''./a''] busy_kernel [] = Some (Inr x, [] @ t)"
    using busy_run by (metis append_assoc)
  obtain evs iter code where x: "x = (evs, iter, code)" by (cases x)
  from measured_rings_well_formed [OF run [unfolded x]] run x show ?thesis by blast
qed

end
