(* ===== verification/Probe_Percpu_Open.thy ===== *)
theory Probe_Percpu_Open
  imports Event_Lifecycle
begin

text \<open>
  The probe \<open>probes/p1_percpu_open.c\<close>: can a sampling event of the process itself be opened
  and mapped on every online CPU. A line of its output is a value of \<open>p1_line\<close>, with the CPU it
  names and, where a call failed, its errno.
\<close>

section \<open>The code\<close>

datatype p1_line = P1_Open_Failed int int | P1_Mmap_Failed int int | P1_Ok int

definition p1_ok :: "p1_line \<Rightarrow> bool" where
  "p1_ok line = (case line of P1_Ok _ \<Rightarrow> True | _ \<Rightarrow> False)"

definition p1_attr :: perf_attr where
  "p1_attr = zero_attr\<lparr>at_type := PERF_TYPE_HARDWARE, at_config := PERF_COUNT_HW_CACHE_MISSES, at_disabled := True,
     at_exclude_kernel := True, at_exclude_hv := True,
     at_sample_type := or (or PERF_SAMPLE_IP PERF_SAMPLE_TID) PERF_SAMPLE_PERIOD, at_sample_period := 10000\<rparr>"

text \<open>One iteration of the loop over the CPUs.\<close>

definition p1_cpu :: "u64 \<Rightarrow> int \<Rightarrow> p1_line run" where
  "p1_cpu page_size cpu =
     and_then (call Getpid) (\<lambda>pid.
       and_then (perf_event_open p1_attr (r_ret pid) cpu (-1) 0) (\<lambda>f.
         if r_ret f < 0 then return (P1_Open_Failed cpu (r_errno f))
         else (let mmap_len = (1 + 1) * page_size in
           and_then (call (Mmap (r_ret f) mmap_len)) (\<lambda>m.
             if r_base m = MAP_FAILED
             then and_then (call (Close (r_ret f))) (\<lambda>_. return (P1_Mmap_Failed cpu (r_errno m)))
             else and_then (call (Munmap (r_base m) mmap_len)) (\<lambda>_.
               and_then (call (Close (r_ret f))) (\<lambda>_. return (P1_Ok cpu)))))))"

definition perf_event_paranoid_file :: string where
  "perf_event_paranoid_file = ''/proc/sys/kernel/perf_event_paranoid''"

text \<open>\<open>-999\<close> where the level cannot be read.\<close>

definition read_paranoid :: "int run" where
  "read_paranoid =
     and_then (call (Fopen perf_event_paranoid_file)) (\<lambda>pf.
       if r_ret pf = 0 then return (-999)
       else and_then (call Fscanf_Int) (\<lambda>got.
         and_then (call Fclose) (\<lambda>_. return (if r_ret got \<noteq> 1 then -999 else r_value got))))"

definition p1_status :: "p1_line list \<Rightarrow> int" where
  "p1_status lines = (if list_all p1_ok lines then 0 else 1)"

text \<open>The level, the line of each CPU and the exit status.\<close>

definition p1_main :: "(int \<times> p1_line list \<times> int) run" where
  "p1_main =
     and_then (call Nprocessors_Online) (\<lambda>nproc.
       if r_ret nproc \<le> 0 then return (-999, [], 1)
       else and_then (call Page_Size) (\<lambda>page.
         and_then read_paranoid (\<lambda>paranoid.
           and_then (for_each (\<lambda>cpu. p1_cpu (word_of_int (r_ret page)) (int cpu)) [0..<nat (r_ret nproc)]) (\<lambda>lines.
             return (paranoid, lines, p1_status lines)))))"

section \<open>What it does\<close>

text \<open>
  The line of a CPU, and the calls behind it: it names this CPU, and it says what the calls
  for this CPU did. What was opened is closed, what was mapped is unmapped.
\<close>

definition cpu_probed :: "nat \<Rightarrow> p1_line \<Rightarrow> history \<Rightarrow> bool" where
  "cpu_probed cpu line u \<longleftrightarrow>
     (\<exists>pid opened rest. u = (Getpid, pid) # (Perf_Event_Open p1_attr (r_ret pid) (int cpu) (-1) 0, opened) # rest \<and>
       (case line of
          P1_Open_Failed c errno \<Rightarrow> c = int cpu \<and> r_ret opened < 0 \<and> errno = r_errno opened \<and> rest = []
        | P1_Mmap_Failed c errno \<Rightarrow> c = int cpu \<and> 0 \<le> r_ret opened \<and>
            (\<exists>len m x. rest = [(Mmap (r_ret opened) len, m), (Close (r_ret opened), x)] \<and>
               r_base m = MAP_FAILED \<and> errno = r_errno m)
        | P1_Ok c \<Rightarrow> c = int cpu \<and> 0 \<le> r_ret opened \<and>
            (\<exists>len m x y. rest = [(Mmap (r_ret opened) len, m), (Munmap (r_base m) len, x), (Close (r_ret opened), y)] \<and>
               r_base m \<noteq> MAP_FAILED)))"

text \<open>One group of calls per CPU and line, in order.\<close>

fun p1_probed :: "nat list \<Rightarrow> p1_line list \<Rightarrow> history \<Rightarrow> bool" where
  "p1_probed [] [] t \<longleftrightarrow> t = []"
| "p1_probed (cpu # cpus) (l # ls) t \<longleftrightarrow> (\<exists>u t'. t = u @ t' \<and> cpu_probed cpu l u \<and> p1_probed cpus ls t')"
| "p1_probed _ _ t \<longleftrightarrow> False"

lemma p1_cpu_does: "does k (p1_cpu page (int cpu)) (\<lambda>r t. \<exists>l. r = Inr l \<and> cpu_probed cpu l t)"
  unfolding p1_cpu_def perf_event_open_def
  by (intro does_rules) (auto simp: cpu_probed_def)

lemma p1_cpus_do:
  "does k (for_each (\<lambda>cpu. p1_cpu page (int cpu)) cpus) (\<lambda>r t. \<exists>ls. r = Inr ls \<and> p1_probed cpus ls t)"
proof (induction cpus)
  case (Cons cpu cpus)
  show ?case unfolding for_each.simps
    by (rule does_and_then [OF p1_cpu_does], simp, elim exE conjE, simp only: sum.inject, rule does_and_then [OF Cons.IH])
      (auto intro!: does_return, blast)
qed (auto intro!: does_rules)

lemma p1_main_returns: "outcome False k p1_main h (\<lambda>r h'. \<exists>x. r = Inr x \<and> True)"
proof -
  have loop: "outcome False k (for_each (\<lambda>cpu. p1_cpu page (int cpu)) cpus) h (\<lambda>r h'. \<exists>x. r = Inr x \<and> True)" for page cpus h
  proof (induction cpus arbitrary: h)
    case (Cons cpu cpus)
    have one: "outcome False k (p1_cpu page (int cpu)) h (\<lambda>r h'. \<exists>x. r = Inr x \<and> True)"
      by (simp add: p1_cpu_def perf_event_open_def run_rules Let_def)
    show ?case unfolding for_each.simps
      by (rule outcome_then_succeeds [OF one], rule outcome_then_succeeds [OF Cons.IH]) (simp add: outcome_return)
  qed (simp add: run_rules)
  have paranoid: "outcome False k read_paranoid h (\<lambda>r h'. \<exists>x. r = Inr x \<and> True)" for h
    by (simp add: read_paranoid_def run_rules)
  have call: "outcome False k (call c) h (\<lambda>r h'. \<exists>x. r = Inr x \<and> True)" for c h
    by (simp add: outcome_call)
  show ?thesis unfolding p1_main_def
    by (rule outcome_then_succeeds [OF call], simp only: outcome_if outcome_return, rule if_bool_eq_conj [THEN iffD2],
        intro conjI impI, simp, rule outcome_then_succeeds [OF call], rule outcome_then_succeeds [OF paranoid],
        rule outcome_then_succeeds [OF loop]) (simp add: outcome_return)
qed

text \<open>
  What the whole run has done and returned: the number of CPUs is asked for, then calls that
  concern no event, then those for each CPU.
\<close>

definition p1_result :: "int \<times> p1_line list \<times> int \<Rightarrow> history \<Rightarrow> bool" where
  "p1_result x t \<longleftrightarrow> (\<exists>nproc before probes. t = (Nprocessors_Online, nproc) # before @ probes \<and> only_drains before \<and>
     (let (paranoid, lines, status) = x; n = nat (r_ret nproc) in
       p1_probed [0..<n] lines probes \<and>
       status = (if 0 < n \<and> (\<forall>l\<in>set lines. p1_ok l) then 0 else 1)))"

lemma p1_main_does: "does k p1_main (\<lambda>r t. \<exists>x. r = Inr x \<and> p1_result x t)"
proof -
  have paranoid: "does k read_paranoid (\<lambda>r t. only_drains t \<and> (\<exists>p. r = Inr p))"
    unfolding read_paranoid_def by (auto intro!: does_rules)
  have body: "does k (and_then (call Page_Size) (\<lambda>page.
         and_then read_paranoid (\<lambda>paranoid.
           and_then (for_each (\<lambda>cpu. p1_cpu (word_of_int (r_ret page)) (int cpu)) [0..<n]) (\<lambda>lines.
             return (paranoid, lines, p1_status lines)))))
      (\<lambda>r t. \<exists>p ls before probes. r = Inr (p, ls, p1_status ls) \<and> t = before @ probes \<and> only_drains before \<and>
         p1_probed [0..<n] ls probes)" for n
  proof (rule does_call_then, rule does_and_then [OF paranoid], simp, elim conjE exE, simp only: sum.inject,
      rule does_and_then [OF p1_cpus_do], simp, elim conjE exE, simp only: sum.inject, rule does_return)
    fix page and t u :: history and p ls assume "only_drains t" "p1_probed [0..<n] ls u"
    then show "\<exists>p' ls' before probes. Inr (p, ls, p1_status ls) = Inr (p', ls', p1_status ls') \<and>
        (Page_Size, page) # t @ u @ [] = before @ probes \<and> only_drains before \<and> p1_probed [0..<n] ls' probes"
      by (intro exI [of _ p] exI [of _ ls] exI [of _ "(Page_Size, page) # t"] exI [of _ u]) simp
  qed
  show ?thesis unfolding p1_main_def
  proof (rule does_call_then, rule does_if)
    fix nproc :: reply assume "r_ret nproc \<le> 0"
    then show "does k (return (-999, [], 1)) (\<lambda>r t. \<exists>x. r = Inr x \<and> p1_result x ((Nprocessors_Online, nproc) # t))"
      by (auto simp: p1_result_def intro!: does_return)
  next
    fix nproc :: reply assume "\<not> r_ret nproc \<le> 0"
    then show "does k (and_then (call Page_Size) (\<lambda>page.
         and_then read_paranoid (\<lambda>paranoid.
           and_then (for_each (\<lambda>cpu. p1_cpu (word_of_int (r_ret page)) (int cpu)) [0..<nat (r_ret nproc)]) (\<lambda>lines.
             return (paranoid, lines, p1_status lines)))))
        (\<lambda>r t. \<exists>x. r = Inr x \<and> p1_result x ((Nprocessors_Online, nproc) # t))"
      by (intro does_mono [OF body]) (fastforce simp: p1_result_def p1_status_def list_all_iff)
  qed
qed

section \<open>Properties\<close>

text \<open>
  C38: On every kernel the probe returns. Its calls are, for each CPU from 0 on, once
  and in order, one open on that CPU and what follows from it; the line printed for
  that CPU names it and says what happened: the open failed, the mapping failed, or
  both worked, in which case the ring was mapped and unmapped; in each case what was
  opened is closed. The status is 0 exactly if there are CPUs and all lines are
  successes.
\<close>

theorem p1_probes_every_cpu:
  "\<exists>x t. p1_main k h = Some (Inr x, h @ t) \<and> p1_result x t"
proof -
  obtain x h' where run: "p1_main k h = Some (Inr x, h')"
    using outcome_returns [OF p1_main_returns [of k h]] by auto
  from doesD [OF p1_main_does run] run show ?thesis by auto
qed

end
