(* ===== verification/Probe_Enable_On_Exec.thy ===== *)
theory Probe_Enable_On_Exec
  imports Event_Lifecycle Calibration
begin

text \<open>
  The probe \<open>probes/p2_enable_on_exec.c\<close> and its victim \<open>probes/p2_victim.c\<close>: does a
  per-CPU event arm exactly at \<open>execve\<close>. A case that could open its event returns its
  counts and verdict. Both sides of \<open>fork\<close> are modelled, as in the profiler.
\<close>

section \<open>The code\<close>

definition p2_attr :: perf_attr where
  "p2_attr = zero_attr\<lparr>at_type := PERF_TYPE_HARDWARE, at_config := PERF_COUNT_HW_CACHE_MISSES, at_disabled := True,
     at_enable_on_exec := True, at_exclude_kernel := True, at_exclude_hv := True,
     at_read_format := or PERF_FORMAT_TOTAL_TIME_ENABLED PERF_FORMAT_TOTAL_TIME_RUNNING\<rparr>"

text \<open>The parent's wait for the child to stop, in both fork functions.\<close>

definition await_stop :: "int \<Rightarrow> int run" where
  "await_stop child =
     and_then (waiting_call (Waitpid child Untraced)) (\<lambda>w.
       if r_ret w < 0 then die_errno ''waitpid(stop)'' w
       else if \<not> WIFSTOPPED (r_status w) then die ''child did not stop''
       else return child)"

definition fork_stop :: "int run" where
  "fork_stop =
     and_then (call Fork) (\<lambda>f.
       if r_ret f < 0 then die_errno ''fork'' f
       else if r_ret f = 0 then
         and_then (call Raise_Sigstop) (\<lambda>s.
           if r_ret s \<noteq> 0 then stop_with (Child_Exit (Some (''raise(SIGSTOP)'', r_errno s)) 1)
           else stop_with (Child_Exit None 0))
       else await_stop (r_ret f))"

definition fork_stop_exec_victim :: "string \<Rightarrow> int \<Rightarrow> int run" where
  "fork_stop_exec_victim victim_path cpu =
     and_then (call Fork) (\<lambda>f.
       if r_ret f < 0 then die_errno ''fork'' f
       else if r_ret f = 0 then
         and_then (call (Sched_Setaffinity cpu)) (\<lambda>a.
           if r_ret a \<noteq> 0 then stop_with (Child_Exit (Some (''sched_setaffinity'', r_errno a)) 1)
           else and_then (call Raise_Sigstop) (\<lambda>s.
             if r_ret s \<noteq> 0 then stop_with (Child_Exit (Some (''raise(SIGSTOP)'', r_errno s)) 1)
             else and_then (call (Execl victim_path)) (\<lambda>e.
               if r_ret e = -1 then stop_with (Child_Exit (Some (''execl'', r_errno e)) 127)
               else stop_with (Became_Target [victim_path]))))
       else await_stop (r_ret f))"

definition open_event :: "int \<Rightarrow> int \<Rightarrow> reply run" where
  "open_event child cpu = perf_event_open p2_attr child cpu (-1) 0"

text \<open>The end of both cases, once the child is gone: read the counts and close.\<close>

definition read_counts :: "int \<Rightarrow> count_read_format run" where
  "read_counts fd =
     and_then (call (Read_Counts fd)) (\<lambda>n.
       if r_ret n \<noteq> sizeof_counts then die_errno ''read'' n
       else and_then (call (Close fd)) (\<lambda>_. return (r_counts n)))"

definition give_up :: "int \<Rightarrow> (count_read_format \<times> bool) option run" where
  "give_up child =
     and_then (call (Kill_Sigkill child)) (\<lambda>_. and_then (waiting_call (Waitpid child Blocking)) (\<lambda>_. return None))"

text \<open>The verdict is true where the counters armed and are not zero.\<close>

definition run_case_exec :: "int \<Rightarrow> string \<Rightarrow> (count_read_format \<times> bool) option run" where
  "run_case_exec cpu victim_path =
     and_then (fork_stop_exec_victim victim_path cpu) (\<lambda>child.
       and_then (open_event child cpu) (\<lambda>f.
         if r_ret f < 0 then give_up child
         else and_then (call (Kill_Sigcont child)) (\<lambda>s.
           if r_ret s \<noteq> 0 then die_errno ''kill(SIGCONT)'' s
           else and_then (waiting_call (Waitpid child Blocking)) (\<lambda>_.
             and_then (read_counts (r_ret f)) (\<lambda>c.
               return (Some (c, \<not> (cr_value c = 0 \<or> time_running c = 0))))))))"

text \<open>The verdict is true where nothing was counted.\<close>

definition run_case_never_exec :: "int \<Rightarrow> (count_read_format \<times> bool) option run" where
  "run_case_never_exec cpu =
     and_then fork_stop (\<lambda>child.
       and_then (open_event child cpu) (\<lambda>f.
         if r_ret f < 0 then give_up child
         else and_then (call (Kill_Sigkill child)) (\<lambda>s.
           if r_ret s \<noteq> 0 then die_errno ''kill(SIGKILL)'' s
           else and_then (waiting_call (Waitpid child Blocking)) (\<lambda>_.
             and_then (read_counts (r_ret f)) (\<lambda>c.
               return (Some (c, cr_value c = 0 \<and> time_running c = 0)))))))"

definition p2_main :: "string list \<Rightarrow> ((count_read_format \<times> bool) option list \<times> int) run" where
  "p2_main argv =
     (if length argv \<noteq> 2 then return ([], 2)
      else and_then (call Nprocessors_Online) (\<lambda>nproc.
        and_then (run_case_exec 0 (argv ! 1)) (\<lambda>a.
          and_then (run_case_never_exec 0) (\<lambda>b.
            and_then (run_case_exec (r_ret nproc - 1) (argv ! 1)) (\<lambda>c. return ([a, b, c], 0))))))"

section \<open>The victim\<close>

text \<open>The buffer as a list; an access outside it, undefined in C, is \<open>None\<close>.\<close>

definition victim_size :: nat where "victim_size = 4 * 1024 * 1024 div 8"

definition victim_fill :: "nat \<Rightarrow> u64 list" where
  "victim_fill n = fold (\<lambda>i buf. buf[i := word_of_nat ((i + 1) mod n)]) [0..<n] (replicate n 0)"

primrec victim_chase :: "u64 list \<Rightarrow> nat \<Rightarrow> u64 \<Rightarrow> u64 option" where
  "victim_chase buf 0 idx = Some idx"
| "victim_chase buf (Suc steps) idx =
     (if unat idx < length buf then victim_chase buf steps (buf ! unat idx) else None)"

text \<open>The printed index and the exit status; 1 where \<open>malloc\<close> fails.\<close>

definition victim_main :: "bool \<Rightarrow> (u64 option \<times> int) option" where
  "victim_main malloc_fails =
     (if malloc_fails then Some (None, 1)
      else map_option (\<lambda>idx. (Some idx, 0)) (victim_chase (victim_fill victim_size) (200 * victim_size) 0))"

section \<open>What the victim computes\<close>

lemma victim_fill_take:
  "m \<le> n \<Longrightarrow> fold (\<lambda>i buf. buf[i := word_of_nat ((i + 1) mod n)]) [0..<m] (replicate n 0) =
     map (\<lambda>i. word_of_nat ((i + 1) mod n)) [0..<m] @ replicate (n - m) (0 :: u64)"
proof (induction m)
  case (Suc m)
  have "replicate (n - m) (0 :: u64) = 0 # replicate (n - Suc m) 0"
    using Suc.prems by (simp add: Suc_diff_Suc flip: replicate_Suc)
  with Suc show ?case by (simp add: list_update_append)
qed simp

lemma victim_fill_nth: "length (victim_fill n) = n" "i < n \<Longrightarrow> victim_fill n ! i = word_of_nat ((i + 1) mod n)"
  using victim_fill_take [of n n] by (simp_all add: victim_fill_def)

lemma victim_chase_steps:
  assumes "0 < n" "n < 2 ^ 64" "i < n"
  shows "victim_chase (victim_fill n) steps (word_of_nat i) = Some (word_of_nat ((i + steps) mod n))"
  using assms(3)
proof (induction steps arbitrary: i)
  case 0
  then show ?case by simp
next
  case (Suc steps)
  have "unat (word_of_nat i :: u64) = i" using Suc.prems assms(2) by (intro unat_word_of_nat_less) simp
  moreover have "(i + 1) mod n < n" using assms(1) by simp
  note Suc.IH [OF this]
  ultimately show ?case using Suc.prems by (simp add: victim_fill_nth mod_simps)
qed

section \<open>What the cases do\<close>

text \<open>Children forked and children waited for to the end; events opened and closed.\<close>

definition forked :: "syscall \<times> reply \<Rightarrow> int list" where
  "forked x = (case x of (Fork, r) \<Rightarrow> [r_ret r] | _ \<Rightarrow> [])"

definition reaped :: "syscall \<times> reply \<Rightarrow> int list" where
  "reaped x = (case x of (Waitpid pid Blocking, _) \<Rightarrow> [pid] | _ \<Rightarrow> [])"

definition cleaned_up :: "history \<Rightarrow> bool" where
  "cleaned_up t \<longleftrightarrow> trace_of reaped t = trace_of forked t \<and> trace_of fd_closed t = trace_of fd_opened t"

lemmas p2_traces = cleaned_up_def forked_def reaped_def fd_opened_def fd_closed_def

lemma await_stop_does: "does k (await_stop child) (\<lambda>r t. \<forall>c. r = Inr c \<longrightarrow> c = child \<and>
    (\<exists>w. t = [(Waitpid child Untraced, w)]))"
  unfolding await_stop_def by (intro does_rules) auto

lemma fork_stop_does: "does k fork_stop (\<lambda>r t. \<forall>child. r = Inr child \<longrightarrow>
    (\<exists>f w. t = [(Fork, f), (Waitpid child Untraced, w)] \<and> r_ret f = child))"
  unfolding fork_stop_def
  by (intro does_rules does_mono [OF await_stop_does]) auto

lemma fork_victim_does: "does k (fork_stop_exec_victim path cpu) (\<lambda>r t. \<forall>child. r = Inr child \<longrightarrow>
    (\<exists>f w. t = [(Fork, f), (Waitpid child Untraced, w)] \<and> r_ret f = child))"
  unfolding fork_stop_exec_victim_def
  by (intro does_rules does_mono [OF await_stop_does]) auto

lemma read_counts_does: "does k (read_counts fd) (\<lambda>r t. \<forall>c. r = Inr c \<longrightarrow>
    (\<exists>n x. t = [(Read_Counts fd, n), (Close fd, x)] \<and> c = r_counts n))"
  unfolding read_counts_def by (intro does_rules) auto

definition one_clean_child :: "history \<Rightarrow> bool" where
  "one_clean_child t \<longleftrightarrow> cleaned_up t \<and> length (trace_of forked t) = 1"

lemma case_exec_does:
  "does k (run_case_exec cpu path) (\<lambda>r t. \<forall>x. r = Inr x \<longrightarrow> one_clean_child t)"
  unfolding run_case_exec_def open_event_def perf_event_open_def give_up_def
  by (rule does_and_then [OF fork_victim_does], simp)
    (auto simp: one_clean_child_def p2_traces intro!: does_rules does_and_then [OF read_counts_does])

lemma case_never_exec_does:
  "does k (run_case_never_exec cpu) (\<lambda>r t. \<forall>x. r = Inr x \<longrightarrow> one_clean_child t)"
  unfolding run_case_never_exec_def open_event_def perf_event_open_def give_up_def
  by (rule does_and_then [OF fork_stop_does], simp)
    (auto simp: one_clean_child_def p2_traces intro!: does_rules does_and_then [OF read_counts_does])

definition three_cases :: "(count_read_format \<times> bool) option list \<Rightarrow> history \<Rightarrow> bool" where
  "three_cases cases t \<longleftrightarrow> length cases = 3 \<and> length (trace_of forked t) = 3 \<and> cleaned_up t"

lemma p2_main_does:
  assumes "length argv = 2"
  shows "does k (p2_main argv) (\<lambda>r t. \<forall>cases status. r = Inr (cases, status) \<longrightarrow> status = 0 \<and> three_cases cases t)"
proof -
  have three: "three_cases [a, b, c] ((Nprocessors_Online, n) # ta @ tb @ tc)"
    if "one_clean_child ta" "one_clean_child tb" "one_clean_child tc" for a b c n ta tb tc
    using that by (simp add: three_cases_def one_clean_child_def p2_traces)
  show ?thesis unfolding p2_main_def
    by (rule does_if, simp add: assms, rule does_call_then, rule does_and_then [OF case_exec_does], simp,
        rule does_and_then [OF case_never_exec_does], simp, rule does_and_then [OF case_exec_does], simp)
      (auto intro!: does_return three)
qed

section \<open>Properties\<close>

text \<open>
  C39: On every kernel, when the probe returns: with one argument it has run its three
  cases, waited for each child it forked and closed each event it opened, also where
  the event could not be opened, and the status is 0; with any other number of
  arguments it has made no call and the status is 2.
\<close>

theorem p2_cleans_up_every_case:
  assumes "p2_main argv k h = Some (Inr (cases, status), h @ t)"
  shows "if length argv = 2
    then status = 0 \<and> length cases = 3 \<and> length (trace_of forked t) = 3 \<and>
      trace_of reaped t = trace_of forked t \<and> trace_of fd_closed t = trace_of fd_opened t
    else status = 2 \<and> cases = [] \<and> t = []"
proof (cases "length argv = 2")
  case True
  from doesD [OF p2_main_does [OF this] assms] True show ?thesis by (simp add: three_cases_def cleaned_up_def)
next
  case False
  with assms show ?thesis by (simp add: p2_main_def return_def)
qed

theorem p2_cleans_up_every_case_witness:
  "(\<exists>cases status t. p2_main [''p2'', ''./v''] quiet_kernel [] = Some (Inr (cases, status), [] @ t) \<and>
    status = 0 \<and> length cases = 3 \<and> length (trace_of forked t) = 3 \<and>
    trace_of reaped t = trace_of forked t \<and> trace_of fd_closed t = trace_of fd_opened t) \<and>
   p2_main [''p2''] quiet_kernel [] = Some (Inr ([], 2), [] @ [])"
proof -
  have "\<exists>cases status t. p2_main [''p2'', ''./v''] quiet_kernel [] = Some (Inr (cases, status), [] @ t)"
    by (simp add: p2_main_def and_then_def call_def waiting_call_def return_def run_case_exec_def run_case_never_exec_def
        fork_stop_exec_victim_def fork_stop_def await_stop_def open_event_def perf_event_open_def read_counts_def quiet_kernel_def
        no_reply_def sizeof_counts_def WIFSTOPPED_def)
  then obtain cases status t where
    run: "p2_main [''p2'', ''./v''] quiet_kernel [] = Some (Inr (cases, status), [] @ t)" by blast
  have "p2_main [''p2''] quiet_kernel [] = Some (Inr ([], 2), [] @ [])" by (simp add: p2_main_def return_def)
  with p2_cleans_up_every_case [OF run] run show ?thesis by auto
qed

theorem victim_ends_where_it_started:
  "victim_main False = Some (Some 0, 0) \<and> victim_main True = Some (None, 1)"
proof -
  have "victim_chase (victim_fill victim_size) (200 * victim_size) (word_of_nat 0) =
      Some (word_of_nat ((0 + 200 * victim_size) mod victim_size))"
    by (rule victim_chase_steps) (simp_all add: victim_size_def)
  then show ?thesis by (simp add: victim_main_def)
qed

end
