(* ===== verification/Probe_Mlock_Budget.thy ===== *)
theory Probe_Mlock_Budget
  imports Event_Lifecycle
begin

text \<open>
  The probe \<open>probes/p3_mlock_budget.c\<close>: for each ring size, how many rings can be opened
  and mapped before the first failure. Its output lines are values of \<open>p3_line\<close>.
\<close>

section \<open>The code\<close>

text \<open>A ring that has been opened and mapped.\<close>

record ring =
  ring_fd :: int
  ring_base :: u64
  ring_len :: u64

definition p3_attr :: perf_attr where
  "p3_attr = zero_attr\<lparr>at_type := PERF_TYPE_HARDWARE, at_config := PERF_COUNT_HW_CACHE_MISSES, at_disabled := True,
     at_exclude_kernel := True, at_exclude_hv := True,
     at_sample_type := or (or PERF_SAMPLE_IP PERF_SAMPLE_TID) PERF_SAMPLE_PERIOD, at_sample_period := 100000\<rparr>"

text \<open>The return code and errno of a failure, or the ring.\<close>

datatype p3_failure = Open_Failed int | Mmap_Failed int

definition open_and_map_one :: "int \<Rightarrow> u64 \<Rightarrow> u64 \<Rightarrow> (p3_failure + ring) run" where
  "open_and_map_one cpu data_pages page_size =
     and_then (call Getpid) (\<lambda>pid.
       and_then (perf_event_open p3_attr (r_ret pid) cpu (-1) 0) (\<lambda>f.
         if r_ret f < 0 then return (Inl (Open_Failed (r_errno f)))
         else (let len = (1 + data_pages) * page_size in
           and_then (call (Mmap (r_ret f) len)) (\<lambda>m.
             if r_base m = MAP_FAILED then return (Inl (Mmap_Failed (r_errno m)))
             else return (Inr \<lparr>ring_fd = r_ret f, ring_base = r_base m, ring_len = len\<rparr>)))))"

definition close_ring :: "ring \<Rightarrow> unit run" where
  "close_ring r =
     and_then (if ring_base r \<noteq> 0 then and_then (call (Munmap (ring_base r) (ring_len r))) (\<lambda>_. return ())
               else return ()) (\<lambda>_.
       if 0 \<le> ring_fd r then and_then (call (Close (ring_fd r))) (\<lambda>_. return ()) else return ())"

text \<open>The loop that opens rings until one fails.\<close>

primrec open_rings :: "u64 \<Rightarrow> u64 \<Rightarrow> int list \<Rightarrow> (ring list \<times> p3_failure option) run" where
  "open_rings data_pages page_size [] = return ([], None)"
| "open_rings data_pages page_size (cpu # cpus) =
     and_then (open_and_map_one cpu data_pages page_size) (\<lambda>r.
       case r of
         Inl failure \<Rightarrow> return ([], Some failure)
       | Inr ring \<Rightarrow>
           and_then (open_rings data_pages page_size cpus) (\<lambda>(rings, failure). return (ring # rings, failure)))"

record p3_line =
  p3_pages :: u64
  p3_opened :: nat
  p3_failed :: "p3_failure option"
  p3_total_mib :: real

text \<open>\<open>i % nproc\<close> for \<open>i\<close> below \<open>want = 2 * nproc\<close>.\<close>

definition p3_cpus :: "int \<Rightarrow> int list" where
  "p3_cpus nproc = map (\<lambda>i. int i mod nproc) [0..<nat (2 * nproc)]"

definition total_mib :: "u64 \<Rightarrow> u64 \<Rightarrow> ring list \<Rightarrow> real" where
  "total_mib page_size data_pages rings =
     real (length rings) * real (unat ((1 + data_pages) * page_size)) / (1024 * 1024)"

definition p3_size :: "int \<Rightarrow> u64 \<Rightarrow> u64 \<Rightarrow> p3_line run" where
  "p3_size nproc page_size data_pages =
     and_then (open_rings data_pages page_size (p3_cpus nproc)) (\<lambda>(rings, failure).
       and_then (for_each close_ring rings) (\<lambda>_.
         return \<lparr>p3_pages = data_pages, p3_opened = length rings, p3_failed = failure, p3_total_mib = total_mib page_size data_pages rings\<rparr>))"

definition mlock_kb_file :: string where
  "mlock_kb_file = ''/proc/sys/kernel/perf_event_mlock_kb''"

definition read_mlock_kb :: "int run" where
  "read_mlock_kb =
     and_then (call (Fopen mlock_kb_file)) (\<lambda>pf.
       if r_ret pf = 0 then return (-1)
       else and_then (call Fscanf_Long) (\<lambda>got.
         and_then (call Fclose) (\<lambda>_. return (if r_ret got \<noteq> 1 then -1 else r_value got))))"

definition p3_sizes :: "u64 list" where
  "p3_sizes = [256, 128, 64, 32, 16]"

text \<open>The predicted allowance, in MiB.\<close>

definition predicted_mib :: "int \<Rightarrow> int \<Rightarrow> real" where
  "predicted_mib mlock_kb nproc =
     (if 0 < mlock_kb then real_of_int mlock_kb * real_of_int nproc / 1024 else - 1)"

definition p3_main :: "(real \<times> p3_line list) run" where
  "p3_main =
     and_then (call Nprocessors_Online) (\<lambda>nproc.
       and_then (call Page_Size) (\<lambda>page.
         and_then (call Getrlimit_Memlock) (\<lambda>_.
           and_then read_mlock_kb (\<lambda>mlock_kb.
             and_then (for_each (p3_size (r_ret nproc) (word_of_int (r_ret page))) p3_sizes) (\<lambda>lines.
               return (predicted_mib mlock_kb (r_ret nproc), lines))))))"

section \<open>What a size does\<close>

text \<open>The descriptor of the ring whose mapping failed is in no list: it stays open.\<close>

fun leaks :: "p3_failure option \<Rightarrow> nat" where
  "leaks (Some (Mmap_Failed _)) = 1"
| "leaks _ = 0"

definition rings_open :: "ring list \<Rightarrow> p3_failure option \<Rightarrow> history \<Rightarrow> bool" where
  "rings_open rings failure t \<longleftrightarrow>
     (\<exists>leaked. length leaked = leaks failure \<and> trace_of fd_opened t = map ring_fd rings @ leaked) \<and>
     trace_of ring_mapped t = map (\<lambda>r. (ring_base r, ring_len r)) rings \<and>
     trace_of fd_closed t = [] \<and> trace_of ring_unmapped t = [] \<and> (\<forall>r\<in>set rings. 0 \<le> ring_fd r)"

lemma open_rings_do:
  "does k (open_rings pages page cpus) (\<lambda>r t. \<exists>rings failure. r = Inr (rings, failure) \<and>
     length rings \<le> length cpus \<and> (failure = None \<longleftrightarrow> length rings = length cpus) \<and> rings_open rings failure t)"
proof (induction cpus)
  case (Cons cpu cpus)
  have one: "does k (open_and_map_one cpu pages page) (\<lambda>r t.
      (\<exists>f. r = Inr (Inl f) \<and> rings_open [] (Some f) t) \<or> (\<exists>x. r = Inr (Inr x) \<and> rings_open [x] None t))"
    unfolding open_and_map_one_def perf_event_open_def
    by (intro does_rules) (auto simp: rings_open_def events_defs)
  have rest: "does k (and_then (open_rings pages page cpus) (\<lambda>(rings, failure). return (x # rings, failure)))
      (\<lambda>r t'. \<exists>rings failure. r = Inr (rings, failure) \<and> length rings \<le> length (cpu # cpus) \<and>
         (failure = None \<longleftrightarrow> length rings = length (cpu # cpus)) \<and> rings_open rings failure (t @ t'))"
    if "rings_open [x] None t" for x t
    by (rule does_and_then [OF Cons.IH]) (use that in \<open>auto simp: rings_open_def intro!: does_return\<close>)
  show ?case unfolding open_rings.simps
    by (rule does_and_then [OF one]) (use rest in \<open>auto intro!: does_return split: sum.split\<close>)
qed (auto simp: rings_open_def intro!: does_return)

text \<open>Closing unmaps what is mapped, at address 0 excepted.\<close>

definition rings_closed :: "ring list \<Rightarrow> history \<Rightarrow> bool" where
  "rings_closed rings t \<longleftrightarrow> trace_of fd_closed t = map ring_fd rings \<and>
     trace_of ring_unmapped t = map (\<lambda>r. (ring_base r, ring_len r)) (filter (\<lambda>r. ring_base r \<noteq> 0) rings) \<and>
     trace_of fd_opened t = [] \<and> trace_of ring_mapped t = []"

lemma close_rings_do:
  "\<forall>r\<in>set rings. 0 \<le> ring_fd r \<Longrightarrow> does k (for_each close_ring rings) (\<lambda>r t. (\<exists>u. r = Inr u) \<and> rings_closed rings t)"
proof (induction rings)
  case (Cons x rings)
  have one: "does k (close_ring x) (\<lambda>r t. (\<exists>u. r = Inr u) \<and> rings_closed [x] t)"
    using Cons.prems
    by (simp add: does_def close_ring_def and_then_def call_def return_def rings_closed_def events_defs)
  have rest: "does k (for_each close_ring rings) (\<lambda>r t. (\<exists>u. r = Inr u) \<and> rings_closed rings t)"
    using Cons by simp
  show ?case unfolding for_each.simps
    by (rule does_and_then [OF one], simp, rule does_and_then [OF rest])
      (auto simp: rings_closed_def intro!: does_return)
qed (auto simp: rings_closed_def intro!: does_return)

text \<open>What a size leaves behind: at most the one descriptor whose mapping failed.\<close>

definition size_probed :: "nat \<Rightarrow> p3_line \<Rightarrow> history \<Rightarrow> bool" where
  "size_probed want line t \<longleftrightarrow> p3_opened line \<le> want \<and> (p3_failed line = None \<longleftrightarrow> p3_opened line = want) \<and>
     length (trace_of ring_mapped t) = p3_opened line \<and>
     (\<exists>leaked. length leaked = leaks (p3_failed line) \<and> trace_of fd_opened t = trace_of fd_closed t @ leaked) \<and>
     trace_of ring_unmapped t = filter (\<lambda>(base, len). base \<noteq> 0) (trace_of ring_mapped t)"

lemma p3_size_does:
  "does k (p3_size nproc page pages) (\<lambda>r t. \<exists>line. r = Inr line \<and> size_probed (nat (2 * nproc)) line t)"
proof -
  have close: "does k (and_then (for_each close_ring rings) (\<lambda>_. return \<lparr>p3_pages = pages, p3_opened = length rings, p3_failed = failure, p3_total_mib = total_mib page pages rings\<rparr>))
      (\<lambda>r t'. \<exists>line. r = Inr line \<and> size_probed (nat (2 * nproc)) line (t @ t'))"
    if o: "rings_open rings failure t" "length rings \<le> length (p3_cpus nproc)"
      "failure = None \<longleftrightarrow> length rings = length (p3_cpus nproc)" for rings failure t
  proof (rule does_and_then [OF close_rings_do])
    show "\<forall>r\<in>set rings. 0 \<le> ring_fd r" using o(1) by (simp add: rings_open_def)
    fix u t' assume "(\<exists>u'. Inr u = Inr u') \<and> rings_closed rings t'"
    then have c: "rings_closed rings t'" by simp
    from o c have "size_probed (nat (2 * nproc)) \<lparr>p3_pages = pages, p3_opened = length rings, p3_failed = failure, p3_total_mib = total_mib page pages rings\<rparr> (t @ t')"
      by (auto simp: size_probed_def rings_open_def rings_closed_def p3_cpus_def filter_map o_def)
    then show "does k (return \<lparr>p3_pages = pages, p3_opened = length rings, p3_failed = failure, p3_total_mib = total_mib page pages rings\<rparr>)
        (\<lambda>r t''. \<exists>line. r = Inr line \<and> size_probed (nat (2 * nproc)) line (t @ t' @ t''))"
      by (auto intro!: does_return)
  qed simp
  show ?thesis unfolding p3_size_def
    by (rule does_and_then [OF open_rings_do]) (use close in \<open>auto intro!: does_case_prod\<close>)
qed

lemma open_rings_return: "outcome False k (open_rings pages page cpus) h (\<lambda>r h'. \<exists>x. r = Inr x \<and> True)"
proof (induction cpus arbitrary: h)
  case (Cons cpu cpus)
  have one: "outcome False k (open_and_map_one cpu pages page) h (\<lambda>r h'. \<exists>x. r = Inr x \<and> True)"
    by (simp add: open_and_map_one_def perf_event_open_def run_rules Let_def)
  have rest: "outcome False k (and_then (open_rings pages page cpus) (\<lambda>(rings, failure). return (x # rings, failure))) h'
      (\<lambda>r h'. \<exists>x. r = Inr x \<and> True)" for x h'
    by (rule outcome_then_succeeds [OF Cons.IH]) (auto simp: outcome_return split: prod.split)
  show ?case unfolding open_rings.simps
    by (rule outcome_then_succeeds [OF one]) (use rest in \<open>auto simp: outcome_return split: sum.split\<close>)
qed (simp add: outcome_return)

lemma close_rings_return: "outcome False k (for_each close_ring rings) h (\<lambda>r h'. \<exists>x. r = Inr x \<and> True)"
proof (induction rings arbitrary: h)
  case (Cons x rings)
  have one: "outcome False k (close_ring x) h (\<lambda>r h'. \<exists>x. r = Inr x \<and> True)"
    by (simp add: close_ring_def run_rules)
  show ?case unfolding for_each.simps
    by (rule outcome_then_succeeds [OF one], rule outcome_then_succeeds [OF Cons.IH]) (simp add: outcome_return)
qed (simp add: outcome_return)

lemma p3_size_returns: "outcome False k (p3_size nproc page pages) h (\<lambda>r h'. \<exists>x. r = Inr x \<and> True)"
  unfolding p3_size_def
  by (rule outcome_then_succeeds [OF open_rings_return], simp only: split_beta,
      rule outcome_then_succeeds [OF close_rings_return]) (simp add: outcome_return)

section \<open>Properties\<close>

text \<open>
  C40: On every kernel a ring size returns, with at most 2 nproc rings opened, all of
  them exactly if nothing failed, and all mappings released; exactly one descriptor,
  that of the ring whose mmap failed, stays open if the failure was an mmap.
\<close>

theorem p3_leaks_one_descriptor_per_failed_mmap:
  "\<exists>line t. p3_size nproc page pages k h = Some (Inr line, h @ t) \<and> size_probed (nat (2 * nproc)) line t"
proof -
  obtain x h' where run: "p3_size nproc page pages k h = Some (Inr x, h')"
    using outcome_returns [OF p3_size_returns [of k nproc page pages h]] by auto
  from doesD [OF p3_size_does run] run show ?thesis by auto
qed

end
