(* ===== verification/Schedules.thy ===== *)
theory Schedules
  imports Prelude "HOL-Library.Sublist"
begin

text \<open>
  Threads under an arbitrary scheduler. A schedule is the list of the threads that take the
  next step; a thread that spins or has finished leaves the state as it is. The locale
  states when every fair schedule runs such a program to its end.
\<close>

definition run :: "('t \<Rightarrow> 's \<Rightarrow> 's) \<Rightarrow> 't list \<Rightarrow> 's \<Rightarrow> 's" where
  "run step schedule s = fold step schedule s"

lemma run_simps [simp]:
  "run step [] s = s"
  "run step (t # ts) s = run step ts (step t s)"
  by (simp_all add: run_def)

lemma run_append: "run step (ts @ us) s = run step us (run step ts s)"
  by (simp add: run_def)

text \<open>A schedule that is fair for \<open>n\<close> rounds: in each round every thread gets a step.\<close>

definition fair_rounds :: "'t set \<Rightarrow> nat \<Rightarrow> 't list \<Rightarrow> bool" where
  "fair_rounds threads n schedule \<longleftrightarrow>
     (\<exists>rounds. schedule = concat rounds \<and> n \<le> length rounds \<and> (\<forall>r\<in>set rounds. threads \<subseteq> set r))"

lemma fair_round_robin: "threads \<subseteq> set r \<Longrightarrow> n \<le> m \<Longrightarrow> fair_rounds threads n (concat (replicate m r))"
  unfolding fair_rounds_def by (intro exI [of _ "replicate m r"]) auto

lemma fair_rounds_subseq:
  assumes "fair_rounds threads (Suc n) ts" "subseq ts us"
  shows "fair_rounds threads (Suc n) us"
proof -
  have "\<exists>rounds'. us = concat rounds' \<and> length rounds' = length rounds \<and> (\<forall>r\<in>set rounds'. threads \<subseteq> set r)"
    if "subseq (concat rounds) us" "\<forall>r\<in>set rounds. threads \<subseteq> set r" "rounds \<noteq> []" for rounds us
    using that
  proof (induction rounds arbitrary: us)
    case (Cons r rounds)
    then obtain vs ws where split: "us = vs @ ws" "subseq r vs" "subseq (concat rounds) ws"
      by (auto dest: list_emb_appendD)
    have r: "threads \<subseteq> set vs" "threads \<subseteq> set (vs @ ws)"
      using Cons.prems(2) split(2) by (auto dest: list_emb_set)
    show ?case
    proof (cases "rounds = []")
      case True
      with r show ?thesis by (intro exI [of _ "[us]"]) (simp add: split(1))
    next
      case False
      with Cons.IH [OF split(3)] Cons.prems(2) obtain rounds'
        where "ws = concat rounds'" "length rounds' = length rounds" "\<forall>r\<in>set rounds'. threads \<subseteq> set r" by auto
      with r show ?thesis by (intro exI [of _ "vs # rounds'"]) (simp add: split(1))
    qed
  qed simp
  with assms show ?thesis by (fastforce simp: fair_rounds_def)
qed

text \<open>
  A machine that simulates another one, except for steps that change nothing there. The
  choices \<open>prompt\<close> picks out are never such a step.
\<close>

locale stuttering_simulation =
  fixes concrete :: "'c \<Rightarrow> 'd \<Rightarrow> 'd" and abstract :: "'t \<Rightarrow> 's \<Rightarrow> 's" and who :: "'c \<Rightarrow> 't"
    and prompt :: "'c \<Rightarrow> bool" and shows_as :: "'d \<Rightarrow> 's \<Rightarrow> bool"
  assumes simulates: "shows_as d s \<Longrightarrow>
    shows_as (concrete c d) (abstract (who c) s) \<or> shows_as (concrete c d) s \<and> \<not> prompt c"
begin

lemma run_simulates:
  assumes "shows_as d s"
  shows "\<exists>ts. subseq (map who (filter prompt cs)) ts \<and> subseq ts (map who cs) \<and>
    shows_as (run concrete cs d) (run abstract ts s)"
  using assms
proof (induction cs arbitrary: d s)
  case Nil
  then show ?case by (intro exI [of _ "[]"]) simp
next
  case (Cons c cs)
  from simulates [OF Cons.prems, of c]
  consider (step) "shows_as (concrete c d) (abstract (who c) s)" | (stutter) "shows_as (concrete c d) s" "\<not> prompt c"
    by blast
  then show ?case
  proof cases
    case step
    from Cons.IH [OF this] obtain ts where "subseq (map who (filter prompt cs)) ts" "subseq ts (map who cs)"
      "shows_as (run concrete (c # cs) d) (run abstract (who c # ts) s)" by auto
    then show ?thesis by (intro exI [of _ "who c # ts"]) auto
  next
    case stutter
    from Cons.IH [OF this(1)] obtain ts where "subseq (map who (filter prompt cs)) ts" "subseq ts (map who cs)"
      "shows_as (run concrete (c # cs) d) (run abstract ts s)" by auto
    with stutter(2) show ?thesis by (intro exI [of _ ts]) auto
  qed
qed

end

locale fair_machine =
  fixes step :: "'t \<Rightarrow> 's \<Rightarrow> 's" and threads :: "'t set"
    and inv :: "'s \<Rightarrow> bool" and finished :: "'s \<Rightarrow> bool" and rank :: "'s \<Rightarrow> nat"
  assumes inv_step: "inv s \<Longrightarrow> inv (step t s)"
    and rank_step: "inv s \<Longrightarrow> step t s \<noteq> s \<Longrightarrow> rank (step t s) < rank s"
    and progress: "inv s \<Longrightarrow> \<not> finished s \<Longrightarrow> \<exists>t\<in>threads. step t s \<noteq> s"
    and finished_stays: "finished s \<Longrightarrow> step t s = s"
begin

lemma inv_run: "inv s \<Longrightarrow> inv (run step ts s)"
  by (induction ts arbitrary: s) (simp_all add: inv_step)

lemma finished_run: "finished s \<Longrightarrow> run step ts s = s"
  by (induction ts) (simp_all add: finished_stays)

lemma rank_run: "inv s \<Longrightarrow> rank (run step ts s) \<le> rank s"
proof (induction ts arbitrary: s)
  case (Cons t ts)
  have "rank (run step ts (step t s)) \<le> rank (step t s)" by (intro Cons inv_step)
  moreover have "rank (step t s) \<le> rank s"
    using rank_step [OF Cons.prems, of t] by (cases "step t s = s") auto
  ultimately show ?case by simp
qed simp

lemma round_decreases:
  "inv s \<Longrightarrow> t \<in> set ts \<Longrightarrow> step t s \<noteq> s \<Longrightarrow> rank (run step ts s) < rank s"
proof (induction ts)
  case (Cons u us)
  show ?case
  proof (cases "step u s = s")
    case True
    with Cons show ?thesis by auto
  next
    case False
    with Cons.prems have "rank (run step us (step u s)) \<le> rank (step u s)" "rank (step u s) < rank s"
      by (auto intro: rank_run inv_step rank_step)
    then show ?thesis by simp
  qed
qed simp

lemma fair_rounds_finish:
  "inv s \<Longrightarrow> \<forall>r\<in>set rounds. threads \<subseteq> set r \<Longrightarrow> rank s \<le> length rounds \<Longrightarrow>
   finished (run step (concat rounds) s)"
proof (induction rounds arbitrary: s)
  case Nil
  show ?case
  proof (rule ccontr)
    assume "\<not> finished (run step (concat []) s)"
    with Nil(1) progress obtain t where "step t s \<noteq> s" by auto
    from rank_step [OF Nil(1) this] Nil(3) show False by simp
  qed
next
  case (Cons r rounds)
  show ?case
  proof (cases "finished s")
    case True
    then show ?thesis by (simp only: finished_run)
  next
    case False
    with Cons.prems progress obtain t where "t \<in> set r" "step t s \<noteq> s" by force
    from round_decreases [OF Cons.prems(1) this] Cons.prems(3)
    have "rank (run step r s) \<le> length rounds" by simp
    with Cons.prems show ?thesis
      by (simp add: run_append Cons.IH inv_run)
  qed
qed

lemma fair_schedule_finishes:
  "inv s \<Longrightarrow> fair_rounds threads (rank s) schedule \<Longrightarrow> finished (run step schedule s)"
  unfolding fair_rounds_def using fair_rounds_finish by blast

end

end
