(* ===== verification/Pinning.thy ===== *)
theory Pinning
  imports Schedules
begin

text \<open>
  \<open>pin_to\<close>: the first thing each benchmark and probe thread does is to bind itself to a CPU;
  if \<open>sched_setaffinity\<close> fails the whole process exits with status 1. This puts that first
  step in front of the steps of a thread, for any machine, and shows what it changes:
  nothing if all threads can be bound, and otherwise no fair schedule gets past it.
\<close>

section \<open>The code\<close>

text \<open>The threads bound so far, whether the process has exited, and the state of the threads' own work.\<close>

record ('t, 's) pinned =
  bound_threads :: "'t list"
  px_exited :: bool
  px_state :: 's

text \<open>\<open>affinity cpu\<close>: whether \<open>sched_setaffinity\<close> succeeds for the CPU.\<close>

definition pin_to :: "(int \<Rightarrow> bool) \<Rightarrow> int \<Rightarrow> 't \<Rightarrow> ('t, 's) pinned \<Rightarrow> ('t, 's) pinned" where
  "pin_to affinity cpu t p =
     (if affinity cpu then p\<lparr>bound_threads := t # bound_threads p\<rparr> else p\<lparr>px_exited := True\<rparr>)"

definition pinned_step ::
  "(int \<Rightarrow> bool) \<Rightarrow> ('t \<Rightarrow> int) \<Rightarrow> ('t \<Rightarrow> 's \<Rightarrow> 's) \<Rightarrow> 't \<Rightarrow> ('t, 's) pinned \<Rightarrow> ('t, 's) pinned" where
  "pinned_step affinity cpu step t p =
     (if px_exited p then p
      else if t \<notin> set (bound_threads p) then pin_to affinity (cpu t) t p
      else p\<lparr>px_state := step t (px_state p)\<rparr>)"

definition pinned_start :: "'s \<Rightarrow> ('t, 's) pinned" where
  "pinned_start s = \<lparr>bound_threads = [], px_exited = False, px_state = s\<rparr>"

section \<open>What it changes\<close>

lemma pinned_step_simps:
  "px_exited p \<Longrightarrow> pinned_step affinity cpu step t p = p"
  "\<not> px_exited p \<Longrightarrow> t \<notin> set (bound_threads p) \<Longrightarrow> affinity (cpu t) \<Longrightarrow>
     pinned_step affinity cpu step t p = p\<lparr>bound_threads := t # bound_threads p\<rparr>"
  "\<not> px_exited p \<Longrightarrow> t \<notin> set (bound_threads p) \<Longrightarrow> \<not> affinity (cpu t) \<Longrightarrow>
     pinned_step affinity cpu step t p = p\<lparr>px_exited := True\<rparr>"
  "\<not> px_exited p \<Longrightarrow> t \<in> set (bound_threads p) \<Longrightarrow>
     pinned_step affinity cpu step t p = p\<lparr>px_state := step t (px_state p)\<rparr>"
  by (simp_all add: pinned_step_def pin_to_def)

text \<open>The work done is that of the schedule without the steps that bind.\<close>

lemma pinned_run_state:
  "\<exists>ts. px_state (run (pinned_step affinity cpu step) schedule p) = run step ts (px_state p)"
proof (induction schedule arbitrary: p)
  case Nil
  show ?case by (intro exI [of _ "[]"]) simp
next
  case (Cons t schedule)
  let ?q = "pinned_step affinity cpu step t p"
  obtain ts where ts: "px_state (run (pinned_step affinity cpu step) schedule ?q) = run step ts (px_state ?q)"
    using Cons.IH by blast
  have "px_state ?q = px_state p \<or> px_state ?q = step t (px_state p)"
    by (simp add: pinned_step_def pin_to_def)
  then show ?case
  proof
    assume "px_state ?q = px_state p"
    with ts show ?thesis by auto
  next
    assume "px_state ?q = step t (px_state p)"
    with ts have "px_state (run (pinned_step affinity cpu step) (t # schedule) p) = run step (t # ts) (px_state p)"
      by simp
    then show ?thesis by blast
  qed
qed

lemma exited_run: "px_exited p \<Longrightarrow> run (pinned_step affinity cpu step) schedule p = p"
  by (induction schedule) (simp_all add: pinned_step_simps)

text \<open>The process exits only where a CPU is refused, and then by the first round at the latest.\<close>

lemma exited_refused:
  "px_exited (run (pinned_step affinity cpu step) schedule p) \<Longrightarrow> \<not> px_exited p \<Longrightarrow> \<exists>t. \<not> affinity (cpu t)"
proof (induction schedule arbitrary: p)
  case (Cons t schedule)
  then show ?case
    by (cases "px_exited (pinned_step affinity cpu step t p)")
      (auto simp: pinned_step_def pin_to_def split: if_splits)
qed simp

text \<open>Bound threads stay bound, and have been accepted; a round binds every thread, or the process exits.\<close>

definition bound_ok :: "(int \<Rightarrow> bool) \<Rightarrow> ('t \<Rightarrow> int) \<Rightarrow> ('t, 's) pinned \<Rightarrow> bool" where
  "bound_ok affinity cpu p \<longleftrightarrow> (\<forall>t\<in>set (bound_threads p). affinity (cpu t))"

lemma run_binds:
  fixes schedule step
  assumes "bound_ok affinity cpu p"
  defines "q \<equiv> run (pinned_step affinity cpu step) schedule p"
  shows "bound_ok affinity cpu q \<and> (px_exited q \<or> set schedule \<union> set (bound_threads p) \<subseteq> set (bound_threads q))"
  using assms(1) unfolding q_def
proof (induction schedule arbitrary: p)
  case (Cons t schedule)
  let ?p = "pinned_step affinity cpu step t p"
  have "bound_ok affinity cpu ?p"
    using Cons.prems by (auto simp: bound_ok_def pinned_step_def pin_to_def)
  from Cons.IH [OF this] have IH: "bound_ok affinity cpu (run (pinned_step affinity cpu step) schedule ?p)"
    "px_exited (run (pinned_step affinity cpu step) schedule ?p) \<or>
       set schedule \<union> set (bound_threads ?p) \<subseteq> set (bound_threads (run (pinned_step affinity cpu step) schedule ?p))"
    by blast+
  moreover have "px_exited ?p \<or> insert t (set (bound_threads p)) \<subseteq> set (bound_threads ?p)"
    by (auto simp: pinned_step_def pin_to_def)
  moreover have "px_exited (run (pinned_step affinity cpu step) schedule ?p)" if "px_exited ?p"
    using that by (simp add: exited_run)
  ultimately show ?case by auto
qed simp

lemma refused_exits:
  assumes "fair_rounds threads n schedule" "0 < n" "t \<in> threads" "\<not> affinity (cpu t)"
  shows "px_exited (run (pinned_step affinity cpu step) schedule (pinned_start s))"
proof (rule ccontr)
  let ?q = "run (pinned_step affinity cpu step) schedule (pinned_start s)"
  assume "\<not> px_exited ?q"
  with run_binds [of affinity cpu "pinned_start s" step schedule] assms(4)
  have "t \<notin> set schedule" by (auto simp: bound_ok_def pinned_start_def)
  moreover obtain rounds where "schedule = concat rounds" "n \<le> length rounds" "\<forall>r\<in>set rounds. threads \<subseteq> set r"
    using assms(1) by (auto simp: fair_rounds_def)
  moreover from this assms(2) obtain r where "r \<in> set rounds" by (cases rounds) auto
  ultimately show False using assms(3) by auto
qed

lemma bound_run:
  assumes "\<not> px_exited p" "set schedule \<subseteq> set (bound_threads p)"
  shows "run (pinned_step affinity cpu step) schedule p = p\<lparr>px_state := run step schedule (px_state p)\<rparr>"
  using assms by (induction schedule arbitrary: p) (simp_all add: pinned_step_simps)

text \<open>Binding the threads keeps a simulation.\<close>

definition pinned_shows_as :: "('d \<Rightarrow> 's \<Rightarrow> bool) \<Rightarrow> ('t, 'd) pinned \<Rightarrow> ('t, 's) pinned \<Rightarrow> bool" where
  "pinned_shows_as shows_as p q \<longleftrightarrow>
     bound_threads p = bound_threads q \<and> px_exited p = px_exited q \<and> shows_as (px_state p) (px_state q)"

lemma pinned_simulation:
  fixes affinity :: "int \<Rightarrow> bool" and cpu :: "'t \<Rightarrow> int" and shows_as :: "'d \<Rightarrow> 's \<Rightarrow> bool"
  assumes "stuttering_simulation concrete abstract who prompt shows_as"
  shows "stuttering_simulation (\<lambda>c. pinned_step affinity cpu (\<lambda>_. concrete c) (who c))
    (pinned_step affinity cpu abstract) who prompt (pinned_shows_as shows_as)"
proof
  fix p :: "('t, 'd) pinned" and q c assume "pinned_shows_as shows_as p q"
  with stuttering_simulation.simulates [OF assms, of "px_state p" "px_state q" c]
  show "pinned_shows_as shows_as (pinned_step affinity cpu (\<lambda>_. concrete c) (who c) p) (pinned_step affinity cpu abstract (who c) q) \<or>
    pinned_shows_as shows_as (pinned_step affinity cpu (\<lambda>_. concrete c) (who c) p) q \<and> \<not> prompt c"
    by (auto simp: pinned_shows_as_def pinned_step_def pin_to_def)
qed

context fair_machine
begin

text \<open>One more round than without binding, and a fair schedule runs to the end.\<close>

lemma pinned_finishes:
  fixes affinity :: "int \<Rightarrow> bool" and cpu :: "'t \<Rightarrow> int"
  assumes "inv s" "fair_rounds threads (Suc (rank s)) schedule" "set schedule \<subseteq> threads"
  defines "q \<equiv> run (pinned_step affinity cpu step) schedule (pinned_start s)"
  shows "inv (px_state q) \<and> (px_exited q \<or> finished (px_state q))"
proof -
  from assms(2) obtain r rounds where rounds: "schedule = r @ concat rounds" "rank s \<le> length rounds"
    "threads \<subseteq> set r" "\<forall>r\<in>set rounds. threads \<subseteq> set r"
    unfolding fair_rounds_def by (metis (no_types, lifting) Suc_le_length_iff concat.simps(2) list.set_intros)
  let ?first = "run (pinned_step affinity cpu step) r (pinned_start s)"
  have inv: "inv (px_state q)"
    using pinned_run_state [of affinity cpu step schedule "pinned_start s"] inv_run [OF assms(1)]
    by (auto simp: q_def pinned_start_def)
  show ?thesis
  proof (cases "px_exited q")
    case False
    have q: "q = run (pinned_step affinity cpu step) (concat rounds) ?first"
      by (simp add: q_def rounds(1) run_append)
    have first: "\<not> px_exited ?first" using False exited_run [of ?first affinity cpu step "concat rounds"] q by auto
    then have bound: "threads \<subseteq> set (bound_threads ?first)"
      using run_binds [of affinity cpu "pinned_start s" step r] rounds(3) by (auto simp: bound_ok_def pinned_start_def)
    obtain ts where ts: "px_state ?first = run step ts s"
      using pinned_run_state [of affinity cpu step r "pinned_start s"] by (auto simp: pinned_start_def)
    have start: "inv (px_state ?first)" "rank (px_state ?first) \<le> length rounds"
      unfolding ts using inv_run [OF assms(1)] rank_run [OF assms(1), of ts] rounds(2) by simp_all
    have "set (concat rounds) \<subseteq> set (bound_threads ?first)" using assms(3) bound rounds(1) by auto
    from bound_run [OF first this] have "px_state q = run step (concat rounds) (px_state ?first)" by (simp add: q)
    with fair_rounds_finish [OF start(1) rounds(4) start(2)] inv show ?thesis by simp
  qed (simp add: inv)
qed

text \<open>If every thread takes part: the process exits exactly if some CPU is refused, and is done otherwise.\<close>

lemma pinned_outcome:
  fixes affinity :: "int \<Rightarrow> bool" and cpu :: "'t \<Rightarrow> int"
  assumes "inv s" "fair_rounds threads (Suc (rank s)) schedule" "threads = UNIV"
  defines "q \<equiv> run (pinned_step affinity cpu step) schedule (pinned_start s)"
  shows "px_exited q \<longleftrightarrow> (\<exists>t. \<not> affinity (cpu t))" "\<not> px_exited q \<Longrightarrow> inv (px_state q) \<and> finished (px_state q)"
proof -
  show "px_exited q \<longleftrightarrow> (\<exists>t. \<not> affinity (cpu t))"
    using exited_refused [of affinity cpu step schedule "pinned_start s"] refused_exits [OF assms(2)] assms(3)
    by (auto simp: q_def pinned_start_def)
  show "\<not> px_exited q \<Longrightarrow> inv (px_state q) \<and> finished (px_state q)"
    using pinned_finishes [OF assms(1,2), of affinity cpu] assms(3) by (simp add: q_def)
qed

end

end
