(* ===== verification/Cell_Ring.thy ===== *)
theory Cell_Ring
  imports Prelude
begin

text \<open>
  The cells that the queues of \<open>benchmarks/\<close> share (\<open>Cell\<close>, \<open>kCapacity\<close>, \<open>kMask\<close>,
  \<open>queue_init\<close> of \<open>spsc_queue.cpp\<close>, \<open>mpmc_queue.cpp\<close>, \<open>queue_latency.cpp\<close>): a
  ring of slots, each with a sequence number beside its data. Positions are 64-bit words
  that only ever grow; the lemmas number them by naturals.
\<close>

unbundle bit_operations_syntax

section \<open>The code\<close>

record cell =
  sequence :: u64
  cdata :: u64

definition kCapacity :: u64 where "kCapacity = 1024"

definition kMask :: u64 where "kMask = kCapacity - 1"

text \<open>\<open>q.buffer[pos & kMask]\<close>, its index and its updates.\<close>

definition slot :: "u64 \<Rightarrow> nat" where "slot pos = unat (pos AND kMask)"

definition put_data :: "u64 \<Rightarrow> u64 \<Rightarrow> cell list \<Rightarrow> cell list" where
  "put_data pos v buf = buf[slot pos := (buf ! slot pos)\<lparr>cdata := v\<rparr>]"

definition put_sequence :: "u64 \<Rightarrow> u64 \<Rightarrow> cell list \<Rightarrow> cell list" where
  "put_sequence pos q buf = buf[slot pos := (buf ! slot pos)\<lparr>sequence := q\<rparr>]"

text \<open>\<open>queue_init\<close> stores the sequence numbers into the freshly allocated cells.\<close>

definition queue_init :: "cell list \<Rightarrow> cell list" where
  "queue_init buf =
     fold (\<lambda>i b. b[i := (b ! i)\<lparr>sequence := word_of_nat i\<rparr>]) [0..<unat kCapacity] buf"

section \<open>Positions\<close>

lemma unat_kCapacity [simp]: "unat kCapacity = 1024"
  by (simp add: kCapacity_def)

lemma slot_nat: "slot (word_of_nat n) = n mod 1024"
proof -
  have "kMask = mask 10" by (simp add: kMask_def kCapacity_def mask_eq_exp_minus_1)
  then have "slot (word_of_nat n) = unat (take_bit 10 (word_of_nat n :: u64))"
    by (simp add: slot_def take_bit_eq_mask)
  also have "\<dots> = take_bit 10 (unat (word_of_nat n :: u64))" by (rule unsigned_take_bit_eq)
  also have "\<dots> = n mod 1024"
    by (simp add: unsigned_of_nat take_bit_take_bit) (simp add: take_bit_eq_mod)
  finally show ?thesis .
qed

lemma slot_unat: "slot w = unat w mod 1024"
  using slot_nat [of "unat w"] by simp

lemma slot_in_ring: "slot w < 1024"
  by (simp add: slot_unat)

lemma mod_eq_near:
  fixes m n k :: nat
  assumes "m mod k = n mod k" "m < n + k" "n < m + k"
  shows "m = n"
  using assms(1)
proof (rule contrapos_pp)
  assume "m \<noteq> n"
  then consider "n < m" | "m < n" by linarith
  then show "m mod k \<noteq> n mod k"
  proof cases
    case 1
    then have "\<not> k dvd m - n" using assms(2) by (intro nat_dvd_not_less) simp_all
    with 1 show ?thesis by (simp add: mod_eq_dvd_iff_nat)
  next
    case 2
    then have "\<not> k dvd n - m" using assms(3) by (intro nat_dvd_not_less) simp_all
    with 2 show ?thesis by (metis mod_eq_dvd_iff_nat less_imp_le)
  qed
qed

lemma word_of_nat_eq_near:
  assumes "(word_of_nat m :: u64) = word_of_nat n" "m \<le> n + 1024" "n \<le> m + 1024"
  shows "m = n"
proof -
  have "unat (word_of_nat m :: u64) = unat (word_of_nat n :: u64)" using assms(1) by simp
  then have "m mod 2 ^ 64 = n mod 2 ^ 64" by (simp add: unat_of_nat)
  then show ?thesis by (rule mod_eq_near) (use assms(2,3) in simp_all)
qed

lemma word_of_nat_inj:
  assumes "(word_of_nat m :: u64) = word_of_nat n" "m < 2 ^ 64" "n < 2 ^ 64"
  shows "m = n"
proof -
  have "unat (word_of_nat m :: u64) = unat (word_of_nat n :: u64)" using assms(1) by simp
  then have "m mod 2 ^ 64 = n mod 2 ^ 64" by (simp add: unat_of_nat)
  with assms(2,3) show ?thesis by (simp only: mod_less)
qed

lemma mod_ring: "(n :: nat) mod 1024 < 1024"
  by simp

lemma add_1024_mod: "(p + 1024) mod 1024 = p mod (1024 :: nat)"
  by (rule mod_add_self2)

lemma add_1_mod: "(p + 1) mod 1024 \<noteq> p mod (1024 :: nat)"
proof
  assume "(p + 1) mod 1024 = p mod 1024"
  then have "p + 1 = p" by (rule mod_eq_near) linarith+
  then show False by simp
qed

text \<open>Within one window of the ring the slot determines the position.\<close>

lemma same_slot:
  fixes m n lo :: nat
  assumes "lo \<le> m" "m < lo + 1024" "lo \<le> n" "n < lo + 1024"
  shows "m mod 1024 = n mod 1024 \<longleftrightarrow> m = n"
  using assms mod_eq_near [of m 1024 n] by auto

lemma put_data_nth:
  "length buf = 1024 \<Longrightarrow> put_data (word_of_nat m) v buf ! (n mod 1024) =
     (if n mod 1024 = m mod 1024 then (buf ! (n mod 1024))\<lparr>cdata := v\<rparr> else buf ! (n mod 1024))"
  by (simp add: put_data_def slot_nat nth_list_update)

lemma put_sequence_nth:
  "length buf = 1024 \<Longrightarrow> put_sequence (word_of_nat m) q buf ! (n mod 1024) =
     (if n mod 1024 = m mod 1024 then (buf ! (n mod 1024))\<lparr>sequence := q\<rparr> else buf ! (n mod 1024))"
  by (simp add: put_sequence_def slot_nat nth_list_update)

lemma sequence_put_data [simp]: "sequence (put_data pos v buf ! k) = sequence (buf ! k)"
  by (cases "slot pos < length buf"; cases "k = slot pos") (simp_all add: put_data_def list_update_beyond)

lemma cdata_put_sequence [simp]: "cdata (put_sequence pos q buf ! k) = cdata (buf ! k)"
  by (cases "slot pos < length buf"; cases "k = slot pos") (simp_all add: put_sequence_def list_update_beyond)

lemma length_put [simp]:
  "length (put_data pos v buf) = length buf"
  "length (put_sequence pos q buf) = length buf"
  by (simp_all add: put_data_def put_sequence_def)

lemma sequence_after_init:
  assumes "length buf = 1024"
  shows "length (queue_init buf) = 1024"
    and "n < 1024 \<Longrightarrow> sequence (queue_init buf ! n) = word_of_nat n"
proof -
  let ?f = "\<lambda>i b. b[i := (b ! i)\<lparr>sequence := word_of_nat i\<rparr>]"
  have *: "length (fold ?f [0..<k] buf) = 1024 \<and>
      (\<forall>n<k. sequence (fold ?f [0..<k] buf ! n) = word_of_nat n)" if "k \<le> 1024" for k
    using that
  proof (induction k)
    case (Suc k)
    then have "length (fold ?f [0..<k] buf) = 1024"
      "\<forall>n<k. sequence (fold ?f [0..<k] buf ! n) = word_of_nat n" by auto
    with Suc.prems show ?case by (simp add: nth_list_update less_Suc_eq del: upt_Suc add: upt_Suc_append)
  qed (simp add: assms)
  from * [of 1024] show "length (queue_init buf) = 1024"
    unfolding queue_init_def unat_kCapacity by blast
  from * [of 1024] show "n < 1024 \<Longrightarrow> sequence (queue_init buf ! n) = word_of_nat n"
    unfolding queue_init_def unat_kCapacity by blast
qed

section \<open>A ring that holds the positions from \<open>lo\<close> up to \<open>hi\<close>\<close>

text \<open>
  The slots of \<open>lo \<dots> hi - 1\<close> are published: sequence one above the position, data in
  place. The rest of the window, up to \<open>lo + 1023\<close>, is free: sequence equal to the position.
\<close>

definition cells_ok :: "(u64 \<Rightarrow> u64) \<Rightarrow> cell list \<Rightarrow> nat \<Rightarrow> nat \<Rightarrow> bool" where
  "cells_ok payload buf lo hi \<longleftrightarrow> length buf = 1024 \<and> lo \<le> hi \<and> hi \<le> lo + 1024 \<and>
     (\<forall>n. lo \<le> n \<longrightarrow> n < hi \<longrightarrow>
        buf ! (n mod 1024) = \<lparr>sequence = word_of_nat (Suc n), cdata = payload (word_of_nat n)\<rparr>) \<and>
     (\<forall>n. hi \<le> n \<longrightarrow> n < lo + 1024 \<longrightarrow> sequence (buf ! (n mod 1024)) = word_of_nat n)"

lemma cells_ok_init: "length buf = 1024 \<Longrightarrow> cells_ok payload (queue_init buf) 0 0"
  by (simp add: cells_ok_def sequence_after_init)

lemma cells_ok_bounds: "cells_ok payload buf lo hi \<Longrightarrow> length buf = 1024 \<and> lo \<le> hi \<and> hi \<le> lo + 1024"
  by (simp add: cells_ok_def)

lemma cells_published:
  "cells_ok payload buf lo hi \<Longrightarrow> lo \<le> n \<Longrightarrow> n < hi \<Longrightarrow>
   buf ! (n mod 1024) = \<lparr>sequence = word_of_nat (Suc n), cdata = payload (word_of_nat n)\<rparr>"
  by (simp add: cells_ok_def)

lemma cells_free:
  "cells_ok payload buf lo hi \<Longrightarrow> hi \<le> n \<Longrightarrow> n < lo + 1024 \<Longrightarrow>
   sequence (buf ! (n mod 1024)) = word_of_nat n"
  by (simp add: cells_ok_def)

lemma cells_free_iff:
  assumes "cells_ok payload buf lo hi"
  shows "sequence (buf ! (hi mod 1024)) = word_of_nat hi \<longleftrightarrow> hi < lo + 1024"
proof (cases "hi < lo + 1024")
  case True
  with assms show ?thesis by (simp add: cells_free)
next
  case False
  with assms have hi: "hi = lo + 1024" by (simp add: cells_ok_def)
  then have "hi mod 1024 = lo mod 1024" by simp
  then have "sequence (buf ! (hi mod 1024)) = word_of_nat (Suc lo)"
    using assms hi by (simp only: cells_published) simp
  with False hi show ?thesis using word_of_nat_eq_near [of "Suc lo" hi] by force
qed

lemma cells_full_iff:
  assumes "cells_ok payload buf lo hi"
  shows "sequence (buf ! (lo mod 1024)) = word_of_nat lo + 1 \<longleftrightarrow> lo < hi"
proof (cases "lo < hi")
  case True
  with assms show ?thesis by (simp add: cells_published)
next
  case False
  with assms cells_free [OF assms, of lo] have "sequence (buf ! (lo mod 1024)) = word_of_nat lo"
    by simp
  with False show ?thesis by simp
qed

lemma cells_put_data:
  assumes "cells_ok payload buf lo hi" "hi < lo + 1024"
  shows "cells_ok payload (put_data (word_of_nat hi) v buf) lo hi"
    and "cdata (put_data (word_of_nat hi) v buf ! (hi mod 1024)) = v"
proof -
  have b: "length buf = 1024" "lo \<le> hi" using assms by (simp_all add: cells_ok_def)
  then show "cdata (put_data (word_of_nat hi) v buf ! (hi mod 1024)) = v"
    by (simp add: put_data_nth)
  show "cells_ok payload (put_data (word_of_nat hi) v buf) lo hi"
    unfolding cells_ok_def
  proof (intro conjI allI impI)
    fix n assume n: "lo \<le> n" "n < hi"
    with assms(2) same_slot [of lo n hi] have "n mod 1024 \<noteq> hi mod 1024" by auto
    with n assms b show "put_data (word_of_nat hi) v buf ! (n mod 1024) =
        \<lparr>sequence = word_of_nat (Suc n), cdata = payload (word_of_nat n)\<rparr>"
      by (simp add: put_data_nth cells_published)
  next
    fix n assume "hi \<le> n" "n < lo + 1024"
    with assms b show "sequence (put_data (word_of_nat hi) v buf ! (n mod 1024)) = word_of_nat n"
      by (simp add: cells_free)
  qed (use assms b in simp_all)
qed

lemma cells_publish:
  assumes "cells_ok payload buf lo hi" "hi < lo + 1024"
    and "cdata (buf ! (hi mod 1024)) = payload (word_of_nat hi)"
  shows "cells_ok payload (put_sequence (word_of_nat hi) (word_of_nat hi + 1) buf) lo (Suc hi)"
proof -
  have b: "length buf = 1024" "lo \<le> hi" using assms by (simp_all add: cells_ok_def)
  show ?thesis unfolding cells_ok_def
  proof (intro conjI allI impI)
    fix n assume n: "lo \<le> n" "n < Suc hi"
    show "put_sequence (word_of_nat hi) (word_of_nat hi + 1) buf ! (n mod 1024) =
        \<lparr>sequence = word_of_nat (Suc n), cdata = payload (word_of_nat n)\<rparr>"
    proof (cases "n = hi")
      case True
      with assms(3) b show ?thesis by (simp add: put_sequence_nth add.commute)
    next
      case False
      with n assms(2) same_slot [of lo n hi] have "n mod 1024 \<noteq> hi mod 1024" "n < hi" by auto
      with n assms b show ?thesis by (simp add: put_sequence_nth cells_published)
    qed
  next
    fix n assume n: "Suc hi \<le> n" "n < lo + 1024"
    with assms(2) b same_slot [of lo n hi] have "n mod 1024 \<noteq> hi mod 1024" by auto
    with n assms b show "sequence (put_sequence (word_of_nat hi) (word_of_nat hi + 1) buf ! (n mod 1024)) =
        word_of_nat n"
      by (simp add: put_sequence_nth cells_free)
  qed (use assms b in simp_all)
qed

lemma cells_release:
  assumes "cells_ok payload buf lo hi" "lo < hi"
  shows "cells_ok payload (put_sequence (word_of_nat lo) (word_of_nat lo + kCapacity) buf) (Suc lo) hi"
proof -
  have b: "length buf = 1024" "hi \<le> lo + 1024" using assms by (simp_all add: cells_ok_def)
  show ?thesis unfolding cells_ok_def
  proof (intro conjI allI impI)
    fix n assume n: "Suc lo \<le> n" "n < hi"
    with b same_slot [of lo n lo] have "n mod 1024 \<noteq> lo mod 1024" by auto
    with n assms b show "put_sequence (word_of_nat lo) (word_of_nat lo + kCapacity) buf ! (n mod 1024) =
        \<lparr>sequence = word_of_nat (Suc n), cdata = payload (word_of_nat n)\<rparr>"
      by (simp add: put_sequence_nth cells_published)
  next
    fix n assume n: "hi \<le> n" "n < Suc lo + 1024"
    show "sequence (put_sequence (word_of_nat lo) (word_of_nat lo + kCapacity) buf ! (n mod 1024)) =
        word_of_nat n"
    proof (cases "n = lo + 1024")
      case True
      then have "n mod 1024 = lo mod 1024" by simp
      with b True show ?thesis by (simp add: put_sequence_nth kCapacity_def)
    next
      case False
      with n assms(2) same_slot [of lo n lo] have "n mod 1024 \<noteq> lo mod 1024" "n < lo + 1024" by auto
      with n assms b show ?thesis by (simp add: put_sequence_nth cells_free)
    qed
  qed (use assms b in simp_all)
qed

end
