(* ===== verification/Cell_Claims.thy ===== *)
theory Cell_Claims
  imports Cell_Ring
begin

text \<open>
  The slot protocol of a queue with several producers and consumers, without the threads: a
  thread claims a position, works on its slot, and gives the claim up by storing the next
  sequence number. \<open>wr\<close> and \<open>rd\<close> map a thread to its claim; \<open>log\<close> lists the values in
  the order in which their positions were claimed. The threads are in \<open>Mpmc_Queue\<close>.
\<close>

section \<open>Claims\<close>

definition claimed :: "(nat \<rightharpoonup> nat \<times> 'x) \<Rightarrow> nat set" where
  "claimed m = {n. \<exists>k x. m k = Some (n, x)}"

definition exclusive :: "(nat \<rightharpoonup> nat \<times> 'x) \<Rightarrow> bool" where
  "exclusive m \<longleftrightarrow> (\<forall>k k' n x x'. m k = Some (n, x) \<longrightarrow> m k' = Some (n, x') \<longrightarrow> k = k')"

lemma exclusiveD: "exclusive m \<Longrightarrow> m k = Some (n, x) \<Longrightarrow> m k' = Some (n, x') \<Longrightarrow> k = k'"
  by (auto simp: exclusive_def)

lemma claimedI: "m k = Some (n, x) \<Longrightarrow> n \<in> claimed m"
  by (auto simp: claimed_def)

lemma claimed_claim: "m k = None \<Longrightarrow> claimed (m(k \<mapsto> (n, x))) = insert n (claimed m)"
  unfolding claimed_def by (auto split: if_splits) (metis option.distinct(1))

lemma claimed_keep: "m k = Some (n, x) \<Longrightarrow> claimed (m(k \<mapsto> (n, y))) = claimed m"
  unfolding claimed_def by (auto split: if_splits) (metis option.inject prod.inject)

lemma claimed_drop: "exclusive m \<Longrightarrow> m k = Some (n, x) \<Longrightarrow> claimed (m(k := None)) = claimed m - {n}"
  unfolding claimed_def exclusive_def by (auto split: if_splits) (metis option.inject prod.inject)

lemma exclusive_claim: "exclusive m \<Longrightarrow> n \<notin> claimed m \<Longrightarrow> exclusive (m(k \<mapsto> (n, x)))"
  unfolding claimed_def exclusive_def by (auto split: if_splits)

lemma exclusive_keep: "exclusive m \<Longrightarrow> m k = Some (n, x) \<Longrightarrow> exclusive (m(k \<mapsto> (n, y)))"
  unfolding exclusive_def by (auto split: if_splits)

lemma exclusive_drop: "exclusive m \<Longrightarrow> exclusive (m(k := None))"
  unfolding exclusive_def by (auto split: if_splits)

section \<open>The invariant of the slots\<close>

text \<open>
  Of the positions claimed for pushing, the last 1024 decide the slots: a claimed one is
  being written, one that was popped and released is free for the next lap, any other is
  full.
\<close>

definition next_sequence :: "nat set \<Rightarrow> nat set \<Rightarrow> nat \<Rightarrow> nat \<Rightarrow> nat" where
  "next_sequence ws rs d n = (if n \<in> ws then n else if n < d \<and> n \<notin> rs then n + 1024 else Suc n)"

definition in_window :: "nat \<Rightarrow> nat \<Rightarrow> bool" where
  "in_window e n \<longleftrightarrow> e \<le> n + 1024 \<and> n < e"

definition slots_ok ::
  "cell list \<Rightarrow> u64 list \<Rightarrow> nat \<Rightarrow> (nat \<rightharpoonup> nat \<times> bool) \<Rightarrow> (nat \<rightharpoonup> nat \<times> u64 option) \<Rightarrow> bool" where
  "slots_ok buf log d wr rd \<longleftrightarrow>
     length buf = 1024 \<and> d \<le> length log \<and> length log \<le> d + 1024 \<and>
     exclusive wr \<and> exclusive rd \<and>
     (\<forall>n\<in>claimed wr. d \<le> n \<and> n < length log) \<and>
     (\<forall>n\<in>claimed rd. n < d \<and> length log \<le> n + 1024) \<and>
     (\<forall>n. in_window (length log) n \<longrightarrow>
        sequence (buf ! (n mod 1024)) = word_of_nat (next_sequence (claimed wr) (claimed rd) d n)) \<and>
     (\<forall>n. length log \<le> n \<longrightarrow> n < 1024 \<longrightarrow> sequence (buf ! n) = word_of_nat n) \<and>
     (\<forall>n. in_window (length log) n \<longrightarrow> d \<le> n \<or> n \<in> claimed rd \<longrightarrow> n \<notin> claimed wr \<longrightarrow>
        cdata (buf ! (n mod 1024)) = log ! n) \<and>
     (\<forall>k n. wr k = Some (n, True) \<longrightarrow> cdata (buf ! (n mod 1024)) = log ! n) \<and>
     (\<forall>k n v. rd k = Some (n, Some v) \<longrightarrow> v = log ! n)"

lemma slots_okD:
  assumes "slots_ok buf log d wr rd"
  shows "length buf = 1024" "d \<le> length log" "length log \<le> d + 1024" "exclusive wr" "exclusive rd"
    and "n \<in> claimed wr \<Longrightarrow> d \<le> n" "n \<in> claimed wr \<Longrightarrow> n < length log"
    and "n \<in> claimed rd \<Longrightarrow> n < d" "n \<in> claimed rd \<Longrightarrow> length log \<le> n + 1024"
    and "in_window (length log) n \<Longrightarrow>
        sequence (buf ! (n mod 1024)) = word_of_nat (next_sequence (claimed wr) (claimed rd) d n)"
    and "length log \<le> n \<Longrightarrow> n < 1024 \<Longrightarrow> sequence (buf ! n) = word_of_nat n"
    and "in_window (length log) n \<Longrightarrow> d \<le> n \<or> n \<in> claimed rd \<Longrightarrow> n \<notin> claimed wr \<Longrightarrow>
        cdata (buf ! (n mod 1024)) = log ! n"
    and "wr k = Some (n, True) \<Longrightarrow> cdata (buf ! (n mod 1024)) = log ! n"
    and "rd k = Some (n, Some v) \<Longrightarrow> v = log ! n"
  using assms unfolding slots_ok_def by blast+

lemma slots_ok_init: "length mem = 1024 \<Longrightarrow> slots_ok (queue_init mem) [] 0 Map.empty Map.empty"
  by (simp add: slots_ok_def sequence_after_init claimed_def exclusive_def in_window_def)

lemma in_window_wr: "slots_ok buf log d wr rd \<Longrightarrow> n \<in> claimed wr \<Longrightarrow> in_window (length log) n"
  using slots_okD(3,6,7) [of buf log d wr rd] unfolding in_window_def by fastforce

lemma in_window_rd: "slots_ok buf log d wr rd \<Longrightarrow> n \<in> claimed rd \<Longrightarrow> in_window (length log) n"
  using slots_okD(2,8,9) [of buf log d wr rd] unfolding in_window_def by fastforce

lemma same_slot_window: "in_window e m \<Longrightarrow> in_window e n \<Longrightarrow> m mod 1024 = n mod 1024 \<longleftrightarrow> m = n"
  unfolding in_window_def using same_slot [of "e - 1024" m n] by auto

lemma next_sequence_near: "next_sequence ws rs d n \<le> n + 1024 \<and> n \<le> next_sequence ws rs d n"
  by (simp_all add: next_sequence_def)

text \<open>A slot whose sequence is the next push position is free; it is not being read.\<close>

lemma free_slot:
  assumes ok: "slots_ok buf log d wr rd"
    and seq: "sequence (buf ! (length log mod 1024)) = word_of_nat (length log)"
  shows "length log < d + 1024" "length log - 1024 \<in> claimed rd \<Longrightarrow> length log < 1024"
proof -
  let ?e = "length log"
  have *: "?e - 1024 < d \<and> ?e - 1024 \<notin> claimed rd" if "1024 \<le> ?e"
  proof -
    let ?n = "?e - 1024"
    have w: "in_window ?e ?n" using that by (auto simp: in_window_def)
    have "?n mod 1024 = ?e mod 1024" using that by (simp add: mod_if)
    with slots_okD(10) [OF ok w] seq
    have "(word_of_nat (next_sequence (claimed wr) (claimed rd) d ?n) :: u64) = word_of_nat ?e" by simp
    then have "next_sequence (claimed wr) (claimed rd) d ?n = ?e"
      by (rule word_of_nat_eq_near)
        (use next_sequence_near [of "claimed wr" "claimed rd" d ?n] that in linarith)+
    with that show ?thesis by (auto simp: next_sequence_def split: if_splits)
  qed
  then show "?e < d + 1024" by linarith
  from * show "?e - 1024 \<in> claimed rd \<Longrightarrow> ?e < 1024" by linarith
qed

text \<open>A slot whose sequence is one above the next pop position holds a pushed value.\<close>

lemma full_slot:
  assumes ok: "slots_ok buf log d wr rd"
    and seq: "sequence (buf ! (d mod 1024)) = word_of_nat (Suc d)"
  shows "d < length log" "d \<notin> claimed wr"
proof -
  show d: "d < length log"
  proof (rule ccontr)
    assume "\<not> d < length log"
    with slots_okD(2) [OF ok] have e: "length log = d" by simp
    show False
    proof (cases "d < 1024")
      case True
      with slots_okD(11) [OF ok, of d] seq e show False by simp
    next
      case False
      let ?n = "d - 1024"
      have w: "in_window (length log) ?n" using False e by (auto simp: in_window_def)
      have "?n mod 1024 = d mod 1024" using False by (simp add: mod_if)
      with slots_okD(10) [OF ok w] seq
      have "(word_of_nat (Suc d) :: u64) = word_of_nat (next_sequence (claimed wr) (claimed rd) d ?n)" by simp
      then have "Suc d = next_sequence (claimed wr) (claimed rd) d ?n"
        by (rule word_of_nat_eq_near)
          (use next_sequence_near [of "claimed wr" "claimed rd" d ?n] slots_okD(6) [OF ok, of ?n] False
           in \<open>auto simp: next_sequence_def\<close>)
      with False show False using next_sequence_near [of "claimed wr" "claimed rd" d ?n] by linarith
    qed
  qed
  have w: "in_window (length log) d" using d slots_okD(3) [OF ok] by (simp add: in_window_def)
  with slots_okD(10) [OF ok w] seq
  show "d \<notin> claimed wr" by (auto simp: next_sequence_def)
qed

text \<open>The slots that these checks saw are not the slot of any claim.\<close>

lemma claimed_not_free:
  assumes ok: "slots_ok buf log d wr rd" and n: "n \<in> claimed wr \<union> claimed rd"
    and seq: "sequence (buf ! (length log mod 1024)) = word_of_nat (length log)"
  shows "n mod 1024 \<noteq> length log mod 1024"
proof
  assume eq: "n mod 1024 = length log mod 1024"
  from n in_window_wr [OF ok] in_window_rd [OF ok] have w: "in_window (length log) n" by blast
  then have "n + 1024 = length log"
    using eq mod_eq_near [of "n + 1024" 1024 "length log"] mod_eq_near [of n 1024 "length log"]
    by (fastforce simp: in_window_def)
  then have "length log - 1024 = n" "1024 \<le> length log" by simp_all
  with n free_slot [OF ok seq] slots_okD(6) [OF ok, of n] show False by auto
qed

lemma claimed_not_full:
  assumes ok: "slots_ok buf log d wr rd" and n: "n \<in> claimed wr \<union> claimed rd"
    and seq: "sequence (buf ! (d mod 1024)) = word_of_nat (Suc d)"
  shows "n mod 1024 \<noteq> d mod 1024"
proof -
  from n in_window_wr [OF ok] in_window_rd [OF ok] have w: "in_window (length log) n" by blast
  moreover have "in_window (length log) d"
    using full_slot(1) [OF ok seq] slots_okD(3) [OF ok] by (simp add: in_window_def)
  moreover have "n \<noteq> d" using n full_slot(2) [OF ok seq] slots_okD(8) [OF ok, of n] by auto
  ultimately show ?thesis using same_slot_window by blast
qed

section \<open>The steps of the protocol\<close>

lemma slots_claim_push:
  assumes ok: "slots_ok buf log d wr rd" and k: "wr k = None"
    and seq: "sequence (buf ! (length log mod 1024)) = word_of_nat (length log)"
  shows "slots_ok buf (log @ [v]) d (wr(k \<mapsto> (length log, False))) rd"
proof -
  let ?e = "length log"
  note D = slots_okD [OF ok]
  have rd: "Suc ?e \<le> n + 1024" if "n \<in> claimed rd" for n
    using D(9) [OF that] free_slot(2) [OF ok seq] that
    by (cases "n = ?e - 1024") auto
  have win: "in_window ?e n \<or> n = ?e" if "in_window (Suc ?e) n" for n
    using that by (auto simp: in_window_def)
  have lt: "in_window ?e n \<Longrightarrow> n < ?e" for n by (simp add: in_window_def)
  note [simp] = claimed_claim [of wr k, OF k]
  show ?thesis unfolding slots_ok_def length_append list.size add_0_right One_nat_def add_Suc_right
  proof (intro conjI allI ballI impI)
    show "Suc ?e \<le> d + 1024" using free_slot(1) [OF ok seq] by simp
    show "exclusive (wr(k \<mapsto> (?e, False)))" using D(4,7) by (intro exclusive_claim) blast+
  next
    fix n assume "in_window (Suc ?e) n"
    with win [OF this] D(10) [of n] seq show "sequence (buf ! (n mod 1024)) =
        word_of_nat (next_sequence (claimed (wr(k \<mapsto> (?e, False)))) (claimed rd) d n)"
      by (auto simp: next_sequence_def dest: lt)
  next
    fix n assume "in_window (Suc ?e) n" "d \<le> n \<or> n \<in> claimed rd"
      "n \<notin> claimed (wr(k \<mapsto> (?e, False)))"
    with win [of n] D(12) [of n] show "cdata (buf ! (n mod 1024)) = (log @ [v]) ! n"
      by (auto simp: nth_append dest: lt)
  next
    fix k' n assume "(wr(k \<mapsto> (?e, False))) k' = Some (n, True)"
    then have "wr k' = Some (n, True)" by (auto split: if_splits)
    with D(13) D(7) [OF claimedI] show "cdata (buf ! (n mod 1024)) = (log @ [v]) ! n"
      by (simp add: nth_append)
  next
    fix k' n w assume "rd k' = Some (n, Some w)"
    with D(14) D(8) [OF claimedI] D(2) show "w = (log @ [v]) ! n"
      by (fastforce simp: nth_append)
  qed (use D rd in \<open>auto intro: le_SucI less_SucI\<close>)
qed

lemma slots_write:
  assumes ok: "slots_ok buf log d wr rd" and k: "wr k = Some (n, b)"
  shows "slots_ok (put_data (word_of_nat n) (log ! n) buf) log d (wr(k \<mapsto> (n, True))) rd"
proof -
  note D = slots_okD [OF ok]
  note n = claimedI [of wr k, OF k]
  note [simp] = claimed_keep [of wr k, OF k]
  have other: "m mod 1024 \<noteq> n mod 1024" if "in_window (length log) m" "m \<noteq> n" for m
    using that in_window_wr [OF ok n] same_slot_window by blast
  show ?thesis unfolding slots_ok_def
  proof (intro conjI allI ballI impI)
    show "exclusive (wr(k \<mapsto> (n, True)))" using D(4) k by (rule exclusive_keep)
  next
    fix m assume "in_window (length log) m" "d \<le> m \<or> m \<in> claimed rd"
      "m \<notin> claimed (wr(k \<mapsto> (n, True)))"
    with D(1,12) n other [of m] show "cdata (put_data (word_of_nat n) (log ! n) buf ! (m mod 1024)) = log ! m"
      by (auto simp: put_data_nth)
  next
    fix k' m assume "(wr(k \<mapsto> (n, True))) k' = Some (m, True)"
    then consider "m = n" | "wr k' = Some (m, True)" "m \<noteq> n" by (cases "k' = k"; cases "m = n") auto
    then show "cdata (put_data (word_of_nat n) (log ! n) buf ! (m mod 1024)) = log ! m"
    proof cases
      case 1 with D(1) show ?thesis by (simp add: put_data_nth)
    next
      case 2
      with D(1,13) other [OF in_window_wr [OF ok claimedI]] show ?thesis
        by (simp add: put_data_nth)
    qed
  qed (use D in simp_all)
qed

lemma slots_publish:
  assumes ok: "slots_ok buf log d wr rd" and k: "wr k = Some (n, True)"
  shows "slots_ok (put_sequence (word_of_nat n) (word_of_nat n + 1) buf) log d (wr(k := None)) rd"
proof -
  note D = slots_okD [OF ok]
  note n = claimedI [of wr k, OF k]
  have cl: "claimed (wr(k := None)) = claimed wr - {n}" using D(4) k by (rule claimed_drop)
  have other: "m mod 1024 \<noteq> n mod 1024" if "in_window (length log) m" "m \<noteq> n" for m
    using that in_window_wr [OF ok n] same_slot_window by blast
  show ?thesis unfolding slots_ok_def cl
  proof (intro conjI allI ballI impI)
    show "exclusive (wr(k := None))" using D(4) by (rule exclusive_drop)
  next
    fix m assume w: "in_window (length log) m"
    show "sequence (put_sequence (word_of_nat n) (word_of_nat n + 1) buf ! (m mod 1024)) =
        word_of_nat (next_sequence (claimed wr - {n}) (claimed rd) d m)"
    proof (cases "m = n")
      case True
      with D(1) D(6) [OF n] show ?thesis by (simp add: put_sequence_nth next_sequence_def add.commute)
    next
      case False
      with D(1) D(10) [OF w] other [OF w] show ?thesis by (simp add: put_sequence_nth next_sequence_def)
    qed
  next
    fix m assume m: "length log \<le> m" "m < 1024"
    with D(7) [OF n] have "m mod 1024 \<noteq> n mod 1024" by simp
    with m D(1) D(11) [OF m] put_sequence_nth [OF D(1), of n "word_of_nat n + 1" m]
    show "sequence (put_sequence (word_of_nat n) (word_of_nat n + 1) buf ! m) = word_of_nat m" by simp
  next
    fix m assume "in_window (length log) m" "d \<le> m \<or> m \<in> claimed rd" "m \<notin> claimed wr - {n}"
    with D(12,13) k show "cdata (put_sequence (word_of_nat n) (word_of_nat n + 1) buf ! (m mod 1024)) = log ! m"
      by (cases "m = n") simp_all
  qed (use D in \<open>auto split: if_splits\<close>)
qed

lemma slots_claim_pop:
  assumes ok: "slots_ok buf log d wr rd" and k: "rd k = None"
    and seq: "sequence (buf ! (d mod 1024)) = word_of_nat (Suc d)"
  shows "slots_ok buf log (Suc d) wr (rd(k \<mapsto> (d, None)))"
proof -
  note D = slots_okD [OF ok]
  note full = full_slot [OF ok seq]
  note [simp] = claimed_claim [of rd k, OF k]
  show ?thesis unfolding slots_ok_def
  proof (intro conjI allI ballI impI)
    show "exclusive (rd(k \<mapsto> (d, None)))" using D(5,8) by (intro exclusive_claim) blast+
  next
    fix n assume "n \<in> claimed wr"
    with D(6) full(2) show "Suc d \<le> n" by (metis Suc_leI le_neq_implies_less)
  next
    fix n assume "in_window (length log) n"
    from D(10) [OF this] show "sequence (buf ! (n mod 1024)) = word_of_nat
        (next_sequence (claimed wr) (claimed (rd(k \<mapsto> (d, None)))) (Suc d) n)"
      by (auto simp: next_sequence_def less_Suc_eq)
  next
    fix n assume "in_window (length log) n" "Suc d \<le> n \<or> n \<in> claimed (rd(k \<mapsto> (d, None)))"
      "n \<notin> claimed wr"
    with D(12) [of n] show "cdata (buf ! (n mod 1024)) = log ! n" by auto
  qed (use D full in \<open>auto split: if_splits intro: less_SucI\<close>)
qed

lemma slots_read:
  assumes ok: "slots_ok buf log d wr rd" and k: "rd k = Some (n, x)"
  shows "cdata (buf ! (n mod 1024)) = log ! n"
    and "slots_ok buf log d wr (rd(k \<mapsto> (n, Some (log ! n))))"
proof -
  note D = slots_okD [OF ok]
  note n = claimedI [of rd k, OF k]
  note [simp] = claimed_keep [of rd k, OF k]
  show "cdata (buf ! (n mod 1024)) = log ! n"
    using D(6) [of n] D(8) [OF n] n by (intro D(12) in_window_rd [OF ok]) auto
  show "slots_ok buf log d wr (rd(k \<mapsto> (n, Some (log ! n))))"
    unfolding slots_ok_def
  proof (intro conjI allI ballI impI)
    show "exclusive (rd(k \<mapsto> (n, Some (log ! n))))" using D(5) k by (rule exclusive_keep)
  qed (use D in \<open>auto split: if_splits\<close>)
qed

lemma slots_release:
  assumes ok: "slots_ok buf log d wr rd" and k: "rd k = Some (n, x)"
  shows "slots_ok (put_sequence (word_of_nat n) (word_of_nat n + kCapacity) buf) log d wr (rd(k := None))"
proof -
  note D = slots_okD [OF ok]
  note n = claimedI [of rd k, OF k]
  have cl: "claimed (rd(k := None)) = claimed rd - {n}" using D(5) k by (rule claimed_drop)
  have cap: "word_of_nat n + kCapacity = (word_of_nat (n + 1024) :: u64)" by (simp add: kCapacity_def)
  have nw: "n \<notin> claimed wr" using D(6) [of n] D(8) [OF n] by auto
  have other: "m mod 1024 \<noteq> n mod 1024" if "in_window (length log) m" "m \<noteq> n" for m
    using that in_window_rd [OF ok n] same_slot_window by blast
  show ?thesis unfolding slots_ok_def cl cap
  proof (intro conjI allI ballI impI)
    show "exclusive (rd(k := None))" using D(5) by (rule exclusive_drop)
  next
    fix m assume w: "in_window (length log) m"
    show "sequence (put_sequence (word_of_nat n) (word_of_nat (n + 1024)) buf ! (m mod 1024)) =
        word_of_nat (next_sequence (claimed wr) (claimed rd - {n}) d m)"
    proof (cases "m = n")
      case True
      with D(1) D(8) [OF n] nw show ?thesis by (simp add: put_sequence_nth next_sequence_def)
    next
      case False
      with D(1) D(10) [OF w] other [OF w] show ?thesis by (simp add: put_sequence_nth next_sequence_def)
    qed
  next
    fix m assume m: "length log \<le> m" "m < 1024"
    with D(2) D(8) [OF n] have "m mod 1024 \<noteq> n mod 1024" by simp
    with m D(1) D(11) [OF m] put_sequence_nth [OF D(1), of n "word_of_nat (n + 1024)" m]
    show "sequence (put_sequence (word_of_nat n) (word_of_nat (n + 1024)) buf ! m) = word_of_nat m" by simp
  qed (use D in \<open>auto split: if_splits\<close>)
qed

end
