(* ===== verification/Release_Acquire.thy ===== *)
theory Release_Acquire
  imports Prelude
begin

text \<open>
  The part of the C++ memory model that the benchmarks rely on, as an operational semantics
  with views. A location has a history of messages at timestamps (its modification order);
  a thread has a view, the newest message of each location it must not go behind. A load may
  return any message that is not older than the view, so a stale value is possible; an
  acquire load takes over the view that a release store attached to its message. A plain
  access races with a plain access that its thread does not know to have happened before.

  A step is a function of the timestamp it picks: the scheduler picks the thread and the
  timestamp, and a timestamp that the memory model does not allow leaves the state as it is.
\<close>

section \<open>Views and messages\<close>

text \<open>The \<open>std::memory_order\<close>s that are used; a load is not \<open>Release\<close>, a store not \<open>Acquire\<close>.\<close>

datatype memory_order = Relaxed | Acquire | Release

text \<open>
  The newest message seen of each location, and the plain loads known to have happened
  (the \<open>n\<close>-th plain load of a location, counted over all threads).
\<close>

record 'l view =
  seen :: "'l \<Rightarrow> nat"
  loads_seen :: "('l \<times> nat) set"

record 'l message =
  m_value :: u64
  m_view :: "'l view"

record 'l memory =
  written :: "'l \<Rightarrow> (nat \<times> 'l message) list"
  loads_done :: "'l \<Rightarrow> nat"
  raced :: bool

definition initial_view :: "'l view" where
  "initial_view = \<lparr>seen = (\<lambda>_. 0), loads_seen = {}\<rparr>"

definition join_views :: "'l view \<Rightarrow> 'l view \<Rightarrow> 'l view" where
  "join_views V W = \<lparr>seen = (\<lambda>l. max (seen V l) (seen W l)), loads_seen = loads_seen V \<union> loads_seen W\<rparr>"

definition observe :: "'l \<Rightarrow> nat \<Rightarrow> 'l view \<Rightarrow> 'l view" where
  "observe l t V = V\<lparr>seen := (seen V)(l := max (seen V l) t)\<rparr>"

text \<open>What \<open>main\<close> has written before it starts the threads, and each of them has seen.\<close>

definition initial_memory :: "('l \<Rightarrow> u64) \<Rightarrow> 'l memory" where
  "initial_memory value =
     \<lparr>written = (\<lambda>l. [(0, \<lparr>m_value = value l, m_view = initial_view\<rparr>)]), loads_done = (\<lambda>_. 0), raced = False\<rparr>"

section \<open>Accesses\<close>

text \<open>\<open>load(memory_order_acquire)\<close>, or \<open>memory_order_relaxed\<close>, of the message at \<open>t\<close>.\<close>

definition load_at :: "memory_order \<Rightarrow> 'l \<Rightarrow> nat \<Rightarrow> 'l view \<Rightarrow> 'l memory \<Rightarrow> (u64 \<times> 'l view) option" where
  "load_at order l t V M =
     (case map_of (written M l) t of
        None \<Rightarrow> None
      | Some msg \<Rightarrow>
          if t < seen V l then None
          else Some (m_value msg, observe l t (if order = Acquire then join_views V (m_view msg) else V)))"

text \<open>\<open>store(v, memory_order_release)\<close>, or \<open>memory_order_relaxed\<close>, at the timestamp \<open>t\<close>.\<close>

definition store_at :: "memory_order \<Rightarrow> 'l \<Rightarrow> u64 \<Rightarrow> nat \<Rightarrow> 'l view \<Rightarrow> 'l memory \<Rightarrow> ('l view \<times> 'l memory) option" where
  "store_at order l v t V M =
     (if t \<le> seen V l \<or> map_of (written M l) t \<noteq> None then None
      else (let V' = observe l t V;
                msg = \<lparr>m_value = v, m_view = (if order = Release then V' else observe l t initial_view)\<rparr>
            in Some (V', M\<lparr>written := (written M)(l := (t, msg) # written M l)\<rparr>)))"

text \<open>
  \<open>compare_exchange_weak\<close> with \<open>memory_order_relaxed\<close> where it succeeds: it reads the message at
  \<open>t\<close> and writes the one right after it. Where it fails it is a relaxed load.
\<close>

definition exchange_at :: "'l \<Rightarrow> u64 \<Rightarrow> u64 \<Rightarrow> nat \<Rightarrow> 'l view \<Rightarrow> 'l memory \<Rightarrow> ('l view \<times> 'l memory) option" where
  "exchange_at l expected desired t V M =
     (case map_of (written M l) t of
        None \<Rightarrow> None
      | Some msg \<Rightarrow>
          if t < seen V l \<or> m_value msg \<noteq> expected \<or> map_of (written M l) (Suc t) \<noteq> None then None
          else Some (observe l (Suc t) V,
            M\<lparr>written := (written M)(l :=
              (Suc t, \<lparr>m_value = desired, m_view = observe l (Suc t) (m_view msg)\<rparr>) # written M l)\<rparr>))"

definition unseen_store :: "'l \<Rightarrow> 'l view \<Rightarrow> 'l memory \<Rightarrow> bool" where
  "unseen_store l V M \<longleftrightarrow> list_ex (\<lambda>(t, _). seen V l < t) (written M l)"

definition unseen_load :: "'l \<Rightarrow> 'l view \<Rightarrow> 'l memory \<Rightarrow> bool" where
  "unseen_load l V M \<longleftrightarrow> list_ex (\<lambda>n. (l, n) \<notin> loads_seen V) [0..<loads_done M l]"

text \<open>Plain accesses: undefined, recorded in \<open>raced\<close>, if a conflicting access is not known to be over.\<close>

definition plain_load :: "'l \<Rightarrow> nat \<Rightarrow> 'l view \<Rightarrow> 'l memory \<Rightarrow> (u64 \<times> 'l view \<times> 'l memory) option" where
  "plain_load l t V M =
     (case load_at Relaxed l t V M of
        None \<Rightarrow> None
      | Some (v, V') \<Rightarrow>
          Some (v, V'\<lparr>loads_seen := insert (l, loads_done M l) (loads_seen V')\<rparr>,
                M\<lparr>loads_done := (loads_done M)(l := Suc (loads_done M l)), raced := raced M \<or> unseen_store l V M\<rparr>))"

definition plain_store :: "'l \<Rightarrow> u64 \<Rightarrow> nat \<Rightarrow> 'l view \<Rightarrow> 'l memory \<Rightarrow> ('l view \<times> 'l memory) option" where
  "plain_store l v t V M =
     (case store_at Relaxed l v t V M of
        None \<Rightarrow> None
      | Some (V', M') \<Rightarrow> Some (V', M'\<lparr>raced := raced M \<or> unseen_store l V M \<or> unseen_load l V M\<rparr>))"

section \<open>What a view covers\<close>

text \<open>All stores, or all plain loads, of a location are known.\<close>

definition covers :: "'l memory \<Rightarrow> 'l \<Rightarrow> 'l view \<Rightarrow> bool" where
  "covers M l V \<longleftrightarrow> (\<forall>(t, _)\<in>set (written M l). t \<le> seen V l)"

definition knows_loads :: "'l memory \<Rightarrow> 'l \<Rightarrow> 'l view \<Rightarrow> bool" where
  "knows_loads M l V \<longleftrightarrow> (\<forall>n<loads_done M l. (l, n) \<in> loads_seen V)"

text \<open>The newest message of a location has the value \<open>v\<close>.\<close>

definition holds :: "'l memory \<Rightarrow> 'l \<Rightarrow> u64 \<Rightarrow> bool" where
  "holds M l v \<longleftrightarrow> (\<exists>t msg. map_of (written M l) t = Some msg \<and> m_value msg = v \<and> (\<forall>(t', _)\<in>set (written M l). t' \<le> t))"

definition view_le :: "'l view \<Rightarrow> 'l view \<Rightarrow> bool" where
  "view_le V W \<longleftrightarrow> (\<forall>l. seen V l \<le> seen W l) \<and> loads_seen V \<subseteq> loads_seen W"

lemma view_le_refl [simp]: "view_le V V"
  by (simp add: view_le_def)

lemma view_le_trans: "view_le U V \<Longrightarrow> view_le V W \<Longrightarrow> view_le U W"
  unfolding view_le_def by (meson order_trans)

lemma view_le_observe [simp]: "view_le U V \<Longrightarrow> view_le U (observe l t V)"
  by (simp add: view_le_def observe_def le_max_iff_disj)

lemma view_le_join [simp]: "view_le V (join_views V W)" "view_le W (join_views V W)"
  by (simp_all add: view_le_def join_views_def)

lemma seen_observe: "t \<le> seen (observe l t V) l"
  by (simp add: observe_def)

lemma covers_mono: "covers M l V \<Longrightarrow> view_le V W \<Longrightarrow> covers M l W"
  unfolding covers_def view_le_def by (fastforce intro: order_trans)

lemma knows_loads_mono: "knows_loads M l V \<Longrightarrow> view_le V W \<Longrightarrow> knows_loads M l W"
  by (auto simp: knows_loads_def view_le_def)

lemma covers_no_race: "covers M l V \<Longrightarrow> \<not> unseen_store l V M"
  by (auto simp: covers_def unseen_store_def list_ex_iff)

lemma knows_no_race: "knows_loads M l V \<Longrightarrow> \<not> unseen_load l V M"
  by (auto simp: knows_loads_def unseen_load_def list_ex_iff)

text \<open>What is known of a location depends on that location only.\<close>

lemma covers_cong: "written M' l = written M l \<Longrightarrow> covers M' l W = covers M l W"
  by (simp add: covers_def)

lemma holds_cong: "written M' l = written M l \<Longrightarrow> holds M' l v = holds M l v"
  by (simp add: holds_def)

lemma knows_loads_cong: "loads_done M' l = loads_done M l \<Longrightarrow> knows_loads M' l W = knows_loads M l W"
  by (simp add: knows_loads_def)

section \<open>What an access does\<close>

lemma load_atD:
  assumes "load_at order l t V M = Some (v, V')"
  obtains msg where "map_of (written M l) t = Some msg" "seen V l \<le> t" "v = m_value msg" "t \<le> seen V' l"
    "view_le V V'" "order = Acquire \<Longrightarrow> view_le (m_view msg) V'"
proof -
  from assms obtain msg where msg: "map_of (written M l) t = Some msg" "seen V l \<le> t" "v = m_value msg"
    "V' = observe l t (if order = Acquire then join_views V (m_view msg) else V)"
    by (auto simp: load_at_def not_less split: option.splits if_splits)
  then show thesis
    by (intro that [OF msg(1-3)]) (auto simp: seen_observe)
qed

lemma store_atD:
  assumes "store_at order l v t V M = Some (V', M')"
  shows "seen V l < t" "map_of (written M l) t = None" "V' = observe l t V" "view_le V V'"
    "loads_done M' = loads_done M" "raced M' = raced M"
    "written M' = (written M)(l := (t, \<lparr>m_value = v, m_view = (if order = Release then V' else observe l t initial_view)\<rparr>) # written M l)"
  using assms by (auto simp: store_at_def Let_def split: if_splits)

lemma exchange_atD:
  assumes "exchange_at l expected desired t V M = Some (V', M')"
  obtains msg where "map_of (written M l) t = Some msg" "m_value msg = expected" "map_of (written M l) (Suc t) = None"
    "view_le V V'" "loads_done M' = loads_done M" "raced M' = raced M"
    "written M' = (written M)(l := (Suc t, \<lparr>m_value = desired, m_view = observe l (Suc t) (m_view msg)\<rparr>) # written M l)"
proof -
  from assms obtain msg where "map_of (written M l) t = Some msg" "m_value msg = expected"
    "map_of (written M l) (Suc t) = None" "V' = observe l (Suc t) V"
    "M' = M\<lparr>written := (written M)(l := (Suc t, \<lparr>m_value = desired, m_view = observe l (Suc t) (m_view msg)\<rparr>) # written M l)\<rparr>"
    by (auto simp: exchange_at_def split: option.splits if_splits)
  then show thesis by (intro that [of msg]) simp_all
qed

text \<open>
  A location that is only written by exchanges of a number by its successor: the history is
  \<open>0, 1, \<dots>, n\<close>, and an exchange is one of the newest value.
\<close>

definition counter_ok :: "'l memory \<Rightarrow> 'l \<Rightarrow> nat \<Rightarrow> bool" where
  "counter_ok M l n \<longleftrightarrow> (\<forall>t. map_of (written M l) t \<noteq> None \<longleftrightarrow> t \<le> n) \<and>
     (\<forall>t m. map_of (written M l) t = Some m \<longrightarrow> m_value m = word_of_nat t)"

lemma counter_ok_cong: "written M' l = written M l \<Longrightarrow> counter_ok M' l n = counter_ok M l n"
  by (simp add: counter_ok_def)

lemma counter_ok_initial: "value l = 0 \<Longrightarrow> counter_ok (initial_memory value) l 0"
  by (auto simp: counter_ok_def initial_memory_def split: if_splits)

lemma counter_exchange:
  assumes "exchange_at l v (v + 1) t V M = Some (V', M')" "counter_ok M l n"
  shows "v = word_of_nat n" "counter_ok M' l (Suc n)"
proof -
  obtain msg where ex: "map_of (written M l) t = Some msg" "m_value msg = v" "map_of (written M l) (Suc t) = None"
    "written M' = (written M)(l := (Suc t, \<lparr>m_value = v + 1, m_view = observe l (Suc t) (m_view msg)\<rparr>) # written M l)"
    using exchange_atD [OF assms(1)] by metis
  from assms(2) have all: "map_of (written M l) t \<noteq> None \<longleftrightarrow> t \<le> n" for t by (simp add: counter_ok_def)
  from all [of t] all [of "Suc t"] ex(1,3) have "t = n" by simp
  with ex(1,2) assms(2) show v: "v = word_of_nat n" by (auto simp: counter_ok_def)
  show "counter_ok M' l (Suc n)"
    using assms(2) \<open>t = n\<close> by (auto simp: counter_ok_def ex(4) v le_Suc_eq add.commute)
qed

text \<open>Where all stores are known, a load returns the newest message.\<close>

lemma load_newest:
  assumes load: "load_at order l t V M = Some (v', V')" and known: "covers M l V" and newest: "holds M l v"
  shows "v' = v"
proof -
  obtain msg where msg: "map_of (written M l) t = Some msg" "seen V l \<le> t" "v' = m_value msg"
    using load_atD [OF load] by metis
  obtain n new where new: "map_of (written M l) n = Some new" "m_value new = v" "\<forall>(t', _)\<in>set (written M l). t' \<le> n"
    using newest by (auto simp: holds_def)
  have "t \<le> n" using new(3) map_of_SomeD [OF msg(1)] by auto
  moreover have "n \<le> seen V l" using known map_of_SomeD [OF new(1)] by (auto simp: covers_def)
  ultimately have "t = n" using msg(2) by simp
  with msg(1,3) new(1,2) show ?thesis by simp
qed

text \<open>Where a value occurs once in the history, to read the newest value is to know all stores.\<close>

lemma load_covers:
  assumes load: "load_at order l t V M = Some (v, V')" and newest: "holds M l v"
    and once: "distinct (map (m_value \<circ> snd) (written M l))"
  shows "covers M l V'"
proof -
  obtain msg where msg: "map_of (written M l) t = Some msg" "v = m_value msg" "t \<le> seen V' l"
    using load_atD [OF load] by metis
  obtain n new where new: "map_of (written M l) n = Some new" "m_value new = v" "\<forall>(t', _)\<in>set (written M l). t' \<le> n"
    using newest by (auto simp: holds_def)
  have "(t, msg) = (n, new)"
    using once msg(2) new(2) by (intro inj_onD [OF conjunct2 [OF once [unfolded distinct_map]]])
      (simp_all add: map_of_SomeD msg(1) new(1))
  with new(3) msg(3) show ?thesis by (fastforce simp: covers_def intro: order_trans)
qed

text \<open>A store is the newest message of its location, where all were known.\<close>

lemma store_newest:
  assumes "store_at order l v t V M = Some (V', M')" "covers M l V"
  shows "covers M' l V'" "holds M' l v"
proof -
  note st = store_atD [OF assms(1)]
  have le: "\<forall>(t', _)\<in>set (written M l). t' \<le> t" using assms(2) st(1) by (fastforce simp: covers_def)
  then show "covers M' l V'" using st(3) by (auto simp: covers_def st(7) observe_def)
  show "holds M' l v" unfolding holds_def st(7) using le by (intro exI [of _ t]) auto
qed

text \<open>The storing thread goes on to know what it knew; other locations are as they were.\<close>

lemma covers_own_store:
  assumes "store_at order l v t V M = Some (V', M')" "covers M l' V"
  shows "covers M' l' V'"
  using assms store_newest(1) [OF assms(1)] covers_mono [OF assms(2) store_atD(4) [OF assms(1)]]
    covers_cong [of M' l' M] store_atD(7) [OF assms(1)] by (cases "l' = l") auto

lemma knows_loads_own_store:
  "store_at order l v t V M = Some (V', M') \<Longrightarrow> knows_loads M l' V \<Longrightarrow> knows_loads M' l' V'"
  using store_atD(4,5) knows_loads_mono knows_loads_cong by metis

lemma holds_other_store:
  "store_at order l v t V M = Some (V', M') \<Longrightarrow> l' \<noteq> l \<Longrightarrow> holds M' l' w = holds M l' w"
  by (intro holds_cong) (simp add: store_atD(7))

text \<open>Plain accesses that do not race.\<close>

lemma plain_loadD:
  assumes load: "plain_load l t V M = Some (v, V', M')" and known: "covers M l V" and newest: "holds M l w"
  shows "v = w" "view_le V V'" "written M' = written M" "raced M' = raced M"
    "loads_done M' = (loads_done M)(l := Suc (loads_done M l))" "knows_loads M l V \<Longrightarrow> knows_loads M' l V'"
proof -
  from load obtain V1 where at: "load_at Relaxed l t V M = Some (v, V1)"
    and V': "V' = V1\<lparr>loads_seen := insert (l, loads_done M l) (loads_seen V1)\<rparr>"
    and M': "M' = M\<lparr>loads_done := (loads_done M)(l := Suc (loads_done M l)), raced := raced M \<or> unseen_store l V M\<rparr>"
    by (auto simp: plain_load_def split: option.splits)
  show "v = w" by (rule load_newest [OF at known newest])
  have "view_le V V1" using load_atD [OF at] by metis
  moreover have "view_le V1 V'" by (auto simp: V' view_le_def)
  ultimately show "view_le V V'" by (rule view_le_trans)
  show "written M' = written M" "raced M' = raced M"
    "loads_done M' = (loads_done M)(l := Suc (loads_done M l))"
    using covers_no_race [OF known] by (simp_all add: M')
  assume "knows_loads M l V"
  with \<open>view_le V V1\<close> show "knows_loads M' l V'" by (auto simp: knows_loads_def view_le_def V' M' less_Suc_eq)
qed

lemma plain_storeD:
  assumes "plain_store l v t V M = Some (V', M')" "covers M l V" "knows_loads M l V"
  shows "store_at Relaxed l v t V M = Some (V', M')"
  using assms covers_no_race [OF assms(2)] knows_no_race [OF assms(3)]
  by (auto simp: plain_store_def dest: store_atD(6) split: option.splits)

section \<open>Up-to-date accesses\<close>

text \<open>
  The newest message is always there to be read, and there is always room for a newer one:
  views only name messages that exist.
\<close>

definition newest :: "'l memory \<Rightarrow> 'l \<Rightarrow> nat" where
  "newest M l = Max (fst ` set (written M l))"

definition view_in :: "'l memory \<Rightarrow> 'l view \<Rightarrow> bool" where
  "view_in M V \<longleftrightarrow> (\<forall>l. seen V l \<in> fst ` set (written M l))"

definition views_in :: "'l memory \<Rightarrow> bool" where
  "views_in M \<longleftrightarrow> view_in M initial_view \<and> (\<forall>l. \<forall>(t, m)\<in>set (written M l). view_in M (m_view m))"

lemma view_in_cong: "written M' = written M \<Longrightarrow> view_in M' = view_in M" "written M' = written M \<Longrightarrow> views_in M' = views_in M"
  by (simp_all add: fun_eq_iff view_in_def views_in_def)

lemma view_in_initial: "view_in (initial_memory value) initial_view" "views_in (initial_memory value)"
  by (simp_all add: views_in_def view_in_def initial_view_def initial_memory_def)

lemma view_in_observe: "view_in M V \<Longrightarrow> t \<in> fst ` set (written M l) \<Longrightarrow> view_in M (observe l t V)"
  by (simp add: view_in_def observe_def max_def)

lemma view_in_join: "view_in M V \<Longrightarrow> view_in M W \<Longrightarrow> view_in M (join_views V W)"
  by (simp add: view_in_def join_views_def max_def)

lemma load_view_in:
  assumes load: "load_at order l t V M = Some (v, V')" and wf: "views_in M" "view_in M V"
  shows "view_in M V'"
proof -
  from load obtain msg where msg: "map_of (written M l) t = Some msg"
    "V' = observe l t (if order = Acquire then join_views V (m_view msg) else V)"
    by (auto simp: load_at_def split: option.splits if_splits)
  from map_of_SomeD [OF msg(1)] wf(1) have "view_in M (m_view msg)" "t \<in> fst ` set (written M l)"
    by (force simp: views_in_def)+
  with wf(2) show ?thesis by (simp add: msg(2) view_in_observe view_in_join)
qed

lemma store_view_in:
  assumes store: "store_at order l v t V M = Some (V', M')" and wf: "views_in M" "view_in M V"
  shows "views_in M'" "view_in M' V'" "view_in M W \<Longrightarrow> view_in M' W"
proof -
  note st = store_atD [OF store]
  have keep: "view_in M' W" if "view_in M W" for W
    using that by (auto simp: view_in_def st(7))
  have here: "t \<in> fst ` set (written M' l)" by (simp add: st(7))
  have init: "view_in M' initial_view" using wf(1) by (intro keep) (simp add: views_in_def)
  show "view_in M' V'" unfolding st(3) by (rule view_in_observe [OF keep [OF wf(2)] here])
  have "view_in M' (m_view m)" if "(t', m) \<in> set (written M l')" for l' t' m
    using that wf(1) by (intro keep) (auto simp: views_in_def)
  with \<open>view_in M' V'\<close> init show "views_in M'"
    unfolding views_in_def by (auto simp: st(7) view_in_observe [OF init here, unfolded st(7)])
  show "view_in M W \<Longrightarrow> view_in M' W" by (rule keep)
qed

lemma exchange_view_in:
  assumes ex: "exchange_at l x y t V M = Some (V', M')" and wf: "views_in M" "view_in M V"
  shows "views_in M'" "view_in M' V'" "view_in M W \<Longrightarrow> view_in M' W"
proof -
  from ex obtain msg where msg: "map_of (written M l) t = Some msg" "V' = observe l (Suc t) V"
    "written M' = (written M)(l := (Suc t, \<lparr>m_value = y, m_view = observe l (Suc t) (m_view msg)\<rparr>) # written M l)"
    by (auto simp: exchange_at_def split: option.splits if_splits)
  have keep: "view_in M' W" if "view_in M W" for W
    using that by (auto simp: view_in_def msg(3))
  have here: "Suc t \<in> fst ` set (written M' l)" by (simp add: msg(3))
  show "view_in M' V'" unfolding msg(2) by (rule view_in_observe [OF keep [OF wf(2)] here])
  have old: "view_in M' (m_view m)" if "(t', m) \<in> set (written M l')" for l' t' m
    using that wf(1) by (intro keep) (auto simp: views_in_def)
  have new: "view_in M' (observe l (Suc t) (m_view msg))"
    by (rule view_in_observe [OF old [OF map_of_SomeD [OF msg(1)]] here])
  have "view_in M' initial_view" using wf(1) by (intro keep) (simp add: views_in_def)
  then show "views_in M'"
    using old new unfolding views_in_def by (auto simp: msg(3))
  show "view_in M W \<Longrightarrow> view_in M' W" by (rule keep)
qed

lemma plain_load_view_in:
  assumes "plain_load l t V M = Some (v, V', M')" "views_in M" "view_in M V"
  shows "views_in M'" "view_in M' V'" "view_in M' W = view_in M W"
proof -
  from assms(1) obtain V1 where at: "load_at Relaxed l t V M = Some (v, V1)" and V': "seen V' = seen V1" and M': "written M' = written M"
    by (auto simp: plain_load_def split: option.splits)
  from load_view_in [OF at assms(2,3)] V' show "view_in M' V'" by (simp add: view_in_def M')
  show "views_in M'" "view_in M' W = view_in M W" using assms(2) by (simp_all add: view_in_cong [OF M'])
qed

lemma plain_store_view_in:
  assumes "plain_store l v t V M = Some (V', M')" "views_in M" "view_in M V"
  shows "views_in M'" "view_in M' V'" "view_in M W \<Longrightarrow> view_in M' W"
proof -
  from assms(1) obtain M1 where at: "store_at Relaxed l v t V M = Some (V', M1)" and M': "written M' = written M1"
    by (auto simp: plain_store_def split: option.splits)
  from store_view_in [OF at assms(2,3)]
  show "views_in M'" "view_in M' V'" "view_in M W \<Longrightarrow> view_in M' W"
    by (simp_all add: view_in_cong [OF M'])
qed

lemma seen_le_newest: "view_in M V \<Longrightarrow> seen V l \<le> newest M l"
  by (simp add: view_in_def newest_def)

lemma load_newest_message:
  assumes "view_in M V"
  obtains v V' where "load_at order l (newest M l) V M = Some (v, V')" "holds M l w \<Longrightarrow> v = w"
proof -
  have "written M l \<noteq> []" using assms by (metis view_in_def empty_iff image_empty list.set(1))
  then have "newest M l \<in> fst ` set (written M l)" unfolding newest_def by (intro Max_in) simp_all
  then obtain msg where msg: "map_of (written M l) (newest M l) = Some msg"
    by (metis (no_types, lifting) map_of_eq_None_iff not_None_eq)
  have "m_value msg = w" if "holds M l w"
  proof -
    from that obtain t m where t: "map_of (written M l) t = Some m" "m_value m = w" "\<forall>(t', _)\<in>set (written M l). t' \<le> t"
      by (auto simp: holds_def)
    have "t \<le> newest M l" unfolding newest_def using map_of_SomeD [OF t(1)] by (force intro: Max_ge)
    moreover have "newest M l \<le> t" using t(3) map_of_SomeD [OF msg] by auto
    ultimately show ?thesis using t msg by simp
  qed
  then show thesis
    using msg seen_le_newest [OF assms, of l] that [of "m_value msg"] by (simp add: load_at_def not_less)
qed

lemma newest_allowed:
  assumes "view_in M V"
  shows "load_at order l (newest M l) V M \<noteq> None" "store_at order l v (Suc (newest M l)) V M \<noteq> None"
proof -
  show "load_at order l (newest M l) V M \<noteq> None"
    by (rule load_newest_message [OF assms, of order l v]) simp
  have "t \<le> newest M l" if "(t, m) \<in> set (written M l)" for t m
    unfolding newest_def using that by (force intro: Max_ge)
  then have "map_of (written M l) (Suc (newest M l)) = None"
    by (force simp: map_of_eq_None_iff)
  with seen_le_newest [OF assms, of l] show "store_at order l v (Suc (newest M l)) V M \<noteq> None"
    by (auto simp: store_at_def Let_def)
qed

lemma plain_possible:
  assumes "view_in M V"
  shows "\<exists>V' M'. plain_store l v (Suc (newest M l)) V M = Some (V', M')"
    and "\<exists>v V' M'. plain_load l (newest M l) V M = Some (v, V', M')"
    and "\<exists>V' M'. store_at order l v (Suc (newest M l)) V M = Some (V', M')"
  using newest_allowed [OF assms, of Relaxed] newest_allowed(2) [OF assms, of order]
  by (auto simp: plain_store_def plain_load_def split: option.splits)

lemma counter_newest:
  assumes "counter_ok M l n" "view_in M V"
  shows "exchange_at l (word_of_nat n) y n V M \<noteq> None"
proof -
  from assms(1) have all: "map_of (written M l) t \<noteq> None \<longleftrightarrow> t \<le> n" for t by (simp add: counter_ok_def)
  have "seen V l \<in> fst ` set (written M l)" using assms(2) by (simp add: view_in_def)
  then have "map_of (written M l) (seen V l) \<noteq> None" by (simp add: map_of_eq_None_iff)
  with all have le: "seen V l \<le> n" by blast
  from all [of n] obtain m where m: "map_of (written M l) n = Some m" by auto
  then have "m_value m = word_of_nat n" using assms(1) by (simp add: counter_ok_def)
  with m le all [of "Suc n"] show ?thesis by (auto simp: exchange_at_def)
qed

lemma counter_holds:
  assumes "counter_ok M l n"
  shows "holds M l (word_of_nat n)"
proof -
  from assms have "map_of (written M l) n \<noteq> None" by (simp add: counter_ok_def)
  then obtain m where m: "map_of (written M l) n = Some m" by blast
  have "t \<le> n" if "(t, x) \<in> set (written M l)" for t x
    using assms that by (auto simp: counter_ok_def map_of_eq_None_iff) (metis fst_conv image_eqI)
  with m assms show ?thesis unfolding holds_def by (intro exI [of _ n] exI [of _ m]) (auto simp: counter_ok_def)
qed

end
