(* ===== verification/Spsc_Queue.thy ===== *)
theory Spsc_Queue
  imports Cell_Ring Pinning
begin

text \<open>
  The single-producer single-consumer queue of \<open>benchmarks/spsc_queue.cpp\<close> (and of
  \<open>benchmarks/queue_latency.cpp\<close>, which has the same \<open>push\<close> and \<open>pop\<close>). Each access to
  shared memory is one step of its thread; between two steps the other thread may take any
  number of its own. The producer pushes \<open>payload i\<close> for \<open>i = 0, 1, ...\<close>, the consumer
  hands the \<open>i\<close>-th popped value to \<open>consume i\<close>: that is what the two programs differ in.

  Steps interleave sequentially consistently here; \<open>Spsc_Orderings\<close> has the memory orders of
  the code and shows that they allow nothing else.
\<close>

section \<open>The code\<close>

text \<open>Where a thread is inside \<open>push\<close> or \<open>pop\<close>, with the locals that are live there.\<close>

datatype push_pc = Push_Load | Push_Spin u64 | Push_Write u64 | Push_Publish u64 | Push_Store u64

datatype pop_pc = Pop_Load | Pop_Spin u64 | Pop_Read u64 | Pop_Release u64 u64 | Pop_Store u64 u64

record 'a spsc =
  buffer :: "cell list"
  tail :: u64
  head :: u64
  p_i :: u64
  p_pc :: push_pc
  c_i :: u64
  c_pc :: pop_pc
  c_acc :: 'a

record 'a client =
  total :: u64
  payload :: "u64 \<Rightarrow> u64"
  consume :: "u64 \<Rightarrow> u64 \<Rightarrow> 'a \<Rightarrow> 'a"

datatype thread = Producer | Consumer

text \<open>
  \<open>producer\<close>: the loop test and the relaxed load of \<open>tail\<close>, the acquire load of the
  sequence number (repeated while it differs from \<open>pos\<close>), the plain store of the data, the
  release store of the sequence number, and \<open>store_tail\<close>.
\<close>

definition producer_step :: "'a client \<Rightarrow> 'a spsc \<Rightarrow> 'a spsc" where
  "producer_step cl s =
     (case p_pc s of
        Push_Load \<Rightarrow> if p_i s < total cl then s\<lparr>p_pc := Push_Spin (tail s)\<rparr> else s
      | Push_Spin pos \<Rightarrow>
          if sequence (buffer s ! slot pos) \<noteq> pos then s else s\<lparr>p_pc := Push_Write pos\<rparr>
      | Push_Write pos \<Rightarrow>
          s\<lparr>buffer := put_data pos (payload cl (p_i s)) (buffer s), p_pc := Push_Publish pos\<rparr>
      | Push_Publish pos \<Rightarrow>
          s\<lparr>buffer := put_sequence pos (pos + 1) (buffer s), p_pc := Push_Store pos\<rparr>
      | Push_Store pos \<Rightarrow> s\<lparr>tail := pos + 1, p_pc := Push_Load, p_i := p_i s + 1\<rparr>)"

definition consumer_step :: "'a client \<Rightarrow> 'a spsc \<Rightarrow> 'a spsc" where
  "consumer_step cl s =
     (case c_pc s of
        Pop_Load \<Rightarrow> if c_i s < total cl then s\<lparr>c_pc := Pop_Spin (head s)\<rparr> else s
      | Pop_Spin pos \<Rightarrow>
          if sequence (buffer s ! slot pos) \<noteq> pos + 1 then s else s\<lparr>c_pc := Pop_Read pos\<rparr>
      | Pop_Read pos \<Rightarrow> s\<lparr>c_pc := Pop_Release pos (cdata (buffer s ! slot pos))\<rparr>
      | Pop_Release pos v \<Rightarrow>
          s\<lparr>buffer := put_sequence pos (pos + kCapacity) (buffer s), c_pc := Pop_Store pos v\<rparr>
      | Pop_Store pos v \<Rightarrow>
          s\<lparr>head := pos + 1, c_pc := Pop_Load, c_acc := consume cl (c_i s) v (c_acc s),
            c_i := c_i s + 1\<rparr>)"

fun spsc_step :: "'a client \<Rightarrow> thread \<Rightarrow> 'a spsc \<Rightarrow> 'a spsc" where
  "spsc_step cl Producer s = producer_step cl s"
| "spsc_step cl Consumer s = consumer_step cl s"

text \<open>\<open>new Queue()\<close> and \<open>queue_init\<close>; the threads are about to start.\<close>

definition spsc_start :: "cell list \<Rightarrow> 'a \<Rightarrow> 'a spsc" where
  "spsc_start mem acc =
     \<lparr>buffer = queue_init mem, tail = 0, head = 0, p_i = 0, p_pc = Push_Load,
      c_i = 0, c_pc = Pop_Load, c_acc = acc\<rparr>"

text \<open>Both \<open>join\<close>s return.\<close>

definition joined :: "'a client \<Rightarrow> 'a spsc \<Rightarrow> bool" where
  "joined cl s \<longleftrightarrow> p_pc s = Push_Load \<and> \<not> p_i s < total cl \<and> c_pc s = Pop_Load \<and> \<not> c_i s < total cl"

text \<open>What \<open>spsc_queue.cpp\<close> does with the queue, and the CPUs its threads are bound to.\<close>

definition kTotalItems :: u64 where "kTotalItems = 100000000"

definition sum_client :: "u64 client" where
  "sum_client = \<lparr>total = kTotalItems, payload = (\<lambda>i. i), consume = (\<lambda>i v checksum. checksum + v)\<rparr>"

fun thread_cpu :: "thread \<Rightarrow> int" where
  "thread_cpu Producer = 0"
| "thread_cpu Consumer = 1"

section \<open>The invariant\<close>

text \<open>Positions published by the producer, and released by the consumer.\<close>

definition published :: "'a spsc \<Rightarrow> nat" where
  "published s = unat (p_i s) + (case p_pc s of Push_Store _ \<Rightarrow> 1 | _ \<Rightarrow> 0)"

definition released :: "'a spsc \<Rightarrow> nat" where
  "released s = unat (c_i s) + (case c_pc s of Pop_Store _ _ \<Rightarrow> 1 | _ \<Rightarrow> 0)"

definition producer_ok :: "'a client \<Rightarrow> 'a spsc \<Rightarrow> bool" where
  "producer_ok cl s \<longleftrightarrow> tail s = p_i s \<and> p_i s \<le> total cl \<and>
     (case p_pc s of
        Push_Load \<Rightarrow> True
      | Push_Spin pos \<Rightarrow> pos = p_i s \<and> p_i s < total cl
      | Push_Write pos \<Rightarrow> pos = p_i s \<and> p_i s < total cl \<and> published s < released s + 1024
      | Push_Publish pos \<Rightarrow> pos = p_i s \<and> p_i s < total cl \<and> published s < released s + 1024 \<and>
          cdata (buffer s ! (published s mod 1024)) = payload cl (p_i s)
      | Push_Store pos \<Rightarrow> pos = p_i s \<and> p_i s < total cl)"

definition consumer_ok :: "'a client \<Rightarrow> 'a spsc \<Rightarrow> bool" where
  "consumer_ok cl s \<longleftrightarrow> head s = c_i s \<and> c_i s \<le> total cl \<and>
     (case c_pc s of
        Pop_Load \<Rightarrow> True
      | Pop_Spin pos \<Rightarrow> pos = c_i s \<and> c_i s < total cl
      | Pop_Read pos \<Rightarrow> pos = c_i s \<and> c_i s < total cl \<and> released s < published s
      | Pop_Release pos v \<Rightarrow> pos = c_i s \<and> c_i s < total cl \<and> released s < published s \<and>
          v = payload cl (c_i s)
      | Pop_Store pos v \<Rightarrow> pos = c_i s \<and> c_i s < total cl \<and> v = payload cl (c_i s))"

text \<open>What consuming the first \<open>n\<close> values in the order they were pushed gives.\<close>

definition consumed :: "'a client \<Rightarrow> 'a \<Rightarrow> nat \<Rightarrow> 'a" where
  "consumed cl acc n =
     fold (\<lambda>i. consume cl (word_of_nat i) (payload cl (word_of_nat i))) [0..<n] acc"

definition spsc_inv :: "'a client \<Rightarrow> 'a \<Rightarrow> 'a spsc \<Rightarrow> bool" where
  "spsc_inv cl acc s \<longleftrightarrow> cells_ok (payload cl) (buffer s) (released s) (published s) \<and>
     producer_ok cl s \<and> consumer_ok cl s \<and> c_acc s = consumed cl acc (unat (c_i s))"

lemma consumed_Suc:
  "consumed cl acc (Suc n) = consume cl (word_of_nat n) (payload cl (word_of_nat n)) (consumed cl acc n)"
  by (simp add: consumed_def)

lemma spsc_inv_start: "length mem = 1024 \<Longrightarrow> spsc_inv cl acc (spsc_start mem acc)"
  by (simp add: spsc_inv_def spsc_start_def published_def released_def producer_ok_def consumer_ok_def
      consumed_def cells_ok_init)

lemma unat_Suc_less: "(i :: u64) < n \<Longrightarrow> unat (i + 1) = Suc (unat i)"
  using unat_u64_bound [of n] by (subst unat_add_no_wrap) (simp_all add: word_less_nat_alt)

lemma Suc_le_word: "(i :: u64) < n \<Longrightarrow> i + 1 \<le> n"
  by (simp add: word_le_nat_alt word_less_nat_alt unat_Suc_less)

lemma spsc_inv_producer:
  assumes inv: "spsc_inv cl acc s"
  shows "spsc_inv cl acc (producer_step cl s)"
proof -
  from inv have cells: "cells_ok (payload cl) (buffer s) (released s) (published s)"
    and p: "producer_ok cl s" and c: "consumer_ok cl s"
    and a: "c_acc s = consumed cl acc (unat (c_i s))" by (simp_all add: spsc_inv_def)
  note unf = spsc_inv_def producer_step_def producer_ok_def consumer_ok_def published_def released_def
  show ?thesis
  proof (cases "p_pc s")
    case Push_Load
    with inv show ?thesis by (auto simp: unf split: pop_pc.splits)
  next
    case (Push_Spin pos)
    with p have pos: "pos = word_of_nat (published s)" "published s = unat (p_i s)"
      by (simp_all add: producer_ok_def published_def)
    with cells_free_iff [OF cells]
    have "sequence (buffer s ! slot pos) = pos \<longleftrightarrow> published s < released s + 1024"
      by (simp add: slot_unat)
    with Push_Spin inv show ?thesis by (auto simp: unf split: pop_pc.splits)
  next
    case (Push_Write pos)
    with p have pos: "pos = word_of_nat (published s)" "published s = unat (p_i s)"
      and room: "published s < released s + 1024"
      by (simp_all add: producer_ok_def published_def)
    from Push_Write pos cells_put_data [OF cells room, of "payload cl (p_i s)"] inv
    show ?thesis by (auto simp: unf split: pop_pc.splits)
  next
    case (Push_Publish pos)
    with p have pos: "pos = word_of_nat (published s)" "published s = unat (p_i s)"
      and room: "published s < released s + 1024"
      and d: "cdata (buffer s ! (published s mod 1024)) = payload cl (word_of_nat (published s))"
      by (simp_all add: producer_ok_def published_def)
    from Push_Publish pos cells_publish [OF cells room d] inv
    show ?thesis by (auto simp: unf split: pop_pc.splits)
  next
    case (Push_Store pos)
    with p have "p_i s < total cl" by (simp add: producer_ok_def)
    with Push_Store inv show ?thesis
      by (auto simp: unf unat_Suc_less Suc_le_word split: pop_pc.splits)
  qed
qed

lemma spsc_inv_consumer:
  assumes inv: "spsc_inv cl acc s"
  shows "spsc_inv cl acc (consumer_step cl s)"
proof -
  from inv have cells: "cells_ok (payload cl) (buffer s) (released s) (published s)"
    and p: "producer_ok cl s" and c: "consumer_ok cl s"
    and a: "c_acc s = consumed cl acc (unat (c_i s))" by (simp_all add: spsc_inv_def)
  note unf = spsc_inv_def consumer_step_def producer_ok_def consumer_ok_def published_def released_def
  show ?thesis
  proof (cases "c_pc s")
    case Pop_Load
    with inv show ?thesis by (auto simp: unf split: push_pc.splits)
  next
    case (Pop_Spin pos)
    with c have pos: "pos = word_of_nat (released s)" "released s = unat (c_i s)"
      by (simp_all add: consumer_ok_def released_def)
    with cells_full_iff [OF cells]
    have "sequence (buffer s ! slot pos) = pos + 1 \<longleftrightarrow> released s < published s"
      by (simp add: slot_unat)
    with Pop_Spin inv show ?thesis by (auto simp: unf split: push_pc.splits)
  next
    case (Pop_Read pos)
    with c have pos: "pos = word_of_nat (released s)" "released s = unat (c_i s)"
      and full: "released s < published s" by (simp_all add: consumer_ok_def released_def)
    from cells_published [OF cells order_refl full] pos
    have "cdata (buffer s ! slot pos) = payload cl (c_i s)" by (simp add: slot_unat)
    with Pop_Read inv show ?thesis by (auto simp: unf split: push_pc.splits)
  next
    case (Pop_Release pos v)
    with c have pos: "pos = word_of_nat (released s)" "released s = unat (c_i s)"
      and full: "released s < published s" by (simp_all add: consumer_ok_def released_def)
    from Pop_Release pos cells_release [OF cells full] inv
    show ?thesis by (auto simp: unf split: push_pc.splits)
  next
    case (Pop_Store pos v)
    with c have "c_i s < total cl" by (simp add: consumer_ok_def)
    with Pop_Store inv show ?thesis
      by (auto simp: unf unat_Suc_less Suc_le_word consumed_Suc split: push_pc.splits)
  qed
qed

lemma spsc_inv_step: "spsc_inv cl acc s \<Longrightarrow> spsc_inv cl acc (spsc_step cl t s)"
  by (cases t) (simp_all add: spsc_inv_producer spsc_inv_consumer)

section \<open>Every fair schedule finishes\<close>

text \<open>Steps left, spins not counted: five per item and thread.\<close>

definition push_phase :: "push_pc \<Rightarrow> nat" where
  "push_phase pc = (case pc of Push_Load \<Rightarrow> 0 | Push_Spin _ \<Rightarrow> 1 | Push_Write _ \<Rightarrow> 2
     | Push_Publish _ \<Rightarrow> 3 | Push_Store _ \<Rightarrow> 4)"

definition pop_phase :: "pop_pc \<Rightarrow> nat" where
  "pop_phase pc = (case pc of Pop_Load \<Rightarrow> 0 | Pop_Spin _ \<Rightarrow> 1 | Pop_Read _ \<Rightarrow> 2
     | Pop_Release _ _ \<Rightarrow> 3 | Pop_Store _ _ \<Rightarrow> 4)"

definition spsc_rank :: "'a client \<Rightarrow> 'a spsc \<Rightarrow> nat" where
  "spsc_rank cl s = (5 * (unat (total cl) - unat (p_i s)) - push_phase (p_pc s)) +
     (5 * (unat (total cl) - unat (c_i s)) - pop_phase (c_pc s))"

lemma spsc_rank_step:
  assumes inv: "spsc_inv cl acc s" and moves: "spsc_step cl t s \<noteq> s"
  shows "spsc_rank cl (spsc_step cl t s) < spsc_rank cl s"
proof (cases t)
  case Producer
  with moves have m: "producer_step cl s \<noteq> s" by simp
  from inv have p: "producer_ok cl s" by (simp add: spsc_inv_def)
  have "p_i s < total cl"
    using p m by (auto simp: producer_step_def producer_ok_def split: push_pc.splits if_splits)
  then have "unat (p_i s) < unat (total cl)" "unat (p_i s + 1) = Suc (unat (p_i s))"
    by (simp_all add: word_less_nat_alt unat_Suc_less)
  with m Producer show ?thesis
    by (auto simp: spsc_rank_def push_phase_def producer_step_def split: push_pc.splits if_splits)
next
  case Consumer
  with moves have m: "consumer_step cl s \<noteq> s" by simp
  from inv have c: "consumer_ok cl s" by (simp add: spsc_inv_def)
  have "c_i s < total cl"
    using c m by (auto simp: consumer_step_def consumer_ok_def split: pop_pc.splits if_splits)
  then have "unat (c_i s) < unat (total cl)" "unat (c_i s + 1) = Suc (unat (c_i s))"
    by (simp_all add: word_less_nat_alt unat_Suc_less)
  with m Consumer show ?thesis
    by (auto simp: spsc_rank_def pop_phase_def consumer_step_def split: pop_pc.splits if_splits)
qed

text \<open>A thread stands still only when it has finished or waits for the other one.\<close>

lemma producer_stuck:
  assumes inv: "spsc_inv cl acc s" and stuck: "producer_step cl s = s"
  shows "\<not> p_i s < total cl \<or> published s = released s + 1024"
proof (cases "p_pc s")
  case (Push_Spin pos)
  from inv have cells: "cells_ok (payload cl) (buffer s) (released s) (published s)"
    and p: "producer_ok cl s" by (simp_all add: spsc_inv_def)
  from Push_Spin p have pos: "pos = word_of_nat (published s)" "published s = unat (p_i s)"
    by (simp_all add: producer_ok_def published_def)
  from Push_Spin stuck have "sequence (buffer s ! slot pos) \<noteq> pos"
    by (auto simp: producer_step_def dest: arg_cong [of _ _ p_pc] split: if_splits)
  with pos cells_free_iff [OF cells] have "\<not> published s < released s + 1024"
    by (simp add: slot_unat)
  with cells_ok_bounds [OF cells] show ?thesis by simp
qed (use stuck in \<open>auto simp: producer_step_def dest: arg_cong [of _ _ p_pc] split: if_splits\<close>)

lemma consumer_stuck:
  assumes inv: "spsc_inv cl acc s" and stuck: "consumer_step cl s = s"
  shows "\<not> c_i s < total cl \<or> published s = released s \<and> released s = unat (c_i s)"
proof (cases "c_pc s")
  case (Pop_Spin pos)
  from inv have cells: "cells_ok (payload cl) (buffer s) (released s) (published s)"
    and c: "consumer_ok cl s" by (simp_all add: spsc_inv_def)
  from Pop_Spin c have pos: "pos = word_of_nat (released s)" "released s = unat (c_i s)"
    by (simp_all add: consumer_ok_def released_def)
  from Pop_Spin stuck have "sequence (buffer s ! slot pos) \<noteq> pos + 1"
    by (auto simp: consumer_step_def dest: arg_cong [of _ _ c_pc] split: if_splits)
  with pos cells_full_iff [OF cells] have "\<not> released s < published s"
    by (simp add: slot_unat)
  with cells_ok_bounds [OF cells] pos show ?thesis by simp
qed (use stuck in \<open>auto simp: consumer_step_def dest: arg_cong [of _ _ c_pc] split: if_splits\<close>)

lemma published_le_total: "spsc_inv cl acc s \<Longrightarrow> published s \<le> unat (total cl)"
  by (auto simp: spsc_inv_def producer_ok_def published_def word_le_nat_alt word_less_nat_alt
      split: push_pc.splits)

lemma finished_pcs:
  assumes "spsc_inv cl acc s"
  shows "\<not> p_i s < total cl \<Longrightarrow> p_pc s = Push_Load" "\<not> c_i s < total cl \<Longrightarrow> c_pc s = Pop_Load"
  using assms by (auto simp: spsc_inv_def producer_ok_def consumer_ok_def split: push_pc.splits pop_pc.splits)

lemma spsc_progress:
  assumes inv: "spsc_inv cl acc s" and running: "\<not> joined cl s"
  shows "\<exists>t. spsc_step cl t s \<noteq> s"
proof (rule ccontr)
  assume "\<nexists>t. spsc_step cl t s \<noteq> s"
  then have stuck: "producer_step cl s = s" "consumer_step cl s = s"
    by (metis spsc_step.simps)+
  have rel: "unat (c_i s) \<le> released s" "unat (p_i s) \<le> published s"
    by (simp_all add: released_def published_def)
  note le = published_le_total [OF inv]
  show False
  proof (cases "c_i s < total cl")
    case False
    then have "unat (total cl) \<le> released s" using rel by (simp add: word_less_nat_alt)
    with producer_stuck [OF inv stuck(1)] le have "\<not> p_i s < total cl" by linarith
    with finished_pcs [OF inv] False running show False by (simp add: joined_def)
  next
    case True
    with consumer_stuck [OF inv stuck(2)]
    have "published s = released s" "released s < unat (total cl)" by (auto simp: word_less_nat_alt)
    with producer_stuck [OF inv stuck(1)] rel show False by (simp add: word_less_nat_alt)
  qed
qed

lemma joined_stays: "joined cl s \<Longrightarrow> spsc_step cl t s = s"
  by (cases t) (simp_all add: joined_def producer_step_def consumer_step_def)

lemma joined_result: "spsc_inv cl acc s \<Longrightarrow> joined cl s \<Longrightarrow> c_acc s = consumed cl acc (unat (total cl))"
  by (auto simp: spsc_inv_def consumer_ok_def joined_def not_less dest: antisym)

interpretation spsc: fair_machine "spsc_step cl" UNIV "spsc_inv cl acc" "joined cl" "spsc_rank cl"
  for cl :: "'a client" and acc :: 'a
  by unfold_locales (auto simp: spsc_inv_step spsc_rank_step joined_stays dest: spsc_progress)

lemma spsc_reachable: "length mem = 1024 \<Longrightarrow> spsc_inv cl acc (run (spsc_step cl) schedule (spsc_start mem acc))"
  by (intro spsc.inv_run spsc_inv_start)

lemma spsc_rank_start: "spsc_rank cl (spsc_start mem acc) = 10 * unat (total cl)"
  by (simp add: spsc_rank_def spsc_start_def push_phase_def pop_phase_def)

lemma both_threads_bound: "(\<exists>t. \<not> affinity (thread_cpu t)) \<longleftrightarrow> \<not> (affinity 0 \<and> affinity 1)"
  by (metis thread.exhaust thread_cpu.simps)

text \<open>The threads bound to their CPUs, from start to \<open>join\<close>.\<close>

lemma bound_threads_join:
  fixes acc :: 'a and affinity :: "int \<Rightarrow> bool"
  assumes "length mem = 1024" "fair_rounds UNIV (Suc (10 * unat (total cl))) schedule"
  defines "p \<equiv> run (pinned_step affinity thread_cpu (spsc_step cl)) schedule (pinned_start (spsc_start mem acc))"
  shows "px_exited p \<longleftrightarrow> \<not> (affinity 0 \<and> affinity 1)"
    "\<not> px_exited p \<Longrightarrow> joined cl (px_state p) \<and> c_acc (px_state p) = consumed cl acc (unat (total cl))"
proof -
  note outcome = spsc.pinned_outcome [where schedule = schedule and affinity = affinity and cpu = thread_cpu,
    OF spsc_inv_start [OF assms(1), of cl acc], unfolded spsc_rank_start both_threads_bound, OF assms(2) refl]
  from outcome(1) show "px_exited p \<longleftrightarrow> \<not> (affinity 0 \<and> affinity 1)" by (simp add: p_def)
  assume "\<not> px_exited p"
  with outcome(2) joined_result show "joined cl (px_state p) \<and> c_acc (px_state p) = consumed cl acc (unat (total cl))"
    by (auto simp: p_def)
qed

section \<open>The queue as a bounded FIFO\<close>

definition contents :: "'a client \<Rightarrow> 'a spsc \<Rightarrow> u64 list" where
  "contents cl s = map (\<lambda>n. payload cl (word_of_nat n)) [released s..<published s]"

text \<open>The bounded queue that clients think of.\<close>

inductive bounded_fifo :: "nat \<Rightarrow> u64 list \<Rightarrow> u64 option \<times> u64 option \<Rightarrow> u64 list \<Rightarrow> bool" where
  enqueue: "length xs < cap \<Longrightarrow> bounded_fifo cap xs (Some v, None) (xs @ [v])"
| dequeue: "bounded_fifo cap (v # xs) (None, Some v) xs"
| neither: "bounded_fifo cap xs (None, None) xs"

inductive_simps bounded_fifo_simps:
  "bounded_fifo cap xs (Some v, None) ys"
  "bounded_fifo cap xs (None, Some v) ys"
  "bounded_fifo cap xs (None, None) ys"

text \<open>
  Where an operation takes effect: \<open>push\<close> at the release store of the sequence number,
  \<open>pop\<close> at its own release store.
\<close>

definition takes_effect :: "'a client \<Rightarrow> thread \<Rightarrow> 'a spsc \<Rightarrow> u64 option \<times> u64 option" where
  "takes_effect cl t s =
     (case t of
        Producer \<Rightarrow> (case p_pc s of Push_Publish _ \<Rightarrow> (Some (payload cl (p_i s)), None) | _ \<Rightarrow> (None, None))
      | Consumer \<Rightarrow> (case c_pc s of Pop_Release _ v \<Rightarrow> (None, Some v) | _ \<Rightarrow> (None, None)))"

lemma spsc_refines_fifo:
  assumes inv: "spsc_inv cl acc s"
  shows "bounded_fifo 1024 (contents cl s) (takes_effect cl t s) (contents cl (spsc_step cl t s))"
proof (cases t)
  case Producer
  from inv have p: "producer_ok cl s" by (simp add: spsc_inv_def)
  have rel: "released (producer_step cl s) = released s"
    by (simp add: producer_step_def released_def split: push_pc.splits)
  show ?thesis
  proof (cases "\<exists>pos. p_pc s = Push_Publish pos")
    case True
    with p have "published s = unat (p_i s)" "published s < released s + 1024"
        "published (producer_step cl s) = Suc (published s)"
      by (auto simp: producer_ok_def published_def producer_step_def)
    moreover have "released s \<le> published s"
      using inv cells_ok_bounds by (auto simp: spsc_inv_def)
    ultimately show ?thesis
      using True Producer rel by (auto simp: bounded_fifo_simps takes_effect_def contents_def)
  next
    case False
    with p have "published (producer_step cl s) = published s"
      by (auto simp: published_def producer_step_def producer_ok_def unat_Suc_less split: push_pc.splits)
    with False Producer rel show ?thesis
      by (auto simp: bounded_fifo_simps takes_effect_def contents_def split: push_pc.splits)
  qed
next
  case Consumer
  from inv have c: "consumer_ok cl s" by (simp add: spsc_inv_def)
  have pub: "published (consumer_step cl s) = published s"
    by (simp add: consumer_step_def published_def split: pop_pc.splits)
  show ?thesis
  proof (cases "\<exists>pos v. c_pc s = Pop_Release pos v")
    case True
    then obtain pos v where pc: "c_pc s = Pop_Release pos v" by blast
    with c have r: "released s = unat (c_i s)" "released s < published s" "v = payload cl (c_i s)"
        "released (consumer_step cl s) = Suc (released s)"
      by (auto simp: consumer_ok_def released_def consumer_step_def)
    then have "contents cl s = v # contents cl (consumer_step cl s)"
      unfolding contents_def pub by (simp add: upt_conv_Cons)
    with pc Consumer show ?thesis by (simp add: bounded_fifo_simps takes_effect_def)
  next
    case False
    with c have "released (consumer_step cl s) = released s"
      by (auto simp: released_def consumer_step_def consumer_ok_def unat_Suc_less split: pop_pc.splits)
    with False Consumer pub show ?thesis
      by (auto simp: bounded_fifo_simps takes_effect_def contents_def split: pop_pc.splits)
  qed
qed

section \<open>The checksum\<close>

lemma consumed_sum_client: "consumed sum_client 0 n = word_of_nat (\<Sum>{..<n})"
  by (induction n) (simp_all add: consumed_Suc, simp_all add: consumed_def sum_client_def add.commute)

lemma sum_below: "\<Sum>{..<n} = n * (n - 1) div (2 :: nat)"
  using Sum_Ico_nat [of 0 n] by (simp add: atLeast0LessThan)

lemma sum_client_checksum:
  "consumed sum_client 0 (unat (total sum_client)) = kTotalItems * (kTotalItems - 1) div 2"
proof -
  have "unat (total sum_client) = 100000000" by (simp add: sum_client_def kTotalItems_def)
  then show ?thesis by (simp add: consumed_sum_client sum_below kTotalItems_def)
qed

section \<open>Properties\<close>

text \<open>
  C14: Under every schedule each step of the two threads is a step of a bounded FIFO
  queue of capacity 1024: push takes effect at its release store and only when the
  queue is not full, pop takes effect at its release store and returns the oldest
  value.
\<close>

theorem spsc_implements_fifo:
  assumes "length mem = 1024"
  shows "let s = run (spsc_step cl) schedule (spsc_start mem acc) in
    bounded_fifo 1024 (contents cl s) (takes_effect cl t s) (contents cl (spsc_step cl t s))"
  unfolding Let_def by (rule spsc_refines_fifo [OF spsc_reachable [OF assms]])

theorem spsc_implements_fifo_witness:
  "let s = run (spsc_step sum_client) [Producer, Producer, Producer]
      (spsc_start (replicate 1024 \<lparr>sequence = 0, cdata = 0\<rparr>) 0) in
    bounded_fifo 1024 (contents sum_client s) (takes_effect sum_client Producer s)
      (contents sum_client (spsc_step sum_client Producer s))"
  by (rule spsc_implements_fifo) simp

theorem spsc_consumes_in_order:
  assumes "length mem = 1024"
  shows "let s = run (spsc_step cl) schedule (spsc_start mem acc) in
    c_acc s = consumed cl acc (unat (c_i s)) \<and>
    released s \<le> published s \<and> published s \<le> released s + 1024"
  using spsc_reachable [OF assms, of cl acc schedule]
  by (auto simp: Let_def spsc_inv_def cells_ok_def)

theorem spsc_consumes_in_order_witness:
  "let s = run (spsc_step sum_client) (concat (replicate 7 [Consumer, Producer]))
      (spsc_start (replicate 1024 \<lparr>sequence = 0, cdata = 0\<rparr>) 0) in
    c_acc s = consumed sum_client 0 (unat (c_i s)) \<and>
    released s \<le> published s \<and> published s \<le> released s + 1024"
  by (rule spsc_consumes_in_order) simp

end
