(* ===== verification/Spsc_Orderings.thy ===== *)
theory Spsc_Orderings
  imports Spsc_Queue Release_Acquire
begin

text \<open>
  The same \<open>push\<close> and \<open>pop\<close> of \<open>benchmarks/spsc_queue.cpp\<close> with the memory orders the
  code asks for: the acquire load and the release store of a cell's sequence number, the
  relaxed accesses to \<open>tail\<close> and \<open>head\<close>, and the plain accesses to \<open>data\<close>. Loads may be
  stale as far as \<open>Release_Acquire\<close> allows. Every run is shown to be free of data races and
  to do what the interleaving machine of \<open>Spsc_Queue\<close> does under some schedule: the threads
  in the same order, with the loads that returned a stale value left out.
\<close>

section \<open>The code\<close>

datatype spsc_loc = Sequence_Of nat | Data_Of nat | Tail | Head

record 'a ra_spsc =
  ra_mem :: "spsc_loc memory"
  p_view :: "spsc_loc view"
  c_view :: "spsc_loc view"
  rp_i :: u64
  rp_pc :: push_pc
  rc_i :: u64
  rc_pc :: pop_pc
  rc_acc :: 'a

definition ra_push :: "'a client \<Rightarrow> nat \<Rightarrow> 'a ra_spsc \<Rightarrow> 'a ra_spsc option" where
  "ra_push cl t s =
     (case rp_pc s of
        Push_Load \<Rightarrow>
          if rp_i s < total cl
          then map_option (\<lambda>(pos, V). s\<lparr>p_view := V, rp_pc := Push_Spin pos\<rparr>)
                 (load_at Relaxed Tail t (p_view s) (ra_mem s))
          else None
      | Push_Spin pos \<Rightarrow>
          map_option (\<lambda>(sq, V). s\<lparr>p_view := V, rp_pc := (if sq \<noteq> pos then Push_Spin pos else Push_Write pos)\<rparr>)
            (load_at Acquire (Sequence_Of (slot pos)) t (p_view s) (ra_mem s))
      | Push_Write pos \<Rightarrow>
          map_option (\<lambda>(V, M). s\<lparr>p_view := V, ra_mem := M, rp_pc := Push_Publish pos\<rparr>)
            (plain_store (Data_Of (slot pos)) (payload cl (rp_i s)) t (p_view s) (ra_mem s))
      | Push_Publish pos \<Rightarrow>
          map_option (\<lambda>(V, M). s\<lparr>p_view := V, ra_mem := M, rp_pc := Push_Store pos\<rparr>)
            (store_at Release (Sequence_Of (slot pos)) (pos + 1) t (p_view s) (ra_mem s))
      | Push_Store pos \<Rightarrow>
          map_option (\<lambda>(V, M). s\<lparr>p_view := V, ra_mem := M, rp_pc := Push_Load, rp_i := rp_i s + 1\<rparr>)
            (store_at Relaxed Tail (pos + 1) t (p_view s) (ra_mem s)))"

definition ra_pop :: "'a client \<Rightarrow> nat \<Rightarrow> 'a ra_spsc \<Rightarrow> 'a ra_spsc option" where
  "ra_pop cl t s =
     (case rc_pc s of
        Pop_Load \<Rightarrow>
          if rc_i s < total cl
          then map_option (\<lambda>(pos, V). s\<lparr>c_view := V, rc_pc := Pop_Spin pos\<rparr>)
                 (load_at Relaxed Head t (c_view s) (ra_mem s))
          else None
      | Pop_Spin pos \<Rightarrow>
          map_option (\<lambda>(sq, V). s\<lparr>c_view := V, rc_pc := (if sq \<noteq> pos + 1 then Pop_Spin pos else Pop_Read pos)\<rparr>)
            (load_at Acquire (Sequence_Of (slot pos)) t (c_view s) (ra_mem s))
      | Pop_Read pos \<Rightarrow>
          map_option (\<lambda>(v, V, M). s\<lparr>c_view := V, ra_mem := M, rc_pc := Pop_Release pos v\<rparr>)
            (plain_load (Data_Of (slot pos)) t (c_view s) (ra_mem s))
      | Pop_Release pos v \<Rightarrow>
          map_option (\<lambda>(V, M). s\<lparr>c_view := V, ra_mem := M, rc_pc := Pop_Store pos v\<rparr>)
            (store_at Release (Sequence_Of (slot pos)) (pos + kCapacity) t (c_view s) (ra_mem s))
      | Pop_Store pos v \<Rightarrow>
          map_option (\<lambda>(V, M). s\<lparr>c_view := V, ra_mem := M, rc_pc := Pop_Load,
              rc_i := rc_i s + 1, rc_acc := consume cl (rc_i s) v (rc_acc s)\<rparr>)
            (store_at Relaxed Head (pos + 1) t (c_view s) (ra_mem s)))"

text \<open>
  The scheduler picks the thread and the timestamp; one that is not allowed does nothing.
  \<open>Newest\<close> is the up-to-date choice: to load the newest message, to store a newer one.
\<close>

datatype pick = At nat | Newest

definition push_time :: "'a ra_spsc \<Rightarrow> nat" where
  "push_time s =
     (case rp_pc s of
        Push_Load \<Rightarrow> newest (ra_mem s) Tail
      | Push_Spin pos \<Rightarrow> newest (ra_mem s) (Sequence_Of (slot pos))
      | Push_Write pos \<Rightarrow> Suc (newest (ra_mem s) (Data_Of (slot pos)))
      | Push_Publish pos \<Rightarrow> Suc (newest (ra_mem s) (Sequence_Of (slot pos)))
      | Push_Store pos \<Rightarrow> Suc (newest (ra_mem s) Tail))"

definition pop_time :: "'a ra_spsc \<Rightarrow> nat" where
  "pop_time s =
     (case rc_pc s of
        Pop_Load \<Rightarrow> newest (ra_mem s) Head
      | Pop_Spin pos \<Rightarrow> newest (ra_mem s) (Sequence_Of (slot pos))
      | Pop_Read pos \<Rightarrow> newest (ra_mem s) (Data_Of (slot pos))
      | Pop_Release pos v \<Rightarrow> Suc (newest (ra_mem s) (Sequence_Of (slot pos)))
      | Pop_Store pos v \<Rightarrow> Suc (newest (ra_mem s) Head))"

fun ra_access :: "'a client \<Rightarrow> thread \<times> pick \<Rightarrow> 'a ra_spsc \<Rightarrow> 'a ra_spsc option" where
  "ra_access cl (Producer, At t) s = ra_push cl t s"
| "ra_access cl (Producer, Newest) s = ra_push cl (push_time s) s"
| "ra_access cl (Consumer, At t) s = ra_pop cl t s"
| "ra_access cl (Consumer, Newest) s = ra_pop cl (pop_time s) s"

definition ra_step :: "'a client \<Rightarrow> thread \<times> pick \<Rightarrow> 'a ra_spsc \<Rightarrow> 'a ra_spsc" where
  "ra_step cl c s = (case ra_access cl c s of None \<Rightarrow> s | Some s' \<Rightarrow> s')"

fun initial_value :: "cell list \<Rightarrow> spsc_loc \<Rightarrow> u64" where
  "initial_value buf (Sequence_Of k) = sequence (buf ! k)"
| "initial_value buf (Data_Of k) = cdata (buf ! k)"
| "initial_value buf Tail = 0"
| "initial_value buf Head = 0"

definition ra_start :: "cell list \<Rightarrow> 'a \<Rightarrow> 'a ra_spsc" where
  "ra_start buf acc =
     \<lparr>ra_mem = initial_memory (initial_value (queue_init buf)), p_view = initial_view, c_view = initial_view,
      rp_i = 0, rp_pc = Push_Load, rc_i = 0, rc_pc = Pop_Load, rc_acc = acc\<rparr>"

text \<open>Both \<open>join\<close>s return.\<close>

definition ra_joined :: "'a client \<Rightarrow> 'a ra_spsc \<Rightarrow> bool" where
  "ra_joined cl s \<longleftrightarrow> rp_pc s = Push_Load \<and> \<not> rp_i s < total cl \<and> rc_pc s = Pop_Load \<and> \<not> rc_i s < total cl"

text \<open>\<open>main\<close> of \<open>spsc_queue.cpp\<close>: no exit status while a thread is still running.\<close>

definition spsc_main :: "(int \<Rightarrow> bool) \<Rightarrow> cell list \<Rightarrow> (thread \<times> pick) list \<Rightarrow> int option" where
  "spsc_main affinity mem choices =
     (let p = run (\<lambda>c. pinned_step affinity thread_cpu (\<lambda>_. ra_step sum_client c) (fst c)) choices
                (pinned_start (ra_start mem 0));
          s = px_state p;
          expected = kTotalItems * (kTotalItems - 1) div 2
      in if px_exited p then Some 1
         else if ra_joined sum_client s then Some (if rc_acc s = expected then 0 else 1)
         else None)"

section \<open>What the messages tell\<close>

text \<open>
  A message of a sequence number comes from \<open>queue_init\<close>, from the push of a position \<open>p\<close>
  or from the pop of one. The view it carries knows the plain accesses before it, for as
  long as that matters.
\<close>

definition seq_message :: "nat \<Rightarrow> nat \<Rightarrow> spsc_loc memory \<Rightarrow> nat \<Rightarrow> spsc_loc message \<Rightarrow> bool" where
  "seq_message pub rel M k m \<longleftrightarrow>
     m_value m = word_of_nat k \<and> (pub \<le> k \<longrightarrow> knows_loads M (Data_Of k) (m_view m)) \<or>
     (\<exists>p<pub. p mod 1024 = k \<and> m_value m = word_of_nat (p + 1) \<and> (rel \<le> p \<longrightarrow> covers M (Data_Of k) (m_view m))) \<or>
     (\<exists>p<rel. p mod 1024 = k \<and> m_value m = word_of_nat (p + 1024) \<and>
        (pub \<le> p + 1024 \<longrightarrow> knows_loads M (Data_Of k) (m_view m)))"

definition history_ok :: "nat \<Rightarrow> nat \<Rightarrow> spsc_loc memory \<Rightarrow> nat \<Rightarrow> bool" where
  "history_ok pub rel M k \<longleftrightarrow> (\<forall>(t, m)\<in>set (written M (Sequence_Of k)). seq_message pub rel M k m) \<and>
     distinct (map (m_value \<circ> snd) (written M (Sequence_Of k)))"

lemma seq_message_cases:
  assumes "seq_message pub rel M k m" "rel \<le> pub" "pub + 1024 \<le> 2 ^ 64" "k < 1024"
  obtains (initial) "m_value m = word_of_nat k" "pub \<le> k \<longrightarrow> knows_loads M (Data_Of k) (m_view m)"
  | (pushed) p where "p < pub" "p mod 1024 = k" "m_value m = word_of_nat (p + 1)" "p + 1 < 2 ^ 64"
      "rel \<le> p \<longrightarrow> covers M (Data_Of k) (m_view m)"
  | (popped) p where "p < rel" "p mod 1024 = k" "m_value m = word_of_nat (p + 1024)" "p + 1024 < 2 ^ 64"
      "pub \<le> p + 1024 \<longrightarrow> knows_loads M (Data_Of k) (m_view m)"
proof -
  from assms(1) consider (1) "m_value m = word_of_nat k" "pub \<le> k \<longrightarrow> knows_loads M (Data_Of k) (m_view m)"
    | (2) p where "p < pub" "p mod 1024 = k" "m_value m = word_of_nat (p + 1)"
        "rel \<le> p \<longrightarrow> covers M (Data_Of k) (m_view m)"
    | (3) p where "p < rel" "p mod 1024 = k" "m_value m = word_of_nat (p + 1024)"
        "pub \<le> p + 1024 \<longrightarrow> knows_loads M (Data_Of k) (m_view m)"
    unfolding seq_message_def by blast
  then show thesis
  proof cases
    case 1
    then show thesis by (rule initial)
  next
    case (2 p)
    with assms(2,3) have "p + 1 < 2 ^ 64" by linarith
    with 2 show thesis by (intro pushed)
  next
    case (3 p)
    with assms(2,3) have "p + 1024 < 2 ^ 64" by linarith
    with 3 show thesis by (intro popped)
  qed
qed

text \<open>The free sequence number: the consumer has read the old data.\<close>

lemma free_message:
  assumes "seq_message pub rel M (pub mod 1024) m" "rel \<le> pub" "pub + 1024 \<le> 2 ^ 64" "m_value m = word_of_nat pub"
  shows "pub < rel + 1024" "knows_loads M (Data_Of (pub mod 1024)) (m_view m)"
proof -
  have "pub < rel + 1024 \<and> knows_loads M (Data_Of (pub mod 1024)) (m_view m)"
    using assms(1-3) mod_ring [of pub]
  proof (cases rule: seq_message_cases)
    case initial
    with assms(3,4) word_of_nat_inj [of "pub mod 1024" pub] have "pub mod 1024 = pub" by force
    moreover have "pub mod 1024 < 1024" by simp
    ultimately show ?thesis using initial(2) by simp
  next
    case (pushed p)
    with assms(3,4) word_of_nat_inj [of "p + 1" pub] have "p + 1 = pub" by force
    with pushed(2) add_1_mod [of p] show ?thesis by simp
  next
    case (popped p)
    with assms(3,4) word_of_nat_inj [of "p + 1024" pub] have "p + 1024 = pub" by force
    with popped show ?thesis by simp
  qed
  then show "pub < rel + 1024" "knows_loads M (Data_Of (pub mod 1024)) (m_view m)" by blast+
qed

text \<open>The published one: the producer has written the data.\<close>

lemma published_message:
  assumes "seq_message pub rel M (rel mod 1024) m" "rel \<le> pub" "pub + 1024 \<le> 2 ^ 64" "m_value m = word_of_nat rel + 1"
  shows "rel < pub" "covers M (Data_Of (rel mod 1024)) (m_view m)"
proof -
  from assms(4) have v: "m_value m = word_of_nat (rel + 1)" by simp
  have "rel < pub \<and> covers M (Data_Of (rel mod 1024)) (m_view m)"
    using assms(1-3) mod_ring [of rel]
  proof (cases rule: seq_message_cases)
    case initial
    with assms(2,3) v word_of_nat_inj [of "rel mod 1024" "rel + 1"] have "rel mod 1024 = rel + 1"
      by (force simp del: of_nat_add)
    then show ?thesis by (metis add_1_mod mod_mod_trivial)
  next
    case (pushed p)
    with assms(2,3) v word_of_nat_inj [of "p + 1" "rel + 1"] have "p + 1 = rel + 1" by (force simp del: of_nat_add)
    with pushed show ?thesis by simp
  next
    case (popped p)
    with assms(2,3) v word_of_nat_inj [of "p + 1024" "rel + 1"] have "p + 1024 = rel + 1" by (force simp del: of_nat_add)
    then show ?thesis using popped(2) add_1024_mod add_1_mod by metis
  qed
  then show "rel < pub" "covers M (Data_Of (rel mod 1024)) (m_view m)" by blast+
qed

section \<open>The ring in memory\<close>

text \<open>The memory shows the cells of the interleaving machine as its newest messages.\<close>

definition ring_ok :: "nat \<Rightarrow> nat \<Rightarrow> cell list \<Rightarrow> spsc_loc memory \<Rightarrow> bool" where
  "ring_ok pub rel buf M \<longleftrightarrow> \<not> raced M \<and>
     (\<forall>k<1024. history_ok pub rel M k \<and> holds M (Sequence_Of k) (sequence (buf ! k)) \<and>
        holds M (Data_Of k) (cdata (buf ! k)))"

lemma ring_okD:
  assumes "ring_ok pub rel buf M" "k < 1024"
  shows "history_ok pub rel M k" "holds M (Sequence_Of k) (sequence (buf ! k))" "holds M (Data_Of k) (cdata (buf ! k))"
  using assms by (simp_all add: ring_ok_def)

lemma history_okD: "history_ok pub rel M k \<Longrightarrow> (t, m) \<in> set (written M (Sequence_Of k)) \<Longrightarrow> seq_message pub rel M k m"
  by (auto simp: history_ok_def)

lemma seq_message_mono:
  assumes "seq_message pub rel M k m" "pub \<le> pub'" "rel \<le> rel'"
    and "written M' (Data_Of k) = written M (Data_Of k)" "loads_done M' (Data_Of k) = loads_done M (Data_Of k)"
  shows "seq_message pub' rel' M' k m"
proof -
  note same = covers_cong [of M' "Data_Of k" M, OF assms(4)] knows_loads_cong [of M' "Data_Of k" M, OF assms(5)]
  have less: "p < pub \<Longrightarrow> p < pub'" "p < rel \<Longrightarrow> p < rel'" "pub' \<le> p \<Longrightarrow> pub \<le> p" "rel' \<le> p \<Longrightarrow> rel \<le> p" for p
    using assms(2,3) by simp_all
  from assms(1) show ?thesis unfolding seq_message_def same by (blast intro: less)
qed

lemma ring_ok_other:
  assumes "ring_ok pub rel buf M" "store_at order l v t V M = Some (V', M')" "l = Tail \<or> l = Head"
  shows "ring_ok pub rel buf M'"
proof -
  note st = store_atD [OF assms(2)]
  have "seq_message pub rel M' k m = seq_message pub rel M k m" for k m
    using assms(3) by (auto simp: seq_message_def covers_def knows_loads_def st(5,7))
  with assms(1,3) show ?thesis
    by (auto simp: ring_ok_def history_ok_def holds_def st(6,7))
qed

text \<open>The plain store at the position to be pushed.\<close>

lemma ring_ok_data:
  assumes ring: "ring_ok pub rel buf M" and room: "pub < rel + 1024" and len: "length buf = 1024"
    and store: "store_at Relaxed (Data_Of (pub mod 1024)) v t V M = Some (V', M')" "covers M (Data_Of (pub mod 1024)) V"
  shows "ring_ok pub rel (put_data (word_of_nat pub) v buf) M'"
proof -
  note st = store_atD [OF store(1)]
  have msg: "seq_message pub rel M' k m" if old: "seq_message pub rel M k m" for k m
  proof (cases "k = pub mod 1024")
    case False
    then show ?thesis by (intro seq_message_mono [OF old]) (simp_all add: st)
  next
    case True
    have "\<not> rel \<le> p" if "p < pub" "p mod 1024 = pub mod 1024" for p
      using that room mod_eq_near [of p 1024 pub] by linarith
    then show ?thesis using old knows_loads_cong [of M' "Data_Of k" M] st(5) unfolding seq_message_def True by auto
  qed
  show ?thesis unfolding ring_ok_def
  proof (intro conjI allI impI)
    show "\<not> raced M'" using ring by (simp add: ring_ok_def st(6))
    fix k :: nat assume k: "k < 1024"
    note old = ring_okD [OF ring k]
    show "history_ok pub rel M' k" using old(1) msg by (auto simp: history_ok_def st(7))
    show "holds M' (Sequence_Of k) (sequence (put_data (word_of_nat pub) v buf ! k))"
      using old(2) by (simp add: holds_def st(7))
    show "holds M' (Data_Of k) (cdata (put_data (word_of_nat pub) v buf ! k))"
      using old(3) put_data_nth [OF len, of pub v k] k store_newest(2) [OF store] by (auto simp: holds_def st(7))
  qed
qed

text \<open>A store of the sequence number at position \<open>n\<close>, with a value that has not been there.\<close>

lemma ring_ok_sequence:
  assumes ring: "ring_ok pub rel buf M" and len: "length buf = 1024"
    and store: "store_at Release (Sequence_Of (n mod 1024)) v t V M = Some (V', M')" "covers M (Sequence_Of (n mod 1024)) V"
    and grow: "pub \<le> pub'" "rel \<le> rel'"
    and new: "seq_message pub' rel' M' (n mod 1024) \<lparr>m_value = v, m_view = V'\<rparr>"
    and fresh: "v \<notin> m_value ` snd ` set (written M (Sequence_Of (n mod 1024)))"
  shows "ring_ok pub' rel' (put_sequence (word_of_nat n) v buf) M'"
proof -
  note st = store_atD [OF store(1)]
  have msg: "seq_message pub' rel' M' k m" if "seq_message pub rel M k m" for k m
    by (rule seq_message_mono [OF that grow]) (simp_all add: st)
  show ?thesis unfolding ring_ok_def
  proof (intro conjI allI impI)
    show "\<not> raced M'" using ring by (simp add: ring_ok_def st(6))
    fix k :: nat assume k: "k < 1024"
    note old = ring_okD [OF ring k]
    show "history_ok pub' rel' M' k"
      using old(1) msg new fresh by (cases "k = n mod 1024") (auto simp: history_ok_def st(7))
    show "holds M' (Data_Of k) (cdata (put_sequence (word_of_nat n) v buf ! k))"
      using old(3) by (simp add: holds_def st(7))
    show "holds M' (Sequence_Of k) (sequence (put_sequence (word_of_nat n) v buf ! k))"
      using old(2) put_sequence_nth [OF len, of n v k] k store_newest(2) [OF store] by (auto simp: holds_def st(7))
  qed
qed

text \<open>Neither thread stores a sequence number that has been there.\<close>

lemma fresh_sequence:
  assumes ring: "ring_ok pub rel buf M" and bounds: "rel \<le> pub" "pub + 1024 \<le> 2 ^ 64"
  shows "pub + 1 + 1024 \<le> 2 ^ 64 \<Longrightarrow> word_of_nat (pub + 1) \<notin> m_value ` snd ` set (written M (Sequence_Of (pub mod 1024)))"
    and "rel < pub \<Longrightarrow> word_of_nat (rel + 1024) \<notin> m_value ` snd ` set (written M (Sequence_Of (rel mod 1024)))"
proof -
  have msg: "seq_message pub rel M (n mod 1024) m" if "(t, m) \<in> set (written M (Sequence_Of (n mod 1024)))" for n t m
    by (rule history_okD [OF ring_okD(1) [OF ring mod_ring] that])
  show "word_of_nat (pub + 1) \<notin> m_value ` snd ` set (written M (Sequence_Of (pub mod 1024)))" if b: "pub + 1 + 1024 \<le> 2 ^ 64"
  proof
    assume "word_of_nat (pub + 1) \<in> m_value ` snd ` set (written M (Sequence_Of (pub mod 1024)))"
    then obtain t m where here: "(t, m) \<in> set (written M (Sequence_Of (pub mod 1024)))" and eq: "word_of_nat (pub + 1) = m_value m" by force
    from msg [OF here] bounds mod_ring [of pub] show False
    proof (cases rule: seq_message_cases)
      case initial
      with eq b word_of_nat_inj [of "pub mod 1024" "pub + 1"] have "pub mod 1024 = pub + 1"
        by (force simp del: of_nat_add)
      then show False by (metis add_1_mod mod_mod_trivial)
    next
      case (pushed p)
      with eq b word_of_nat_inj [of "p + 1" "pub + 1"] have "p + 1 = pub + 1" by (force simp del: of_nat_add)
      with pushed(1) show False by simp
    next
      case (popped p)
      with eq b word_of_nat_inj [of "p + 1024" "pub + 1"] have "p + 1024 = pub + 1" by (force simp del: of_nat_add)
      then show False using popped(2) by (metis add_1024_mod add_1_mod)
    qed
  qed
  show "word_of_nat (rel + 1024) \<notin> m_value ` snd ` set (written M (Sequence_Of (rel mod 1024)))" if b: "rel < pub"
  proof
    assume "word_of_nat (rel + 1024) \<in> m_value ` snd ` set (written M (Sequence_Of (rel mod 1024)))"
    then obtain t m where here: "(t, m) \<in> set (written M (Sequence_Of (rel mod 1024)))" and eq: "word_of_nat (rel + 1024) = m_value m" by force
    have small: "rel + 1024 < 2 ^ 64" using b bounds(2) by linarith
    from msg [OF here] bounds mod_ring [of rel] show False
    proof (cases rule: seq_message_cases)
      case initial
      with eq small word_of_nat_inj [of "rel mod 1024" "rel + 1024"] have "rel mod 1024 = rel + 1024"
        by (force simp del: of_nat_add)
      with mod_ring [of rel] show False by linarith
    next
      case (pushed p)
      with eq small word_of_nat_inj [of "p + 1" "rel + 1024"] have "p + 1 = rel + 1024" by (force simp del: of_nat_add)
      then show False using pushed(2) by (metis add_1024_mod add_1_mod)
    next
      case (popped p)
      with eq small word_of_nat_inj [of "p + 1024" "rel + 1024"] have "p + 1024 = rel + 1024" by (force simp del: of_nat_add)
      with popped(1) show False by simp
    qed
  qed
qed

text \<open>The plain load at the position to be popped.\<close>

lemma ring_ok_load:
  assumes ring: "ring_ok pub rel buf M" and full: "rel < pub"
    and load: "written M' = written M" "raced M' = raced M"
      "loads_done M' = (loads_done M)(Data_Of (rel mod 1024) := n)"
  shows "ring_ok pub rel buf M'"
proof -
  have msg: "seq_message pub rel M' k m" if old: "seq_message pub rel M k m" for k m
  proof (cases "k = rel mod 1024")
    case False
    then show ?thesis by (intro seq_message_mono [OF old]) (simp_all add: load)
  next
    case True
    have "\<not> pub \<le> rel mod 1024" using full mod_less_eq_dividend [of rel 1024] by linarith
    moreover have "\<not> pub \<le> p + 1024" if "p < rel" "p mod 1024 = rel mod 1024" for p
      using that full mod_eq_near [of p 1024 rel] by linarith
    ultimately show ?thesis
      using old covers_cong [of M' "Data_Of k" M] load(1) unfolding seq_message_def True by auto
  qed
  then have "history_ok pub rel M' k" if "history_ok pub rel M k" for k
    using that by (auto simp: history_ok_def load(1))
  with ring show ?thesis by (auto simp: ring_ok_def holds_def load(1,2))
qed

section \<open>What the threads know\<close>

text \<open>
  The producer knows all stores to the data, which are its own, the consumer all plain
  loads. Past the spin each knows the newest sequence number of its cell, and what the
  other thread did to the data before.
\<close>

definition push_knows :: "push_pc \<Rightarrow> spsc_loc memory \<Rightarrow> spsc_loc view \<Rightarrow> bool" where
  "push_knows pc M V \<longleftrightarrow> covers M Tail V \<and> (\<forall>k<1024. covers M (Data_Of k) V) \<and>
     (case pc of
        Push_Write pos \<Rightarrow> covers M (Sequence_Of (slot pos)) V \<and> knows_loads M (Data_Of (slot pos)) V
      | Push_Publish pos \<Rightarrow> covers M (Sequence_Of (slot pos)) V
      | _ \<Rightarrow> True)"

definition pop_knows :: "pop_pc \<Rightarrow> spsc_loc memory \<Rightarrow> spsc_loc view \<Rightarrow> bool" where
  "pop_knows pc M V \<longleftrightarrow> covers M Head V \<and> (\<forall>k<1024. knows_loads M (Data_Of k) V) \<and>
     (case pc of
        Pop_Read pos \<Rightarrow> covers M (Sequence_Of (slot pos)) V \<and> covers M (Data_Of (slot pos)) V
      | Pop_Release pos _ \<Rightarrow> covers M (Sequence_Of (slot pos)) V
      | _ \<Rightarrow> True)"

lemma push_knows_mono: "push_knows pc M V \<Longrightarrow> view_le V W \<Longrightarrow> push_knows pc M W"
  by (auto simp: push_knows_def intro: covers_mono knows_loads_mono split: push_pc.splits)

lemma pop_knows_mono: "pop_knows pc M V \<Longrightarrow> view_le V W \<Longrightarrow> pop_knows pc M W"
  by (auto simp: pop_knows_def intro: covers_mono knows_loads_mono split: pop_pc.splits)

lemma push_knows_own_store:
  "push_knows pc M V \<Longrightarrow> store_at order l v t V M = Some (V', M') \<Longrightarrow> push_knows pc M' V'"
  by (auto simp: push_knows_def intro: covers_own_store knows_loads_own_store split: push_pc.splits)

lemma pop_knows_own_store:
  "pop_knows pc M V \<Longrightarrow> store_at order l v t V M = Some (V', M') \<Longrightarrow> pop_knows pc M' V'"
  by (auto simp: pop_knows_def intro: covers_own_store knows_loads_own_store split: pop_pc.splits)

text \<open>The slots of the cells the threads are working on.\<close>

fun push_slot :: "push_pc \<Rightarrow> nat option" where
  "push_slot (Push_Write pos) = Some (slot pos)"
| "push_slot (Push_Publish pos) = Some (slot pos)"
| "push_slot _ = None"

fun pop_slot :: "pop_pc \<Rightarrow> nat option" where
  "pop_slot (Pop_Read pos) = Some (slot pos)"
| "pop_slot (Pop_Release pos v) = Some (slot pos)"
| "pop_slot _ = None"

text \<open>What one thread stores or loads elsewhere leaves the other one's knowledge alone.\<close>

lemma pop_knows_store:
  assumes "pop_knows pc M W" "store_at order l v t V M = Some (V', M')" "l \<noteq> Head"
    and "\<And>k. pop_slot pc = Some k \<Longrightarrow> l \<noteq> Data_Of k \<and> l \<noteq> Sequence_Of k"
  shows "pop_knows pc M' W"
proof -
  note st = store_atD [OF assms(2)]
  have "covers M' l' W = covers M l' W" if "l' \<noteq> l" for l' using that by (intro covers_cong) (simp add: st(7))
  moreover have "knows_loads M' l' W = knows_loads M l' W" for l' by (intro knows_loads_cong) (simp add: st(5))
  ultimately show ?thesis
    using assms(1,3,4) by (cases pc) (auto simp: pop_knows_def)
qed

lemma push_knows_store:
  assumes "push_knows pc M W" "store_at order l v t V M = Some (V', M')" "l = Head \<or> (\<exists>k. l = Sequence_Of k \<and> push_slot pc \<noteq> Some k)"
  shows "push_knows pc M' W"
proof -
  note st = store_atD [OF assms(2)]
  have "covers M' l' W = covers M l' W" if "l' \<noteq> l" for l' using that by (intro covers_cong) (simp add: st(7))
  moreover have "knows_loads M' l' W = knows_loads M l' W" for l' by (intro knows_loads_cong) (simp add: st(5))
  ultimately show ?thesis
    using assms(1,3) by (cases pc) (auto simp: push_knows_def)
qed

lemma push_knows_load:
  assumes "push_knows pc M W" "written M' = written M" "loads_done M' = (loads_done M)(Data_Of k := n)"
    and "push_slot pc \<noteq> Some k"
  shows "push_knows pc M' W"
  using assms by (cases pc) (auto simp: push_knows_def covers_def knows_loads_def)

lemma push_knows_any: "push_knows pc M V \<Longrightarrow> push_slot pc' = None \<Longrightarrow> push_knows pc' M V"
  by (cases pc') (auto simp: push_knows_def)

lemma pop_knows_any: "pop_knows pc M V \<Longrightarrow> pop_slot pc' = None \<Longrightarrow> pop_knows pc' M V"
  by (cases pc') (auto simp: pop_knows_def)

section \<open>The simulation\<close>

text \<open>The threads are at the same point, and the newest messages are the cells and indices.\<close>

definition same_state :: "'a ra_spsc \<Rightarrow> 'a spsc \<Rightarrow> bool" where
  "same_state s a \<longleftrightarrow>
     rp_i s = p_i a \<and> rp_pc s = p_pc a \<and> rc_i s = c_i a \<and> rc_pc s = c_pc a \<and> rc_acc s = c_acc a \<and>
     (\<forall>k<1024. holds (ra_mem s) (Sequence_Of k) (sequence (buffer a ! k)) \<and>
        holds (ra_mem s) (Data_Of k) (cdata (buffer a ! k))) \<and>
     holds (ra_mem s) Tail (tail a) \<and> holds (ra_mem s) Head (head a)"

definition ra_inv :: "'a client \<Rightarrow> 'a \<Rightarrow> 'a ra_spsc \<Rightarrow> 'a spsc \<Rightarrow> bool" where
  "ra_inv cl acc s a \<longleftrightarrow> spsc_inv cl acc a \<and>
     rp_i s = p_i a \<and> rp_pc s = p_pc a \<and> rc_i s = c_i a \<and> rc_pc s = c_pc a \<and> rc_acc s = c_acc a \<and>
     ring_ok (published a) (released a) (buffer a) (ra_mem s) \<and>
     holds (ra_mem s) Tail (tail a) \<and> holds (ra_mem s) Head (head a) \<and>
     push_knows (p_pc a) (ra_mem s) (p_view s) \<and> pop_knows (c_pc a) (ra_mem s) (c_view s)"

lemma ra_invD:
  assumes "ra_inv cl acc s a"
  shows "spsc_inv cl acc a" "p_i a = rp_i s" "p_pc a = rp_pc s" "c_i a = rc_i s" "c_pc a = rc_pc s" "c_acc a = rc_acc s"
    "ring_ok (published a) (released a) (buffer a) (ra_mem s)" "holds (ra_mem s) Tail (tail a)" "holds (ra_mem s) Head (head a)"
    "push_knows (rp_pc s) (ra_mem s) (p_view s)" "pop_knows (rc_pc s) (ra_mem s) (c_view s)"
  using assms by (simp_all add: ra_inv_def)

text \<open>Where the threads are, in the numbering of the positions by naturals.\<close>

lemma spsc_inv_bounds:
  assumes "spsc_inv cl acc a"
  shows "length (buffer a) = 1024" "released a \<le> published a" "published a \<le> unat (total cl)"
  using cells_ok_bounds published_le_total [OF assms] assms by (auto simp: spsc_inv_def)

lemma push_slotD:
  assumes "spsc_inv cl acc a" "push_slot (p_pc a) = Some k"
  shows "k = published a mod 1024" "published a < released a + 1024"
  using assms by (auto simp: spsc_inv_def producer_ok_def published_def slot_unat split: push_pc.splits)

lemma pop_slotD:
  assumes "spsc_inv cl acc a" "pop_slot (c_pc a) = Some k"
  shows "k = released a mod 1024" "released a < published a"
  using assms by (auto simp: spsc_inv_def consumer_ok_def released_def slot_unat split: pop_pc.splits)

lemma slots_differ:
  assumes "spsc_inv cl acc a"
  shows "pop_slot (c_pc a) = Some k \<Longrightarrow> published a < released a + 1024 \<Longrightarrow> k \<noteq> published a mod 1024"
    and "push_slot (p_pc a) = Some k \<Longrightarrow> released a < published a \<Longrightarrow> k \<noteq> released a mod 1024"
  using pop_slotD [OF assms] push_slotD [OF assms] mod_eq_near [of "released a" 1024 "published a"] by auto

lemma pushing:
  assumes "spsc_inv cl acc a"
  shows "p_pc a = Push_Spin pos \<Longrightarrow> pos = word_of_nat (published a)"
    and "p_pc a = Push_Write pos \<Longrightarrow> pos = word_of_nat (published a)"
    and "p_pc a = Push_Publish pos \<Longrightarrow> pos = word_of_nat (published a) \<and> published a < unat (total cl)"
  using assms by (auto simp: spsc_inv_def producer_ok_def published_def word_less_nat_alt)

lemma popping:
  assumes "spsc_inv cl acc a"
  shows "c_pc a = Pop_Spin pos \<Longrightarrow> pos = word_of_nat (released a)"
    and "c_pc a = Pop_Read pos \<Longrightarrow> pos = word_of_nat (released a)"
    and "c_pc a = Pop_Release pos v \<Longrightarrow> pos = word_of_nat (released a)"
  using assms by (auto simp: spsc_inv_def consumer_ok_def released_def)

text \<open>A step of one thread leaves the other one's part of the state alone.\<close>

lemma producer_frame:
  "c_i (producer_step cl a) = c_i a" "c_pc (producer_step cl a) = c_pc a" "c_acc (producer_step cl a) = c_acc a"
  "head (producer_step cl a) = head a" "released (producer_step cl a) = released a"
  by (simp_all add: producer_step_def released_def split: push_pc.splits)

lemma consumer_frame:
  "p_i (consumer_step cl a) = p_i a" "p_pc (consumer_step cl a) = p_pc a"
  "tail (consumer_step cl a) = tail a" "published (consumer_step cl a) = published a"
  by (simp_all add: consumer_step_def published_def split: pop_pc.splits)

lemma ra_inv_push:
  assumes "ra_inv cl acc s a" and "a' = producer_step cl a"
    and "ring_ok (published a') (released a) (buffer a') M" "holds M Tail (tail a')" "holds M Head (head a)"
    and "push_knows (p_pc a') M V" "pop_knows (c_pc a) M (c_view s)"
  shows "ra_inv cl acc (s\<lparr>p_view := V, ra_mem := M, rp_pc := p_pc a', rp_i := p_i a'\<rparr>) a'"
  using assms spsc_inv_producer [of cl acc a] by (simp add: ra_inv_def producer_frame)

lemma ra_inv_pop:
  assumes "ra_inv cl acc s a" and "a' = consumer_step cl a"
    and "ring_ok (published a) (released a') (buffer a') M" "holds M Tail (tail a)" "holds M Head (head a')"
    and "push_knows (p_pc a) M (p_view s)" "pop_knows (c_pc a') M V"
  shows "ra_inv cl acc (s\<lparr>c_view := V, ra_mem := M, rc_pc := c_pc a', rc_i := c_i a', rc_acc := c_acc a'\<rparr>) a'"
  using assms spsc_inv_consumer [of cl acc a] by (simp add: ra_inv_def consumer_frame)

lemma ra_push_load:
  assumes inv: "ra_inv cl acc s a" and pc: "rp_pc s = Push_Load" and step: "ra_push cl t s = Some s'"
  shows "ra_inv cl acc s' (producer_step cl a)"
proof -
  note a = ra_invD [OF inv, unfolded pc]
  from pc step obtain pos V where load: "load_at Relaxed Tail t (p_view s) (ra_mem s) = Some (pos, V)"
    and less: "rp_i s < total cl" and s': "s' = s\<lparr>p_view := V, rp_pc := Push_Spin pos\<rparr>"
    by (auto simp: ra_push_def split: if_splits)
  let ?a = "producer_step cl a"
  have pos: "pos = tail a" using load_newest [OF load _ a(8)] a(10) by (simp add: push_knows_def)
  have step: "p_pc ?a = Push_Spin pos" "p_i ?a = rp_i s" "buffer ?a = buffer a" "tail ?a = tail a" "published ?a = published a"
    using a(2,3) less by (simp_all add: producer_step_def published_def pos)
  have "view_le (p_view s) V" using load_atD [OF load] by metis
  then have "push_knows (Push_Spin pos) (ra_mem s) V"
    by (intro push_knows_any [OF push_knows_mono [OF a(10)]]) simp_all
  with a have "ra_inv cl acc (s\<lparr>p_view := V, ra_mem := ra_mem s, rp_pc := p_pc ?a, rp_i := p_i ?a\<rparr>) ?a"
    by (intro ra_inv_push [OF inv refl]) (simp_all add: step)
  then show ?thesis by (simp add: s' step)
qed

lemma ra_push_spin:
  assumes inv: "ra_inv cl acc s a" and pc: "rp_pc s = Push_Spin pos" and step: "ra_push cl t s = Some s'"
    and bound: "unat (total cl) + 1024 \<le> 2 ^ 64"
  shows "ra_inv cl acc s' a \<or> ra_inv cl acc s' (producer_step cl a)"
proof -
  note a = ra_invD [OF inv, unfolded pc] and b = spsc_inv_bounds [OF ra_invD(1) [OF inv]]
  let ?k = "published a mod 1024"
  from a(1,3) have pos: "pos = word_of_nat (published a)" by (rule pushing(1))
  then have slot: "slot pos = ?k" by (simp add: slot_nat)
  from pc step obtain sq V where load: "load_at Acquire (Sequence_Of ?k) t (p_view s) (ra_mem s) = Some (sq, V)"
    and s': "s' = s\<lparr>p_view := V, rp_pc := (if sq \<noteq> pos then Push_Spin pos else Push_Write pos)\<rparr>"
    by (auto simp: ra_push_def slot)
  obtain msg where msg: "map_of (written (ra_mem s) (Sequence_Of ?k)) t = Some msg" "sq = m_value msg"
    "view_le (p_view s) V" "view_le (m_view msg) V"
    using load_atD [OF load] by metis
  have knows: "push_knows (Push_Spin pos) (ra_mem s) V" by (rule push_knows_mono [OF a(10) msg(3)])
  show ?thesis
  proof (cases "sq = pos")
    case False
    with inv pc knows show ?thesis by (auto simp: ra_inv_def s')
  next
    case True
    note ring = ring_okD [OF a(7) mod_ring, of "published a"]
    have free: "published a < released a + 1024" "knows_loads (ra_mem s) (Data_Of ?k) (m_view msg)"
      using free_message [OF history_okD [OF ring(1) map_of_SomeD [OF msg(1)]] b(2)] b(3) bound True msg(2) pos by auto
    have seq: "sequence (buffer a ! ?k) = pos"
      using cells_free_iff a(1) free(1) unfolding pos spsc_inv_def by blast
    let ?a = "producer_step cl a"
    have step: "p_pc ?a = Push_Write pos" "p_i ?a = rp_i s" "buffer ?a = buffer a" "tail ?a = tail a" "published ?a = published a"
      using a(2,3) seq by (simp_all add: producer_step_def published_def slot)
    have "covers (ra_mem s) (Sequence_Of ?k) V"
      using load_covers [OF load] ring(1,2) by (simp add: history_ok_def seq True)
    with knows knows_loads_mono [OF free(2) msg(4)] have "push_knows (Push_Write pos) (ra_mem s) V"
      by (simp add: push_knows_def slot)
    with a have "ra_inv cl acc (s\<lparr>p_view := V, ra_mem := ra_mem s, rp_pc := p_pc ?a, rp_i := p_i ?a\<rparr>) ?a"
      by (intro ra_inv_push [OF inv refl]) (simp_all add: step)
    then show ?thesis by (simp add: s' step True)
  qed
qed

lemma ra_push_write:
  assumes inv: "ra_inv cl acc s a" and pc: "rp_pc s = Push_Write pos" and step: "ra_push cl t s = Some s'"
  shows "ra_inv cl acc s' (producer_step cl a)"
proof -
  note a = ra_invD [OF inv, unfolded pc] and b = spsc_inv_bounds [OF ra_invD(1) [OF inv]]
  let ?k = "published a mod 1024"
  from a(1,3) have pos: "pos = word_of_nat (published a)" by (rule pushing(2))
  then have slot: "slot pos = ?k" by (simp add: slot_nat)
  from push_slotD [OF a(1)] a(3) have room: "published a < released a + 1024" by simp
  let ?v = "payload cl (p_i a)"
  from pc step obtain V M where plain: "plain_store (Data_Of ?k) ?v t (p_view s) (ra_mem s) = Some (V, M)"
    and s': "s' = s\<lparr>p_view := V, ra_mem := M, rp_pc := Push_Publish pos\<rparr>"
    by (auto simp: ra_push_def slot a(2))
  have known: "covers (ra_mem s) (Data_Of ?k) (p_view s)" "knows_loads (ra_mem s) (Data_Of ?k) (p_view s)"
    using a(10) by (simp_all add: push_knows_def slot)
  from plain_storeD [OF plain known] have store: "store_at Relaxed (Data_Of ?k) ?v t (p_view s) (ra_mem s) = Some (V, M)" .
  let ?a = "producer_step cl a"
  have step: "p_pc ?a = Push_Publish pos" "p_i ?a = rp_i s" "buffer ?a = put_data pos ?v (buffer a)" "tail ?a = tail a" "published ?a = published a"
    using a(2,3) by (simp_all add: producer_step_def published_def)
  have "push_knows (Push_Publish pos) M V"
    using push_knows_own_store [OF a(10) store] by (simp add: push_knows_def)
  moreover have "pop_knows (rc_pc s) M (c_view s)"
    using slots_differ(1) [OF a(1) _ room] a(5) by (intro pop_knows_store [OF a(11) store]) auto
  moreover have "ring_ok (published a) (released a) (buffer ?a) M"
    unfolding step pos by (rule ring_ok_data [OF a(7) room b(1) store known(1)])
  moreover have "holds M Tail (tail a)" "holds M Head (head a)"
    using a(8,9) by (simp_all add: holds_other_store [OF store])
  ultimately have "ra_inv cl acc (s\<lparr>p_view := V, ra_mem := M, rp_pc := p_pc ?a, rp_i := p_i ?a\<rparr>) ?a"
    using a by (intro ra_inv_push [OF inv refl]) (simp_all add: step)
  then show ?thesis by (simp add: s' step)
qed

lemma ra_push_publish:
  assumes inv: "ra_inv cl acc s a" and pc: "rp_pc s = Push_Publish pos" and step: "ra_push cl t s = Some s'"
    and bound: "unat (total cl) + 1024 \<le> 2 ^ 64"
  shows "ra_inv cl acc s' (producer_step cl a)"
proof -
  note a = ra_invD [OF inv, unfolded pc] and b = spsc_inv_bounds [OF ra_invD(1) [OF inv]]
  let ?n = "published a" and ?k = "published a mod 1024"
  from pushing(3) [OF a(1,3)] have pos: "pos = word_of_nat ?n" and more_to_come: "?n < unat (total cl)" by auto
  then have slot: "slot pos = ?k" by (simp add: slot_nat)
  from push_slotD [OF a(1)] a(3) have room: "?n < released a + 1024" by simp
  from pc step obtain V M where store: "store_at Release (Sequence_Of ?k) (pos + 1) t (p_view s) (ra_mem s) = Some (V, M)"
    and s': "s' = s\<lparr>p_view := V, ra_mem := M, rp_pc := Push_Store pos\<rparr>"
    by (auto simp: ra_push_def slot)
  have known: "covers (ra_mem s) (Sequence_Of ?k) (p_view s)" using a(10) by (simp add: push_knows_def slot)
  let ?a = "producer_step cl a"
  have step: "p_pc ?a = Push_Store pos" "p_i ?a = rp_i s" "buffer ?a = put_sequence pos (pos + 1) (buffer a)" "tail ?a = tail a" "published ?a = Suc ?n"
    using a(2,3) by (simp_all add: producer_step_def published_def)
  note own = push_knows_own_store [OF a(10) store]
  then have "push_knows (Push_Store pos) M V" by (rule push_knows_any) simp
  moreover have "pop_knows (rc_pc s) M (c_view s)"
    using slots_differ(1) [OF a(1) _ room] a(5) by (intro pop_knows_store [OF a(11) store]) auto
  moreover have "ring_ok (Suc ?n) (released a) (buffer ?a) M"
    unfolding step pos
  proof (rule ring_ok_sequence [OF a(7) b(1) store [unfolded pos] known])
    show "seq_message (Suc ?n) (released a) M ?k \<lparr>m_value = word_of_nat ?n + 1, m_view = V\<rparr>"
      using own by (auto simp: seq_message_def push_knows_def add.commute)
    have "?n + 1 + 1024 \<le> 2 ^ 64" using more_to_come bound by linarith
    then show "word_of_nat ?n + 1 \<notin> m_value ` snd ` set (written (ra_mem s) (Sequence_Of ?k))"
      using fresh_sequence(1) [OF a(7) b(2)] by (simp add: add.commute)
  qed simp_all
  moreover have "holds M Tail (tail a)" "holds M Head (head a)"
    using a(8,9) by (simp_all add: holds_other_store [OF store])
  ultimately have "ra_inv cl acc (s\<lparr>p_view := V, ra_mem := M, rp_pc := p_pc ?a, rp_i := p_i ?a\<rparr>) ?a"
    using a by (intro ra_inv_push [OF inv refl]) (simp_all add: step)
  then show ?thesis by (simp add: s' step)
qed

lemma ra_push_store:
  assumes inv: "ra_inv cl acc s a" and pc: "rp_pc s = Push_Store pos" and step: "ra_push cl t s = Some s'"
  shows "ra_inv cl acc s' (producer_step cl a)"
proof -
  note a = ra_invD [OF inv, unfolded pc]
  from pc step obtain V M where store: "store_at Relaxed Tail (pos + 1) t (p_view s) (ra_mem s) = Some (V, M)"
    and s': "s' = s\<lparr>p_view := V, ra_mem := M, rp_pc := Push_Load, rp_i := rp_i s + 1\<rparr>"
    by (auto simp: ra_push_def)
  have known: "covers (ra_mem s) Tail (p_view s)" using a(10) by (simp add: push_knows_def)
  let ?a = "producer_step cl a"
  have "p_i a < total cl" using a(1,3) by (simp add: spsc_inv_def producer_ok_def)
  then have step: "p_pc ?a = Push_Load" "p_i ?a = rp_i s + 1" "buffer ?a = buffer a" "tail ?a = pos + 1" "published ?a = published a"
    using a(2,3) by (simp_all add: producer_step_def published_def unat_Suc_less)
  have "push_knows Push_Load M V" by (rule push_knows_any [OF push_knows_own_store [OF a(10) store]]) simp
  moreover have "pop_knows (rc_pc s) M (c_view s)" by (rule pop_knows_store [OF a(11) store]) simp_all
  moreover have "ring_ok (published a) (released a) (buffer a) M" by (rule ring_ok_other [OF a(7) store]) simp
  moreover have "holds M Head (head a)" using a(9) by (simp add: holds_other_store [OF store])
  ultimately have "ra_inv cl acc (s\<lparr>p_view := V, ra_mem := M, rp_pc := p_pc ?a, rp_i := p_i ?a\<rparr>) ?a"
    using a store_newest(2) [OF store known] by (intro ra_inv_push [OF inv refl]) (simp_all add: step)
  then show ?thesis by (simp add: s' step)
qed

lemma ra_push_simulates:
  assumes "ra_inv cl acc s a" "ra_push cl t s = Some s'" "unat (total cl) + 1024 \<le> 2 ^ 64"
  shows "ra_inv cl acc s' a \<or> ra_inv cl acc s' (producer_step cl a)"
proof (cases "rp_pc s")
  case (Push_Spin pos)
  from ra_push_spin [OF assms(1) this assms(2,3)] show ?thesis .
next
  case (Push_Publish pos)
  from ra_push_publish [OF assms(1) this assms(2,3)] show ?thesis ..
qed (use assms(1,2) in \<open>blast intro: ra_push_load ra_push_write ra_push_store\<close>)+

lemma ra_pop_load:
  assumes inv: "ra_inv cl acc s a" and pc: "rc_pc s = Pop_Load" and step: "ra_pop cl t s = Some s'"
  shows "ra_inv cl acc s' (consumer_step cl a)"
proof -
  note a = ra_invD [OF inv, unfolded pc]
  from pc step obtain pos V where load: "load_at Relaxed Head t (c_view s) (ra_mem s) = Some (pos, V)"
    and less: "rc_i s < total cl" and s': "s' = s\<lparr>c_view := V, rc_pc := Pop_Spin pos\<rparr>"
    by (auto simp: ra_pop_def split: if_splits)
  let ?a = "consumer_step cl a"
  have pos: "pos = head a" using load_newest [OF load _ a(9)] a(11) by (simp add: pop_knows_def)
  have step: "c_pc ?a = Pop_Spin pos" "c_i ?a = rc_i s" "c_acc ?a = rc_acc s" "buffer ?a = buffer a" "head ?a = head a"
    "released ?a = released a"
    using a(4-6) less by (simp_all add: consumer_step_def released_def pos)
  have "view_le (c_view s) V" using load_atD [OF load] by metis
  then have "pop_knows (Pop_Spin pos) (ra_mem s) V"
    by (intro pop_knows_any [OF pop_knows_mono [OF a(11)]]) simp_all
  with a have "ra_inv cl acc (s\<lparr>c_view := V, ra_mem := ra_mem s, rc_pc := c_pc ?a, rc_i := c_i ?a, rc_acc := c_acc ?a\<rparr>) ?a"
    by (intro ra_inv_pop [OF inv refl]) (simp_all add: step)
  then show ?thesis by (simp add: s' step)
qed

lemma ra_pop_spin:
  assumes inv: "ra_inv cl acc s a" and pc: "rc_pc s = Pop_Spin pos" and step: "ra_pop cl t s = Some s'"
    and bound: "unat (total cl) + 1024 \<le> 2 ^ 64"
  shows "ra_inv cl acc s' a \<or> ra_inv cl acc s' (consumer_step cl a)"
proof -
  note a = ra_invD [OF inv, unfolded pc] and b = spsc_inv_bounds [OF ra_invD(1) [OF inv]]
  let ?k = "released a mod 1024"
  from a(1,5) have pos: "pos = word_of_nat (released a)" by (rule popping(1))
  then have slot: "slot pos = ?k" by (simp add: slot_nat)
  from pc step obtain sq V where load: "load_at Acquire (Sequence_Of ?k) t (c_view s) (ra_mem s) = Some (sq, V)"
    and s': "s' = s\<lparr>c_view := V, rc_pc := (if sq \<noteq> pos + 1 then Pop_Spin pos else Pop_Read pos)\<rparr>"
    by (auto simp: ra_pop_def slot)
  obtain msg where msg: "map_of (written (ra_mem s) (Sequence_Of ?k)) t = Some msg" "sq = m_value msg"
    "view_le (c_view s) V" "view_le (m_view msg) V"
    using load_atD [OF load] by metis
  have knows: "pop_knows (Pop_Spin pos) (ra_mem s) V" by (rule pop_knows_mono [OF a(11) msg(3)])
  show ?thesis
  proof (cases "sq = pos + 1")
    case False
    with inv pc knows show ?thesis by (auto simp: ra_inv_def s')
  next
    case True
    note ring = ring_okD [OF a(7) mod_ring, of "released a"]
    have full: "released a < published a" "covers (ra_mem s) (Data_Of ?k) (m_view msg)"
      using published_message [OF history_okD [OF ring(1) map_of_SomeD [OF msg(1)]] b(2)] b(3) bound True msg(2) pos by auto
    have seq: "sequence (buffer a ! ?k) = pos + 1"
      using cells_full_iff a(1) full(1) unfolding pos spsc_inv_def by blast
    let ?a = "consumer_step cl a"
    have step: "c_pc ?a = Pop_Read pos" "c_i ?a = rc_i s" "c_acc ?a = rc_acc s" "buffer ?a = buffer a" "head ?a = head a"
      "released ?a = released a"
      using a(4-6) seq by (simp_all add: consumer_step_def released_def slot)
    have "covers (ra_mem s) (Sequence_Of ?k) V"
      using load_covers [OF load] ring(1,2) by (simp add: history_ok_def seq True)
    with knows covers_mono [OF full(2) msg(4)] have "pop_knows (Pop_Read pos) (ra_mem s) V"
      by (simp add: pop_knows_def slot)
    with a have "ra_inv cl acc (s\<lparr>c_view := V, ra_mem := ra_mem s, rc_pc := c_pc ?a, rc_i := c_i ?a, rc_acc := c_acc ?a\<rparr>) ?a"
      by (intro ra_inv_pop [OF inv refl]) (simp_all add: step)
    then show ?thesis by (simp add: s' step True)
  qed
qed

lemma ra_pop_read:
  assumes inv: "ra_inv cl acc s a" and pc: "rc_pc s = Pop_Read pos" and step: "ra_pop cl t s = Some s'"
  shows "ra_inv cl acc s' (consumer_step cl a)"
proof -
  note a = ra_invD [OF inv, unfolded pc] and b = spsc_inv_bounds [OF ra_invD(1) [OF inv]]
  let ?k = "released a mod 1024"
  from a(1,5) have pos: "pos = word_of_nat (released a)" by (rule popping(2))
  then have slot: "slot pos = ?k" by (simp add: slot_nat)
  from pop_slotD [OF a(1)] a(5) have full: "released a < published a" by simp
  from pc step obtain v V M where plain: "plain_load (Data_Of ?k) t (c_view s) (ra_mem s) = Some (v, V, M)"
    and s': "s' = s\<lparr>c_view := V, ra_mem := M, rc_pc := Pop_Release pos v\<rparr>"
    by (auto simp: ra_pop_def slot)
  have known: "covers (ra_mem s) (Data_Of ?k) (c_view s)" "knows_loads (ra_mem s) (Data_Of ?k) (c_view s)"
    "covers (ra_mem s) (Sequence_Of ?k) (c_view s)" using a(11) by (simp_all add: pop_knows_def slot)
  note load = plain_loadD [OF plain known(1) ring_okD(3) [OF a(7) mod_ring]]
  let ?a = "consumer_step cl a"
  have step: "c_pc ?a = Pop_Release pos v" "c_i ?a = rc_i s" "c_acc ?a = rc_acc s" "buffer ?a = buffer a" "head ?a = head a"
    "released ?a = released a"
    using a(4-6) by (simp_all add: consumer_step_def released_def slot load(1))
  have "knows_loads M (Data_Of k) V" if "k < 1024" for k
    using a(11) that load(2,5,6) known(2)
    by (cases "k = ?k") (auto simp: pop_knows_def knows_loads_def view_le_def)
  moreover have "covers M l V" if "covers (ra_mem s) l (c_view s)" for l
    using covers_mono [OF that load(2)] by (simp add: covers_def load(3))
  ultimately have "pop_knows (Pop_Release pos v) M V"
    using a(11) by (simp add: pop_knows_def)
  moreover have "push_knows (rp_pc s) M (p_view s)"
    using slots_differ(2) [OF a(1) _ full] a(3) by (intro push_knows_load [OF a(10) load(3,5)]) auto
  moreover have "ring_ok (published a) (released a) (buffer a) M"
    by (rule ring_ok_load [OF a(7) full load(3,4,5)])
  moreover have "holds M Tail (tail a)" "holds M Head (head a)"
    using a(8,9) by (simp_all add: holds_def load(3))
  ultimately have "ra_inv cl acc (s\<lparr>c_view := V, ra_mem := M, rc_pc := c_pc ?a, rc_i := c_i ?a, rc_acc := c_acc ?a\<rparr>) ?a"
    using a by (intro ra_inv_pop [OF inv refl]) (simp_all add: step)
  then show ?thesis using a(4,6) by (simp add: s' step)
qed

lemma ra_pop_release:
  assumes inv: "ra_inv cl acc s a" and pc: "rc_pc s = Pop_Release pos v" and step: "ra_pop cl t s = Some s'"
    and bound: "unat (total cl) + 1024 \<le> 2 ^ 64"
  shows "ra_inv cl acc s' (consumer_step cl a)"
proof -
  note a = ra_invD [OF inv, unfolded pc] and b = spsc_inv_bounds [OF ra_invD(1) [OF inv]]
  let ?n = "released a" and ?k = "released a mod 1024"
  from a(1,5) have pos: "pos = word_of_nat ?n" by (rule popping(3))
  then have slot: "slot pos = ?k" by (simp add: slot_nat)
  from pop_slotD [OF a(1)] a(5) have full: "?n < published a" by simp
  from pc step obtain V M where store: "store_at Release (Sequence_Of ?k) (pos + kCapacity) t (c_view s) (ra_mem s) = Some (V, M)"
    and s': "s' = s\<lparr>c_view := V, ra_mem := M, rc_pc := Pop_Store pos v\<rparr>"
    by (auto simp: ra_pop_def slot)
  have known: "covers (ra_mem s) (Sequence_Of ?k) (c_view s)" using a(11) by (simp add: pop_knows_def slot)
  let ?a = "consumer_step cl a"
  have step: "c_pc ?a = Pop_Store pos v" "c_i ?a = rc_i s" "c_acc ?a = rc_acc s" "head ?a = head a"
    "buffer ?a = put_sequence pos (pos + kCapacity) (buffer a)" "released ?a = Suc ?n"
    using a(4-6) by (simp_all add: consumer_step_def released_def)
  note own = pop_knows_own_store [OF a(11) store]
  then have "pop_knows (Pop_Store pos v) M V" by (rule pop_knows_any) simp
  moreover have "push_knows (rp_pc s) M (p_view s)"
    using slots_differ(2) [OF a(1) _ full] a(3) by (intro push_knows_store [OF a(10) store]) auto
  moreover have "ring_ok (published a) (Suc ?n) (buffer ?a) M"
    unfolding step pos
  proof (rule ring_ok_sequence [OF a(7) b(1) store [unfolded pos] known])
    show "seq_message (published a) (Suc ?n) M ?k \<lparr>m_value = word_of_nat ?n + kCapacity, m_view = V\<rparr>"
      using own by (auto simp: seq_message_def pop_knows_def kCapacity_def)
    have "published a + 1024 \<le> 2 ^ 64" using b(3) bound by linarith
    then show "word_of_nat ?n + kCapacity \<notin> m_value ` snd ` set (written (ra_mem s) (Sequence_Of ?k))"
      using fresh_sequence(2) [OF a(7) b(2) _ full] by (simp add: kCapacity_def)
  qed simp_all
  moreover have "holds M Tail (tail a)" "holds M Head (head a)"
    using a(8,9) by (simp_all add: holds_other_store [OF store])
  ultimately have "ra_inv cl acc (s\<lparr>c_view := V, ra_mem := M, rc_pc := c_pc ?a, rc_i := c_i ?a, rc_acc := c_acc ?a\<rparr>) ?a"
    using a by (intro ra_inv_pop [OF inv refl]) (simp_all add: step)
  then show ?thesis by (simp add: s' step)
qed

lemma ra_pop_store:
  assumes inv: "ra_inv cl acc s a" and pc: "rc_pc s = Pop_Store pos v" and step: "ra_pop cl t s = Some s'"
  shows "ra_inv cl acc s' (consumer_step cl a)"
proof -
  note a = ra_invD [OF inv, unfolded pc]
  from pc step obtain V M where store: "store_at Relaxed Head (pos + 1) t (c_view s) (ra_mem s) = Some (V, M)"
    and s': "s' = s\<lparr>c_view := V, ra_mem := M, rc_pc := Pop_Load, rc_i := rc_i s + 1, rc_acc := consume cl (rc_i s) v (rc_acc s)\<rparr>"
    by (auto simp: ra_pop_def)
  have known: "covers (ra_mem s) Head (c_view s)" using a(11) by (simp add: pop_knows_def)
  let ?a = "consumer_step cl a"
  have "c_i a < total cl" using a(1,5) by (simp add: spsc_inv_def consumer_ok_def)
  then have step: "c_pc ?a = Pop_Load" "c_i ?a = rc_i s + 1" "c_acc ?a = consume cl (rc_i s) v (rc_acc s)"
    "buffer ?a = buffer a" "head ?a = pos + 1" "released ?a = released a"
    using a(4-6) by (simp_all add: consumer_step_def released_def unat_Suc_less)
  have "pop_knows Pop_Load M V" by (rule pop_knows_any [OF pop_knows_own_store [OF a(11) store]]) simp
  moreover have "push_knows (rp_pc s) M (p_view s)" by (rule push_knows_store [OF a(10) store]) simp
  moreover have "ring_ok (published a) (released a) (buffer a) M" by (rule ring_ok_other [OF a(7) store]) simp
  moreover have "holds M Tail (tail a)" using a(8) by (simp add: holds_other_store [OF store])
  ultimately have "ra_inv cl acc (s\<lparr>c_view := V, ra_mem := M, rc_pc := c_pc ?a, rc_i := c_i ?a, rc_acc := c_acc ?a\<rparr>) ?a"
    using a store_newest(2) [OF store known] by (intro ra_inv_pop [OF inv refl]) (simp_all add: step)
  then show ?thesis by (simp add: s' step)
qed

lemma ra_pop_simulates:
  assumes "ra_inv cl acc s a" "ra_pop cl t s = Some s'" "unat (total cl) + 1024 \<le> 2 ^ 64"
  shows "ra_inv cl acc s' a \<or> ra_inv cl acc s' (consumer_step cl a)"
proof (cases "rc_pc s")
  case (Pop_Spin pos)
  from ra_pop_spin [OF assms(1) this assms(2,3)] show ?thesis .
next
  case (Pop_Release pos v)
  from ra_pop_release [OF assms(1) this assms(2,3)] show ?thesis ..
qed (use assms(1,2) in \<open>blast intro: ra_pop_load ra_pop_read ra_pop_store\<close>)+

lemma ra_inv_same_state: "ra_inv cl acc s a \<Longrightarrow> same_state s a \<and> \<not> raced (ra_mem s)"
  by (simp add: ra_inv_def same_state_def ring_ok_def)

lemma ra_inv_start:
  assumes "length buf = 1024"
  shows "ra_inv cl acc (ra_start buf acc) (spsc_start buf acc)"
proof -
  let ?M = "initial_memory (initial_value (queue_init buf))"
  have one: "written ?M l = [(0, \<lparr>m_value = initial_value (queue_init buf) l, m_view = initial_view\<rparr>)]" "loads_done ?M l = 0"
    "\<not> raced ?M" for l by (simp_all add: initial_memory_def)
  have know: "covers ?M l V" "knows_loads ?M l V" "holds ?M l v \<longleftrightarrow> v = initial_value (queue_init buf) l" for l V v
    by (auto simp: covers_def knows_loads_def holds_def one)
  have "ring_ok 0 0 (queue_init buf) ?M"
    by (auto simp: ring_ok_def history_ok_def one know seq_message_def sequence_after_init(2) [OF assms])
  then show ?thesis
    using spsc_inv_start [OF assms, of cl acc]
    by (simp add: ra_inv_def ra_start_def know push_knows_def pop_knows_def)
      (simp add: spsc_start_def published_def released_def)
qed

text \<open>Views only name messages that exist.\<close>

definition ra_wf :: "'a ra_spsc \<Rightarrow> bool" where
  "ra_wf s \<longleftrightarrow> views_in (ra_mem s) \<and> view_in (ra_mem s) (p_view s) \<and> view_in (ra_mem s) (c_view s)"

lemma ra_push_wf: "ra_wf s \<Longrightarrow> ra_push cl t s = Some s' \<Longrightarrow> ra_wf s'"
  by (auto simp: ra_wf_def ra_push_def split: push_pc.splits if_splits
      dest: load_view_in store_view_in plain_store_view_in)

lemma ra_pop_wf: "ra_wf s \<Longrightarrow> ra_pop cl t s = Some s' \<Longrightarrow> ra_wf s'"
  by (auto simp: ra_wf_def ra_pop_def split: pop_pc.splits if_splits
      dest: load_view_in store_view_in plain_load_view_in)

text \<open>With the up-to-date choice a thread takes the step of the interleaving machine.\<close>

lemma ra_push_newest:
  assumes inv: "ra_inv cl acc s a" and wf: "ra_wf s" and bound: "unat (total cl) + 1024 \<le> 2 ^ 64"
  shows "case ra_push cl (push_time s) s of None \<Rightarrow> producer_step cl a = a
    | Some s' \<Rightarrow> ra_inv cl acc s' (producer_step cl a)"
proof (cases "ra_push cl (push_time s) s")
  case None
  note a = ra_invD [OF inv]
  from wf have v: "view_in (ra_mem s) (p_view s)" by (simp add: ra_wf_def)
  have "rp_pc s = Push_Load \<and> \<not> rp_i s < total cl"
  proof (rule ccontr)
    assume "\<not> ?thesis"
    with None v show False
      by (cases "rp_pc s")
        (auto simp: ra_push_def push_time_def plain_store_def newest_allowed split: option.splits)
  qed
  with a have "producer_step cl a = a" by (simp add: producer_step_def)
  with None show ?thesis by simp
next
  case (Some s')
  from ra_push_simulates [OF inv Some bound] have "ra_inv cl acc s' (producer_step cl a)"
  proof
    assume same: "ra_inv cl acc s' a"
    then have "rp_pc s' = rp_pc s" using ra_invD(3) [OF inv] ra_invD(3) [OF same] by simp
    then obtain pos where pc: "rp_pc s = Push_Spin pos"
      using Some by (cases "rp_pc s") (auto simp: ra_push_def split: if_splits)
    note a = ra_invD [OF inv, unfolded pc]
    from wf have v: "view_in (ra_mem s) (p_view s)" by (simp add: ra_wf_def)
    obtain sq V where load: "load_at Acquire (Sequence_Of (slot pos)) (push_time s) (p_view s) (ra_mem s) = Some (sq, V)"
        "sq = sequence (buffer a ! slot pos)"
      using load_newest_message [OF v, of Acquire "Sequence_Of (slot pos)" "sequence (buffer a ! slot pos)"]
        ring_okD(2) [OF a(7) slot_in_ring] by (auto simp: push_time_def pc)
    with Some pc \<open>rp_pc s' = rp_pc s\<close> have "sequence (buffer a ! slot pos) \<noteq> pos"
      by (auto simp: ra_push_def)
    with a(3) have "producer_step cl a = a" by (simp add: producer_step_def)
    with same show ?thesis by simp
  qed
  with Some show ?thesis by simp
qed

lemma ra_pop_newest:
  assumes inv: "ra_inv cl acc s a" and wf: "ra_wf s" and bound: "unat (total cl) + 1024 \<le> 2 ^ 64"
  shows "case ra_pop cl (pop_time s) s of None \<Rightarrow> consumer_step cl a = a
    | Some s' \<Rightarrow> ra_inv cl acc s' (consumer_step cl a)"
proof (cases "ra_pop cl (pop_time s) s")
  case None
  note a = ra_invD [OF inv]
  from wf have v: "view_in (ra_mem s) (c_view s)" by (simp add: ra_wf_def)
  have "rc_pc s = Pop_Load \<and> \<not> rc_i s < total cl"
  proof (rule ccontr)
    assume "\<not> ?thesis"
    with None v show False
      by (cases "rc_pc s")
        (auto simp: ra_pop_def pop_time_def plain_load_def newest_allowed split: option.splits)
  qed
  with a have "consumer_step cl a = a" by (simp add: consumer_step_def)
  with None show ?thesis by simp
next
  case (Some s')
  from ra_pop_simulates [OF inv Some bound] have "ra_inv cl acc s' (consumer_step cl a)"
  proof
    assume same: "ra_inv cl acc s' a"
    then have "rc_pc s' = rc_pc s" using ra_invD(5) [OF inv] ra_invD(5) [OF same] by simp
    then obtain pos where pc: "rc_pc s = Pop_Spin pos"
      using Some by (cases "rc_pc s") (auto simp: ra_pop_def split: if_splits)
    note a = ra_invD [OF inv, unfolded pc]
    from wf have v: "view_in (ra_mem s) (c_view s)" by (simp add: ra_wf_def)
    obtain sq V where load: "load_at Acquire (Sequence_Of (slot pos)) (pop_time s) (c_view s) (ra_mem s) = Some (sq, V)"
        "sq = sequence (buffer a ! slot pos)"
      using load_newest_message [OF v, of Acquire "Sequence_Of (slot pos)" "sequence (buffer a ! slot pos)"]
        ring_okD(2) [OF a(7) slot_in_ring] by (auto simp: pop_time_def pc)
    with Some pc \<open>rc_pc s' = rc_pc s\<close> have "sequence (buffer a ! slot pos) \<noteq> pos + 1"
      by (auto simp: ra_pop_def)
    with a(5) have "consumer_step cl a = a" by (simp add: consumer_step_def)
    with same show ?thesis by simp
  qed
  with Some show ?thesis by simp
qed

lemma ra_step_simulates:
  assumes inv: "ra_inv cl acc s a" and wf: "ra_wf s" and bound: "unat (total cl) + 1024 \<le> 2 ^ 64"
  shows "ra_inv cl acc (ra_step cl (th, c) s) (spsc_step cl th a) \<or>
    ra_inv cl acc (ra_step cl (th, c) s) a \<and> c \<noteq> Newest"
  using ra_push_newest [OF inv wf bound] ra_pop_newest [OF inv wf bound]
    ra_push_simulates [OF inv _ bound] ra_pop_simulates [OF inv _ bound] inv
  by (cases th; cases c) (auto simp: ra_step_def split: option.splits)

lemma ra_step_wf: "ra_wf s \<Longrightarrow> ra_wf (ra_step cl c s)"
  by (cases "(cl, c, s)" rule: ra_access.cases)
    (auto simp: ra_step_def intro: ra_push_wf ra_pop_wf split: option.splits)

interpretation ra: stuttering_simulation "ra_step cl" "spsc_step cl" fst "\<lambda>c. snd c = Newest"
  "\<lambda>s a. ra_inv cl acc s a \<and> ra_wf s \<and> unat (total cl) + 1024 \<le> 2 ^ 64"
  for cl :: "'a client" and acc :: 'a
proof
  fix s :: "'a ra_spsc" and a :: "'a spsc" and c
  assume "ra_inv cl acc s a \<and> ra_wf s \<and> unat (total cl) + 1024 \<le> 2 ^ 64"
  then show "(ra_inv cl acc (ra_step cl c s) (spsc_step cl (fst c) a) \<and> ra_wf (ra_step cl c s) \<and> unat (total cl) + 1024 \<le> 2 ^ 64) \<or>
    (ra_inv cl acc (ra_step cl c s) a \<and> ra_wf (ra_step cl c s) \<and> unat (total cl) + 1024 \<le> 2 ^ 64) \<and> snd c \<noteq> Newest"
    using ra_step_simulates [of cl acc s a "fst c" "snd c"] ra_step_wf [of s cl c] by auto
qed

text \<open>The up-to-date steps of a run: they are never left out.\<close>

definition up_to_date :: "(thread \<times> pick) list \<Rightarrow> thread list" where
  "up_to_date cs = map fst (filter (\<lambda>c. snd c = Newest) cs)"

lemma ra_wf_start: "ra_wf (ra_start buf acc)"
  by (simp add: ra_wf_def ra_start_def view_in_initial)

lemma ra_run_simulates:
  assumes "length buf = 1024" "unat (total cl) + 1024 \<le> 2 ^ 64"
  shows "\<exists>schedule. subseq (up_to_date cs) schedule \<and> subseq schedule (map fst cs) \<and>
    ra_inv cl acc (run (ra_step cl) cs (ra_start buf acc)) (run (spsc_step cl) schedule (spsc_start buf acc))"
  using ra.run_simulates [of cl acc "ra_start buf acc" "spsc_start buf acc" cs] ra_inv_start [OF assms(1), of cl acc]
    ra_wf_start [of buf acc] assms(2) unfolding up_to_date_def by blast

text \<open>The threads bound to their CPUs.\<close>

lemma ra_bound_threads_join:
  fixes acc :: 'a and affinity :: "int \<Rightarrow> bool"
  assumes "length buf = 1024" "unat (total cl) + 1024 \<le> 2 ^ 64"
    and "fair_rounds UNIV (Suc (10 * unat (total cl))) (up_to_date cs)"
  defines "p \<equiv> run (\<lambda>c. pinned_step affinity thread_cpu (\<lambda>_. ra_step cl c) (fst c)) cs (pinned_start (ra_start buf acc))"
  shows "px_exited p \<longleftrightarrow> \<not> (affinity 0 \<and> affinity 1)"
    "\<not> px_exited p \<Longrightarrow> ra_joined cl (px_state p) \<and> rc_acc (px_state p) = consumed cl acc (unat (total cl))"
proof -
  let ?q = "\<lambda>schedule. run (pinned_step affinity thread_cpu (spsc_step cl)) schedule (pinned_start (spsc_start buf acc))"
  obtain schedule where sub: "subseq (up_to_date cs) schedule"
    and rel: "bound_threads p = bound_threads (?q schedule)" "px_exited p = px_exited (?q schedule)"
      "ra_inv cl acc (px_state p) (px_state (?q schedule))"
    using stuttering_simulation.run_simulates [OF pinned_simulation [OF ra.stuttering_simulation_axioms [of cl acc],
        of affinity thread_cpu], of "pinned_start (ra_start buf acc)" "pinned_start (spsc_start buf acc)" cs]
      ra_inv_start [OF assms(1), of cl acc] ra_wf_start [of buf acc] assms(2)
    unfolding p_def up_to_date_def pinned_shows_as_def by (auto simp: pinned_start_def)
  note join = bound_threads_join [OF assms(1) fair_rounds_subseq [OF assms(3) sub], of affinity acc]
  from join(1) rel(2) show "px_exited p \<longleftrightarrow> \<not> (affinity 0 \<and> affinity 1)" by simp
  assume "\<not> px_exited p"
  with join(2) rel(2) have "joined cl (px_state (?q schedule))"
    "c_acc (px_state (?q schedule)) = consumed cl acc (unat (total cl))" by simp_all
  with ra_invD [OF rel(3)] show "ra_joined cl (px_state p) \<and> rc_acc (px_state p) = consumed cl acc (unat (total cl))"
    by (simp add: ra_joined_def joined_def)
qed

text \<open>The two threads in turn, up to date.\<close>

definition turns :: "nat \<Rightarrow> (thread \<times> pick) list" where
  "turns n = concat (replicate n [(Producer, Newest), (Consumer, Newest)])"

lemma fair_turns: "fair_rounds UNIV n (up_to_date (turns n))"
proof -
  have "up_to_date (turns n) = concat (replicate n [Producer, Consumer])"
    by (induction n) (simp_all add: up_to_date_def turns_def)
  then show ?thesis by (simp only:) (rule fair_round_robin, auto intro: thread.exhaust)
qed

section \<open>Properties\<close>

text \<open>
  C15: With the memory orders of the code, whatever stale value the loads may return,
  no run of push and pop has a data race on the plain data of a cell: every access to
  it happens after the conflicting ones.
\<close>

theorem spsc_orderings_prevent_races:
  assumes "length mem = 1024" "unat (total cl) + 1024 \<le> 2 ^ 64"
  shows "\<not> raced (ra_mem (run (ra_step cl) cs (ra_start mem acc)))"
  using ra_run_simulates [OF assms, of cs acc] by (blast dest: ra_inv_same_state)

theorem spsc_orderings_prevent_races_witness:
  "\<not> raced (ra_mem (run (ra_step sum_client) (replicate 12 (Producer, Newest) @ [(Consumer, Newest), (Consumer, At 0), (Consumer, At 2)])
      (ra_start (replicate 1024 \<lparr>sequence = 0, cdata = 0\<rparr>) 0)))"
  by (rule spsc_orderings_prevent_races) (simp_all add: sum_client_def kTotalItems_def)

text \<open>
  C17: Every run with the memory orders of the code is at each moment in the state of
  an interleaving run of the same threads in the same order, in which at most loads
  that returned a stale value are left out.
\<close>

theorem spsc_orderings_refine:
  assumes "length mem = 1024" "unat (total cl) + 1024 \<le> 2 ^ 64"
  shows "\<exists>schedule. subseq (up_to_date cs) schedule \<and> subseq schedule (map fst cs) \<and>
    same_state (run (ra_step cl) cs (ra_start mem acc)) (run (spsc_step cl) schedule (spsc_start mem acc))"
  using ra_run_simulates [OF assms, of cs acc] by (blast dest: ra_inv_same_state)

theorem spsc_orderings_refine_witness:
  "\<exists>schedule. subseq [Producer, Consumer] schedule \<and> subseq schedule [Producer, Producer, Consumer, Consumer] \<and>
    same_state (run (ra_step sum_client) [(Producer, Newest), (Producer, At 0), (Consumer, Newest), (Consumer, At 0)]
        (ra_start (replicate 1024 \<lparr>sequence = 0, cdata = 0\<rparr>) 0))
      (run (spsc_step sum_client) schedule (spsc_start (replicate 1024 \<lparr>sequence = 0, cdata = 0\<rparr>) 0))"
  using spsc_orderings_refine [of "replicate 1024 \<lparr>sequence = 0, cdata = 0\<rparr>" sum_client
    "[(Producer, Newest), (Producer, At 0), (Consumer, Newest), (Consumer, At 0)]" 0]
  by (simp add: sum_client_def kTotalItems_def up_to_date_def)

text \<open>
  C29: With the memory orders of the code, under every schedule with 10 * kTotalItems +
  1 rounds in which each thread makes an up-to-date access, stale loads in between,
  main of spsc_queue.cpp ends: with status 0 and the checksum N (N - 1) / 2 if both
  threads could be bound to their CPUs, and with status 1 otherwise.
\<close>

theorem spsc_main_succeeds:
  assumes "length mem = 1024" "fair_rounds UNIV (Suc (10 * unat kTotalItems)) (up_to_date cs)"
  shows "spsc_main affinity mem cs = Some (if affinity 0 \<and> affinity 1 then 0 else 1)"
proof -
  have total: "total sum_client = kTotalItems" by (simp add: sum_client_def)
  have bound: "unat (total sum_client) + 1024 \<le> 2 ^ 64" by (simp add: sum_client_def kTotalItems_def)
  let ?p = "run (\<lambda>c. pinned_step affinity thread_cpu (\<lambda>_. ra_step sum_client c) (fst c)) cs (pinned_start (ra_start mem 0))"
  note outcome = ra_bound_threads_join [OF assms(1) bound, of cs affinity 0, unfolded total, OF assms(2)]
  have "rc_acc (px_state ?p) = kTotalItems * (kTotalItems - 1) div 2" if "\<not> px_exited ?p"
    using outcome(2) [OF that] by (simp only: sum_client_checksum [unfolded total])
  with outcome show ?thesis by (simp add: spsc_main_def Let_def)
qed

theorem spsc_main_succeeds_witness:
  "spsc_main (\<lambda>cpu. cpu < 12) (replicate 1024 \<lparr>sequence = 0, cdata = 0\<rparr>) (turns (Suc (10 * unat kTotalItems))) = Some 0"
  using spsc_main_succeeds [OF _ fair_turns, of "replicate 1024 \<lparr>sequence = 0, cdata = 0\<rparr>" "\<lambda>cpu. cpu < 12"]
  by simp

end
