(* ===== verification/Mpmc_Queue.thy ===== *)
theory Mpmc_Queue
  imports Cell_Claims "HOL-Library.Multiset"
begin

text \<open>
  The multi-producer multi-consumer queue of \<open>benchmarks/mpmc_queue.cpp\<close>: \<open>push\<close>,
  \<open>pop\<close>, \<open>producer\<close>, \<open>consumer\<close> and the threads of \<open>main\<close>, with sequentially consistent
  accesses: the machine that \<open>Mpmc_Orderings\<close> refines. \<open>push_step\<close> and \<open>pop_step\<close> are the atomic
  steps of one thread on the shared queue, one rule per access or branch of the code;
  \<open>mpmc_step\<close> lets any thread take one. A \<open>compare_exchange_weak\<close> may fail although the
  value matches. A consumer adds \<open>weight v\<close> for each value \<open>v\<close> it pops; in the code
  the weight of a value is the value.
\<close>

section \<open>The code\<close>

record mqueue =
  mbuffer :: "cell list"
  enqueue_pos :: u64
  dequeue_pos :: u64

datatype mpush_pc = MPush_Enter | MPush_Reload | MPush_Check u64 | MPush_Cas u64
  | MPush_Write u64 | MPush_Publish u64

datatype mpop_pc = MPop_Enter | MPop_Reload | MPop_Check u64 | MPop_Cas u64
  | MPop_Read u64 | MPop_Release u64 u64

record mproducer =
  pr_lo :: u64
  pr_hi :: u64
  pr_i :: u64
  pr_pc :: mpush_pc

record 'a mconsumer =
  cn_count :: u64
  cn_i :: u64
  cn_sum :: 'a
  cn_pc :: mpop_pc

text \<open>\<open>static_cast<int64_t>(seq) - static_cast<int64_t>(pos)\<close>.\<close>

definition seq_diff :: "u64 \<Rightarrow> u64 \<Rightarrow> int" where
  "seq_diff seq pos = sint seq - sint pos"

inductive push_step :: "mqueue \<times> mproducer \<Rightarrow> mqueue \<times> mproducer \<Rightarrow> bool" where
  push_enter: "pr_pc p = MPush_Enter \<Longrightarrow> pr_i p < pr_hi p \<Longrightarrow>
    push_step (q, p) (q, p\<lparr>pr_pc := MPush_Check (enqueue_pos q)\<rparr>)"
| push_ready: "pr_pc p = MPush_Check pos \<Longrightarrow> seq_diff (sequence (mbuffer q ! slot pos)) pos = 0 \<Longrightarrow>
    push_step (q, p) (q, p\<lparr>pr_pc := MPush_Cas pos\<rparr>)"
| push_full: "pr_pc p = MPush_Check pos \<Longrightarrow> seq_diff (sequence (mbuffer q ! slot pos)) pos < 0 \<Longrightarrow>
    push_step (q, p) (q, p\<lparr>pr_pc := MPush_Reload\<rparr>)"
| push_behind: "pr_pc p = MPush_Check pos \<Longrightarrow> 0 < seq_diff (sequence (mbuffer q ! slot pos)) pos \<Longrightarrow>
    push_step (q, p) (q, p\<lparr>pr_pc := MPush_Reload\<rparr>)"
| push_reload: "pr_pc p = MPush_Reload \<Longrightarrow>
    push_step (q, p) (q, p\<lparr>pr_pc := MPush_Check (enqueue_pos q)\<rparr>)"
| push_reserve: "pr_pc p = MPush_Cas pos \<Longrightarrow> enqueue_pos q = pos \<Longrightarrow>
    push_step (q, p) (q\<lparr>enqueue_pos := pos + 1\<rparr>, p\<lparr>pr_pc := MPush_Write pos\<rparr>)"
| push_cas_fails: "pr_pc p = MPush_Cas pos \<Longrightarrow>
    push_step (q, p) (q, p\<lparr>pr_pc := MPush_Check (enqueue_pos q)\<rparr>)"
| push_write: "pr_pc p = MPush_Write pos \<Longrightarrow>
    push_step (q, p) (q\<lparr>mbuffer := put_data pos (pr_i p) (mbuffer q)\<rparr>, p\<lparr>pr_pc := MPush_Publish pos\<rparr>)"
| push_publish: "pr_pc p = MPush_Publish pos \<Longrightarrow>
    push_step (q, p) (q\<lparr>mbuffer := put_sequence pos (pos + 1) (mbuffer q)\<rparr>,
      p\<lparr>pr_pc := MPush_Enter, pr_i := pr_i p + 1\<rparr>)"

inductive pop_step ::
  "(u64 \<Rightarrow> 'a) \<Rightarrow> mqueue \<times> 'a::cancel_comm_monoid_add mconsumer \<Rightarrow> mqueue \<times> 'a mconsumer \<Rightarrow> bool"
  for weight where
  pop_enter: "cn_pc c = MPop_Enter \<Longrightarrow> cn_i c < cn_count c \<Longrightarrow>
    pop_step weight (q, c) (q, c\<lparr>cn_pc := MPop_Check (dequeue_pos q)\<rparr>)"
| pop_ready: "cn_pc c = MPop_Check pos \<Longrightarrow> seq_diff (sequence (mbuffer q ! slot pos)) (pos + 1) = 0 \<Longrightarrow>
    pop_step weight (q, c) (q, c\<lparr>cn_pc := MPop_Cas pos\<rparr>)"
| pop_empty: "cn_pc c = MPop_Check pos \<Longrightarrow> seq_diff (sequence (mbuffer q ! slot pos)) (pos + 1) < 0 \<Longrightarrow>
    pop_step weight (q, c) (q, c\<lparr>cn_pc := MPop_Reload\<rparr>)"
| pop_behind: "cn_pc c = MPop_Check pos \<Longrightarrow> 0 < seq_diff (sequence (mbuffer q ! slot pos)) (pos + 1) \<Longrightarrow>
    pop_step weight (q, c) (q, c\<lparr>cn_pc := MPop_Reload\<rparr>)"
| pop_reload: "cn_pc c = MPop_Reload \<Longrightarrow>
    pop_step weight (q, c) (q, c\<lparr>cn_pc := MPop_Check (dequeue_pos q)\<rparr>)"
| pop_reserve: "cn_pc c = MPop_Cas pos \<Longrightarrow> dequeue_pos q = pos \<Longrightarrow>
    pop_step weight (q, c) (q\<lparr>dequeue_pos := pos + 1\<rparr>, c\<lparr>cn_pc := MPop_Read pos\<rparr>)"
| pop_cas_fails: "cn_pc c = MPop_Cas pos \<Longrightarrow>
    pop_step weight (q, c) (q, c\<lparr>cn_pc := MPop_Check (dequeue_pos q)\<rparr>)"
| pop_read: "cn_pc c = MPop_Read pos \<Longrightarrow>
    pop_step weight (q, c) (q, c\<lparr>cn_pc := MPop_Release pos (cdata (mbuffer q ! slot pos))\<rparr>)"
| pop_release: "cn_pc c = MPop_Release pos v \<Longrightarrow>
    pop_step weight (q, c) (q\<lparr>mbuffer := put_sequence pos (pos + kCapacity) (mbuffer q)\<rparr>,
      c\<lparr>cn_pc := MPop_Enter, cn_i := cn_i c + 1, cn_sum := cn_sum c + weight v\<rparr>)"

record 'a mpmc =
  mq :: mqueue
  producers :: "mproducer list"
  consumers :: "'a mconsumer list"

inductive mpmc_step :: "(u64 \<Rightarrow> 'a) \<Rightarrow> 'a::cancel_comm_monoid_add mpmc \<Rightarrow> 'a mpmc \<Rightarrow> bool"
  for weight where
  producer_moves: "k < length (producers s) \<Longrightarrow> push_step (mq s, producers s ! k) (q', p') \<Longrightarrow>
    mpmc_step weight s (s\<lparr>mq := q', producers := (producers s)[k := p']\<rparr>)"
| consumer_moves: "k < length (consumers s) \<Longrightarrow> pop_step weight (mq s, consumers s ! k) (q', c') \<Longrightarrow>
    mpmc_step weight s (s\<lparr>mq := q', consumers := (consumers s)[k := c']\<rparr>)"

abbreviation mpmc_steps :: "(u64 \<Rightarrow> 'a) \<Rightarrow> 'a::cancel_comm_monoid_add mpmc \<Rightarrow> 'a mpmc \<Rightarrow> bool" where
  "mpmc_steps weight \<equiv> (mpmc_step weight)\<^sup>*\<^sup>*"

definition mproducer_start :: "u64 \<times> u64 \<Rightarrow> mproducer" where
  "mproducer_start r = \<lparr>pr_lo = fst r, pr_hi = snd r, pr_i = fst r, pr_pc = MPush_Enter\<rparr>"

definition mconsumer_start :: "u64 \<Rightarrow> 'a::zero mconsumer" where
  "mconsumer_start n = \<lparr>cn_count = n, cn_i = 0, cn_sum = 0, cn_pc = MPop_Enter\<rparr>"

definition mpmc_start :: "cell list \<Rightarrow> (u64 \<times> u64) list \<Rightarrow> u64 list \<Rightarrow> 'a::cancel_comm_monoid_add mpmc" where
  "mpmc_start mem ranges counts =
     \<lparr>mq = \<lparr>mbuffer = queue_init mem, enqueue_pos = 0, dequeue_pos = 0\<rparr>,
      producers = map mproducer_start ranges, consumers = map mconsumer_start counts\<rparr>"

definition mpmc_joined :: "'a mpmc \<Rightarrow> bool" where
  "mpmc_joined s \<longleftrightarrow>
     (\<forall>p\<in>set (producers s). pr_pc p = MPush_Enter \<and> \<not> pr_i p < pr_hi p) \<and>
     (\<forall>c\<in>set (consumers s). cn_pc c = MPop_Enter \<and> \<not> cn_i c < cn_count c)"

text \<open>The work that \<open>main\<close> hands to its four threads.\<close>

definition mpmc_kTotalItems :: u64 where "mpmc_kTotalItems = 100000000"
definition kProducers :: nat where "kProducers = 2"
definition kConsumers :: nat where "kConsumers = 2"

definition producer_ranges :: "(u64 \<times> u64) list" where
  "producer_ranges =
     (let per_producer = mpmc_kTotalItems div word_of_nat kProducers
      in map (\<lambda>p. (word_of_nat p * per_producer, (word_of_nat p + 1) * per_producer)) [0..<kProducers])"

definition consumer_counts :: "u64 list" where
  "consumer_counts =
     (let per_consumer = mpmc_kTotalItems div word_of_nat kConsumers
      in map (\<lambda>_. per_consumer) [0..<kConsumers])"

section \<open>Claims of the threads\<close>

definition push_claim :: "mpush_pc \<Rightarrow> (nat \<times> bool) option" where
  "push_claim pc = (case pc of MPush_Write pos \<Rightarrow> Some (unat pos, False)
     | MPush_Publish pos \<Rightarrow> Some (unat pos, True) | _ \<Rightarrow> None)"

definition pop_claim :: "mpop_pc \<Rightarrow> (nat \<times> u64 option) option" where
  "pop_claim pc = (case pc of MPop_Read pos \<Rightarrow> Some (unat pos, None)
     | MPop_Release pos v \<Rightarrow> Some (unat pos, Some v) | _ \<Rightarrow> None)"

definition claims :: "('p \<Rightarrow> 'c option) \<Rightarrow> 'p list \<Rightarrow> nat \<rightharpoonup> 'c" where
  "claims f xs k = (if k < length xs then f (xs ! k) else None)"

lemma claims_nth: "k < length xs \<Longrightarrow> claims f xs k = f (xs ! k)"
  by (simp add: claims_def)

lemma claims_update: "k < length xs \<Longrightarrow> claims f (xs[k := x]) = (claims f xs)(k := f x)"
  by (rule ext) (simp add: claims_def)

lemma claims_update_same: "k < length xs \<Longrightarrow> f x = f (xs ! k) \<Longrightarrow> claims f (xs[k := x]) = claims f xs"
  by (rule ext) (simp add: claims_def nth_list_update)

lemma sum_list_update_add:
  fixes f :: "'b \<Rightarrow> 'a::comm_monoid_add"
  shows "k < length xs \<Longrightarrow> f x = f (xs ! k) + d \<Longrightarrow>
    sum_list (map f (xs[k := x])) = sum_list (map f xs) + d"
proof (induction xs arbitrary: k)
  case (Cons y ys)
  then show ?case by (cases k) (simp_all add: ac_simps)
qed simp

lemma sum_list_update_same:
  fixes f :: "'b \<Rightarrow> 'a::comm_monoid_add"
  shows "k < length xs \<Longrightarrow> f x = f (xs ! k) \<Longrightarrow> sum_list (map f (xs[k := x])) = sum_list (map f xs)"
  using sum_list_update_add [of k xs f x 0] by simp

lemma seq_diff_0 [simp]: "seq_diff seq pos = 0 \<longleftrightarrow> seq = pos"
  by (auto simp: seq_diff_def intro: signed_word_eqI)

section \<open>The invariant\<close>

text \<open>What a producer has pushed, the value of a claimed position included.\<close>

definition own_range :: "(u64 \<Rightarrow> 'a::comm_monoid_add) \<Rightarrow> u64 \<Rightarrow> u64 \<Rightarrow> 'a" where
  "own_range weight lo hi = (\<Sum>i\<leftarrow>[unat lo..<unat hi]. weight (word_of_nat i))"

definition pushed :: "(u64 \<Rightarrow> 'a::comm_monoid_add) \<Rightarrow> mproducer \<Rightarrow> 'a" where
  "pushed weight p = own_range weight (pr_lo p) (pr_i p) +
     (if push_claim (pr_pc p) = None then 0 else weight (pr_i p))"

definition popped :: "(u64 \<Rightarrow> 'a::comm_monoid_add) \<Rightarrow> u64 list \<Rightarrow> 'a mconsumer \<Rightarrow> 'a" where
  "popped weight log c = cn_sum c +
     (case pop_claim (cn_pc c) of None \<Rightarrow> 0 | Some (n, _) \<Rightarrow> weight (log ! n))"

definition push_count :: "mproducer \<Rightarrow> nat" where
  "push_count p = unat (pr_i p) - unat (pr_lo p) + (if push_claim (pr_pc p) = None then 0 else 1)"

definition pop_count :: "'a mconsumer \<Rightarrow> nat" where
  "pop_count c = unat (cn_i c) + (if pop_claim (cn_pc c) = None then 0 else 1)"

text \<open>What a thread knows where it is, of the queue and of its own progress.\<close>

definition mproducer_ok :: "mqueue \<Rightarrow> u64 list \<Rightarrow> mproducer \<Rightarrow> bool" where
  "mproducer_ok q log p \<longleftrightarrow> pr_lo p \<le> pr_i p \<and> pr_i p \<le> pr_hi p \<and>
     (pr_pc p \<noteq> MPush_Enter \<longrightarrow> pr_i p < pr_hi p) \<and>
     (case pr_pc p of
        MPush_Check pos \<Rightarrow> unat pos \<le> length log
      | MPush_Cas pos \<Rightarrow> unat pos \<le> length log \<and>
          (unat pos = length log \<longrightarrow> sequence (mbuffer q ! (length log mod 1024)) = pos)
      | MPush_Write pos \<Rightarrow> unat pos < length log \<and> log ! unat pos = pr_i p
      | MPush_Publish pos \<Rightarrow> unat pos < length log \<and> log ! unat pos = pr_i p
      | _ \<Rightarrow> True)"

definition mconsumer_ok :: "mqueue \<Rightarrow> nat \<Rightarrow> 'a mconsumer \<Rightarrow> bool" where
  "mconsumer_ok q d c \<longleftrightarrow> cn_i c \<le> cn_count c \<and> (cn_pc c \<noteq> MPop_Enter \<longrightarrow> cn_i c < cn_count c) \<and>
     (case cn_pc c of
        MPop_Check pos \<Rightarrow> unat pos \<le> d
      | MPop_Cas pos \<Rightarrow> unat pos \<le> d \<and>
          (unat pos = d \<longrightarrow> sequence (mbuffer q ! (d mod 1024)) = word_of_nat (Suc d))
      | MPop_Read pos \<Rightarrow> unat pos < d
      | MPop_Release pos v \<Rightarrow> unat pos < d
      | _ \<Rightarrow> True)"

definition queue_ok :: "'a mpmc \<Rightarrow> u64 list \<Rightarrow> bool" where
  "queue_ok s log \<longleftrightarrow>
     slots_ok (mbuffer (mq s)) log (unat (dequeue_pos (mq s)))
       (claims (\<lambda>p. push_claim (pr_pc p)) (producers s)) (claims (\<lambda>c. pop_claim (cn_pc c)) (consumers s)) \<and>
     unat (enqueue_pos (mq s)) = length log \<and>
     (\<forall>p\<in>set (producers s). mproducer_ok (mq s) log p) \<and>
     (\<forall>c\<in>set (consumers s). mconsumer_ok (mq s) (unat (dequeue_pos (mq s))) c)"

definition sums_ok :: "(u64 \<Rightarrow> 'a::cancel_comm_monoid_add) \<Rightarrow> 'a mpmc \<Rightarrow> u64 list \<Rightarrow> bool" where
  "sums_ok weight s log \<longleftrightarrow>
     (\<Sum>p\<leftarrow>producers s. pushed weight p) = sum_list (map weight log) \<and>
     (\<Sum>c\<leftarrow>consumers s. popped weight log c) =
       sum_list (map weight (take (unat (dequeue_pos (mq s))) log)) \<and>
     (\<Sum>p\<leftarrow>producers s. push_count p) = length log \<and>
     (\<Sum>c\<leftarrow>consumers s. pop_count c) = unat (dequeue_pos (mq s))"

definition work :: "mproducer list \<Rightarrow> nat" where
  "work ps = (\<Sum>p\<leftarrow>ps. unat (pr_hi p) - unat (pr_lo p))"

lemma pushed_weight_simps:
  assumes "pr_lo p \<le> pr_i p" "pr_i p < pr_hi p"
  shows "own_range weight (pr_lo p) (pr_i p + 1) = own_range weight (pr_lo p) (pr_i p) + weight (pr_i p)"
proof -
  have "unat (pr_i p + 1) = Suc (unat (pr_i p))"
    using assms(2) unat_u64_bound [of "pr_hi p"]
    by (subst unat_add_no_wrap) (simp_all add: word_less_nat_alt)
  with assms(1) show ?thesis by (simp add: own_range_def word_le_nat_alt)
qed

lemma push_count_le: "mproducer_ok q log p \<Longrightarrow> push_count p \<le> unat (pr_hi p) - unat (pr_lo p)"
  by (auto simp: mproducer_ok_def push_count_def push_claim_def word_le_nat_alt word_less_nat_alt
      split: mpush_pc.splits)

lemma log_le_work:
  assumes "queue_ok s log" "sums_ok weight s log"
  shows "length log \<le> work (producers s)"
proof -
  have "length log = (\<Sum>p\<leftarrow>producers s. push_count p)" using assms(2) by (simp add: sums_ok_def)
  also have "\<dots> \<le> work (producers s)" unfolding work_def
    using assms(1) push_count_le by (intro sum_list_mono) (auto simp: queue_ok_def)
  finally show ?thesis .
qed

text \<open>Threads that look on while another one changes the buffer.\<close>

lemma mproducer_ok_buffer:
  assumes "mproducer_ok q log p"
    and "sequence (mbuffer q ! (length log mod 1024)) = word_of_nat (length log) \<Longrightarrow>
      sequence (mbuffer q' ! (length log mod 1024)) = word_of_nat (length log)"
  shows "mproducer_ok q' log p"
proof -
  have "unat pos = length log \<Longrightarrow> pos = word_of_nat (length log)" for pos :: u64
    by (metis of_nat_eq_unat)
  with assms show ?thesis by (auto simp: mproducer_ok_def split: mpush_pc.splits)
qed

lemma mconsumer_ok_buffer:
  assumes "mconsumer_ok q d c"
    and "sequence (mbuffer q ! (d mod 1024)) = word_of_nat (Suc d) \<Longrightarrow>
      sequence (mbuffer q' ! (d mod 1024)) = word_of_nat (Suc d)"
  shows "mconsumer_ok q' d c"
  using assms by (auto simp: mconsumer_ok_def split: mpop_pc.splits)

lemma mproducer_ok_log:
  "mproducer_ok q log p \<Longrightarrow> mbuffer q' = mbuffer q \<Longrightarrow> mproducer_ok q' (log @ [v]) p"
  by (auto simp: mproducer_ok_def nth_append split: mpush_pc.splits)

lemma mconsumer_ok_dequeue:
  "mconsumer_ok q d c \<Longrightarrow> mbuffer q' = mbuffer q \<Longrightarrow> mconsumer_ok q' (Suc d) c"
  by (auto simp: mconsumer_ok_def split: mpop_pc.splits)

lemma popped_log: "mconsumer_ok q d c \<Longrightarrow> d \<le> length log \<Longrightarrow> popped weight (log @ [v]) c = popped weight log c"
  by (auto simp: mconsumer_ok_def popped_def pop_claim_def nth_append split: mpop_pc.splits)

text \<open>A producer that only looks, or moves its own counters.\<close>

lemma queue_ok_producer_looks:
  assumes "queue_ok s log" "k < length (producers s)"
    and "push_claim (pr_pc p') = push_claim (pr_pc (producers s ! k))" "mproducer_ok (mq s) log p'"
  shows "queue_ok (s\<lparr>mq := mq s, producers := (producers s)[k := p']\<rparr>) log"
  using assms set_update_subset_insert [of "producers s" k p']
  by (auto simp: queue_ok_def claims_update_same)

lemma sums_ok_producer_looks:
  assumes "sums_ok weight s log" "k < length (producers s)"
    and "push_claim (pr_pc p') = push_claim (pr_pc (producers s ! k))"
    and "pr_lo p' = pr_lo (producers s ! k)" "pr_i p' = pr_i (producers s ! k)"
  shows "sums_ok weight (s\<lparr>mq := mq s, producers := (producers s)[k := p']\<rparr>) log"
  using assms by (simp add: sums_ok_def sum_list_update_same pushed_def push_count_def)

lemma queue_ok_consumer_looks:
  assumes "queue_ok s log" "k < length (consumers s)"
    and "pop_claim (cn_pc c') = pop_claim (cn_pc (consumers s ! k))"
    and "mconsumer_ok (mq s) (unat (dequeue_pos (mq s))) c'"
  shows "queue_ok (s\<lparr>mq := mq s, consumers := (consumers s)[k := c']\<rparr>) log"
  using assms set_update_subset_insert [of "consumers s" k c']
  by (auto simp: queue_ok_def claims_update_same)

lemma sums_ok_consumer_looks:
  assumes "sums_ok weight s log" "k < length (consumers s)"
    and "pop_claim (cn_pc c') = pop_claim (cn_pc (consumers s ! k))"
    and "cn_i c' = cn_i (consumers s ! k)" "cn_sum c' = cn_sum (consumers s ! k)"
  shows "sums_ok weight (s\<lparr>mq := mq s, consumers := (consumers s)[k := c']\<rparr>) log"
  using assms by (simp add: sums_ok_def sum_list_update_same popped_def pop_count_def)

lemma queue_okD:
  assumes "queue_ok s log"
  shows "slots_ok (mbuffer (mq s)) log (unat (dequeue_pos (mq s)))
       (claims (\<lambda>p. push_claim (pr_pc p)) (producers s)) (claims (\<lambda>c. pop_claim (cn_pc c)) (consumers s))"
    and "unat (enqueue_pos (mq s)) = length log"
    and "p \<in> set (producers s) \<Longrightarrow> mproducer_ok (mq s) log p"
    and "c \<in> set (consumers s) \<Longrightarrow> mconsumer_ok (mq s) (unat (dequeue_pos (mq s))) c"
  using assms by (simp_all add: queue_ok_def)

section \<open>Producer steps keep the invariant\<close>

lemma push_reserve_inv:
  assumes ok: "queue_ok s log" and sums: "sums_ok weight s log" and bound: "work (producers s) < 2 ^ 63"
    and k: "k < length (producers s)" and pc: "pr_pc (producers s ! k) = MPush_Cas pos"
    and pos: "enqueue_pos (mq s) = pos"
    and q': "q' = (mq s)\<lparr>enqueue_pos := pos + 1\<rparr>"
    and p': "p' = (producers s ! k)\<lparr>pr_pc := MPush_Write pos\<rparr>"
  shows "queue_ok (s\<lparr>mq := q', producers := (producers s)[k := p']\<rparr>) (log @ [pr_i p'])"
    and "sums_ok weight (s\<lparr>mq := q', producers := (producers s)[k := p']\<rparr>) (log @ [pr_i p'])"
proof -
  let ?p = "producers s ! k" and ?d = "unat (dequeue_pos (mq s))"
  from ok k have okp: "mproducer_ok (mq s) log ?p" and e: "unat pos = length log"
    and slots: "slots_ok (mbuffer (mq s)) log ?d
       (claims (\<lambda>p. push_claim (pr_pc p)) (producers s)) (claims (\<lambda>c. pop_claim (cn_pc c)) (consumers s))"
    using pos by (auto simp: queue_ok_def)
  from e have posw: "pos = word_of_nat (length log)" by (metis of_nat_eq_unat)
  have "length log < 2 ^ 63" using log_le_work [OF ok sums] bound by simp
  then have e': "unat (pos + 1) = Suc (length log)" using e by (subst unat_add_no_wrap) simp_all
  have free: "sequence (mbuffer (mq s) ! (length log mod 1024)) = word_of_nat (length log)"
    using okp pc e posw by (simp add: mproducer_ok_def)
  have none: "claims (\<lambda>p. push_claim (pr_pc p)) (producers s) k = None"
    using k pc by (simp add: claims_nth push_claim_def)
  have cl: "claims (\<lambda>p. push_claim (pr_pc p)) ((producers s)[k := p']) =
      (claims (\<lambda>p. push_claim (pr_pc p)) (producers s))(k \<mapsto> (length log, False))"
    using k by (simp add: claims_update p' push_claim_def e)
  from slots_claim_push [OF slots none free, of "pr_i p'"]
  have slots': "slots_ok (mbuffer q') (log @ [pr_i p']) ?d
      (claims (\<lambda>p. push_claim (pr_pc p)) ((producers s)[k := p'])) (claims (\<lambda>c. pop_claim (cn_pc c)) (consumers s))"
    unfolding cl q' by simp
  have "mproducer_ok q' (log @ [pr_i p']) p'"
    using okp pc e by (simp add: p' mproducer_ok_def nth_append)
  moreover have "mproducer_ok q' (log @ [pr_i p']) x" if "x \<in> set (producers s)" for x
    by (rule mproducer_ok_log [OF queue_okD(3) [OF ok that]]) (simp add: q')
  ultimately have prods: "\<forall>x\<in>set ((producers s)[k := p']). mproducer_ok q' (log @ [pr_i p']) x"
    using set_update_subset_insert [of "producers s" k p'] by blast
  have cons: "\<forall>c\<in>set (consumers s). mconsumer_ok q' ?d c"
    by (intro ballI mconsumer_ok_buffer [OF queue_okD(4) [OF ok]]) (simp_all add: q')
  show "queue_ok (s\<lparr>mq := q', producers := (producers s)[k := p']\<rparr>) (log @ [pr_i p'])"
    using slots' prods cons e' by (simp add: queue_ok_def q')
  have d: "?d \<le> length log" using slots_okD(2) [OF slots] .
  have "(\<Sum>c\<leftarrow>consumers s. popped weight (log @ [pr_i p']) c) = (\<Sum>c\<leftarrow>consumers s. popped weight log c)"
    by (intro arg_cong [of _ _ sum_list] map_cong refl popped_log [OF queue_okD(4) [OF ok] d])
  moreover have "pushed weight p' = pushed weight ?p + weight (pr_i p')"
    "push_count p' = push_count ?p + 1"
    using pc by (simp_all add: p' pushed_def push_count_def push_claim_def)
  ultimately show "sums_ok weight (s\<lparr>mq := q', producers := (producers s)[k := p']\<rparr>) (log @ [pr_i p'])"
    using sums k d
      sum_list_update_add [of k "producers s" "pushed weight" p' "weight (pr_i p')"]
      sum_list_update_add [of k "producers s" push_count p' 1]
    by (simp add: sums_ok_def q')
qed

lemma push_write_inv:
  assumes ok: "queue_ok s log" and sums: "sums_ok weight s log"
    and k: "k < length (producers s)" and pc: "pr_pc (producers s ! k) = MPush_Write pos"
    and q': "q' = (mq s)\<lparr>mbuffer := put_data pos (pr_i (producers s ! k)) (mbuffer (mq s))\<rparr>"
    and p': "p' = (producers s ! k)\<lparr>pr_pc := MPush_Publish pos\<rparr>"
  shows "queue_ok (s\<lparr>mq := q', producers := (producers s)[k := p']\<rparr>) log"
    and "sums_ok weight (s\<lparr>mq := q', producers := (producers s)[k := p']\<rparr>) log"
proof -
  let ?p = "producers s ! k" and ?d = "unat (dequeue_pos (mq s))"
  from ok k have okp: "mproducer_ok (mq s) log ?p"
    and slots: "slots_ok (mbuffer (mq s)) log ?d
       (claims (\<lambda>p. push_claim (pr_pc p)) (producers s)) (claims (\<lambda>c. pop_claim (cn_pc c)) (consumers s))"
    by (auto simp: queue_ok_def)
  have some: "claims (\<lambda>p. push_claim (pr_pc p)) (producers s) k = Some (unat pos, False)"
    using k pc by (simp add: claims_nth push_claim_def)
  have cl: "claims (\<lambda>p. push_claim (pr_pc p)) ((producers s)[k := p']) =
      (claims (\<lambda>p. push_claim (pr_pc p)) (producers s))(k \<mapsto> (unat pos, True))"
    using k by (simp add: claims_update p' push_claim_def)
  have v: "log ! unat pos = pr_i ?p" using okp pc by (simp add: mproducer_ok_def)
  from slots_write [OF slots some]
  have slots': "slots_ok (mbuffer q') log ?d
      (claims (\<lambda>p. push_claim (pr_pc p)) ((producers s)[k := p'])) (claims (\<lambda>c. pop_claim (cn_pc c)) (consumers s))"
    unfolding cl q' v by simp
  have "mproducer_ok q' log p'" using okp pc by (simp add: p' mproducer_ok_def)
  moreover have "mproducer_ok q' log x" if "x \<in> set (producers s)" for x
    by (rule mproducer_ok_buffer [OF queue_okD(3) [OF ok that]]) (simp add: q')
  ultimately have prods: "\<forall>x\<in>set ((producers s)[k := p']). mproducer_ok q' log x"
    using set_update_subset_insert [of "producers s" k p'] by blast
  have cons: "\<forall>c\<in>set (consumers s). mconsumer_ok q' ?d c"
    by (intro ballI mconsumer_ok_buffer [OF queue_okD(4) [OF ok]]) (simp_all add: q')
  show "queue_ok (s\<lparr>mq := q', producers := (producers s)[k := p']\<rparr>) log"
    using ok slots' prods cons by (simp add: queue_ok_def q')
  show "sums_ok weight (s\<lparr>mq := q', producers := (producers s)[k := p']\<rparr>) log"
    using sums k pc by (simp add: sums_ok_def sum_list_update_same pushed_def push_count_def
        push_claim_def p' q')
qed

lemma push_publish_inv:
  assumes ok: "queue_ok s log" and sums: "sums_ok weight s log"
    and k: "k < length (producers s)" and pc: "pr_pc (producers s ! k) = MPush_Publish pos"
    and q': "q' = (mq s)\<lparr>mbuffer := put_sequence pos (pos + 1) (mbuffer (mq s))\<rparr>"
    and p': "p' = (producers s ! k)\<lparr>pr_pc := MPush_Enter, pr_i := pr_i (producers s ! k) + 1\<rparr>"
  shows "queue_ok (s\<lparr>mq := q', producers := (producers s)[k := p']\<rparr>) log"
    and "sums_ok weight (s\<lparr>mq := q', producers := (producers s)[k := p']\<rparr>) log"
proof -
  let ?p = "producers s ! k" and ?d = "unat (dequeue_pos (mq s))"
  let ?wr = "claims (\<lambda>p. push_claim (pr_pc p)) (producers s)" and ?rd = "claims (\<lambda>c. pop_claim (cn_pc c)) (consumers s)"
  from ok k have okp: "mproducer_ok (mq s) log ?p"
    and slots: "slots_ok (mbuffer (mq s)) log ?d ?wr ?rd"
    by (auto simp: queue_ok_def)
  have some: "?wr k = Some (unat pos, True)"
    using k pc by (simp add: claims_nth push_claim_def)
  have cl: "claims (\<lambda>p. push_claim (pr_pc p)) ((producers s)[k := p']) = ?wr(k := None)"
    using k by (simp add: claims_update p' push_claim_def)
  from slots_publish [OF slots some]
  have slots': "slots_ok (mbuffer q') log ?d
      (claims (\<lambda>p. push_claim (pr_pc p)) ((producers s)[k := p'])) ?rd"
    unfolding cl q' by simp
  have claimed: "unat pos \<in> claimed ?wr \<union> claimed ?rd" using claimedI [of ?wr k, OF some] by blast
  have len: "length (mbuffer (mq s)) = 1024" using slots_okD(1) [OF slots] .
  have seq: "sequence (mbuffer q' ! (n mod 1024)) = sequence (mbuffer (mq s) ! (n mod 1024))"
    if "unat pos mod 1024 \<noteq> n mod 1024" for n
    using put_sequence_nth [OF len, of "unat pos" "pos + 1" n] that by (simp add: q')
  have i: "pr_lo ?p \<le> pr_i ?p" "pr_i ?p < pr_hi ?p" using okp pc by (simp_all add: mproducer_ok_def)
  have next_i: "unat (pr_i ?p + 1) = Suc (unat (pr_i ?p))"
    using i(2) unat_u64_bound [of "pr_hi ?p"]
    by (subst unat_add_no_wrap) (simp_all add: word_less_nat_alt)
  have "mproducer_ok q' log p'"
    using i next_i by (simp add: p' mproducer_ok_def word_le_nat_alt word_less_nat_alt)
  moreover have "mproducer_ok q' log x" if "x \<in> set (producers s)" for x
    by (rule mproducer_ok_buffer [OF queue_okD(3) [OF ok that]])
      (simp add: seq claimed_not_free [OF slots claimed])
  ultimately have prods: "\<forall>x\<in>set ((producers s)[k := p']). mproducer_ok q' log x"
    using set_update_subset_insert [of "producers s" k p'] by blast
  have cons: "\<forall>c\<in>set (consumers s). mconsumer_ok q' ?d c"
    by (intro ballI mconsumer_ok_buffer [OF queue_okD(4) [OF ok]])
      (simp_all only: seq claimed_not_full [OF slots claimed] not_False_eq_True)
  show "queue_ok (s\<lparr>mq := q', producers := (producers s)[k := p']\<rparr>) log"
    using ok slots' prods cons by (simp add: queue_ok_def q')
  have "pushed weight p' = pushed weight ?p"
    using pc pushed_weight_simps [OF i, of weight] by (simp add: pushed_def push_claim_def p')
  moreover have "push_count p' = push_count ?p"
    using pc i(1) next_i by (simp add: push_count_def push_claim_def p' word_le_nat_alt Suc_diff_le)
  ultimately show "sums_ok weight (s\<lparr>mq := q', producers := (producers s)[k := p']\<rparr>) log"
    using sums k by (simp add: sums_ok_def sum_list_update_same q')
qed

lemma producer_step_inv:
  assumes step: "push_step (mq s, producers s ! k) (q', p')" and k: "k < length (producers s)"
    and ok: "queue_ok s log" and sums: "sums_ok weight s log" and bound: "work (producers s) < 2 ^ 63"
  shows "\<exists>log'. queue_ok (s\<lparr>mq := q', producers := (producers s)[k := p']\<rparr>) log' \<and>
    sums_ok weight (s\<lparr>mq := q', producers := (producers s)[k := p']\<rparr>) log'"
proof -
  from ok k have okp: "mproducer_ok (mq s) log (producers s ! k)"
    and e: "unat (enqueue_pos (mq s)) = length log" by (auto simp: queue_ok_def)
  have looks: ?thesis if "q' = mq s" "push_claim (pr_pc p') = push_claim (pr_pc (producers s ! k))"
    "mproducer_ok (mq s) log p'" "pr_lo p' = pr_lo (producers s ! k)" "pr_i p' = pr_i (producers s ! k)"
    using queue_ok_producer_looks [OF ok k that(2,3)] sums_ok_producer_looks [OF sums k that(2,4,5)]
    unfolding that(1) by blast
  from step show ?thesis
  proof cases
    case (push_reserve pos)
    with push_reserve_inv [OF ok sums bound k] show ?thesis by blast
  next
    case (push_write pos)
    with push_write_inv [OF ok sums k] show ?thesis by blast
  next
    case (push_publish pos)
    with push_publish_inv [OF ok sums k] show ?thesis by blast
  next
    case (push_ready pos)
    moreover from this okp have "unat pos = length log \<Longrightarrow>
        sequence (mbuffer (mq s) ! (length log mod 1024)) = pos"
      by (simp add: slot_unat)
    ultimately show ?thesis
      using okp by (intro looks) (simp_all add: push_claim_def mproducer_ok_def)
  qed (use okp e in \<open>(intro looks; simp add: push_claim_def mproducer_ok_def)+\<close>)
qed

section \<open>Consumer steps keep the invariant\<close>

lemma mconsumer_ok_advance: "mconsumer_ok q d c \<Longrightarrow> mconsumer_ok (q\<lparr>dequeue_pos := pos\<rparr>) (Suc d) c"
  by (rule mconsumer_ok_dequeue) simp_all

lemma pop_reserve_inv:
  assumes ok: "queue_ok s log" and sums: "sums_ok weight s log" and bound: "work (producers s) < 2 ^ 63"
    and k: "k < length (consumers s)" and pc: "cn_pc (consumers s ! k) = MPop_Cas pos"
    and pos: "dequeue_pos (mq s) = pos"
    and q': "q' = (mq s)\<lparr>dequeue_pos := pos + 1\<rparr>"
    and c': "c' = (consumers s ! k)\<lparr>cn_pc := MPop_Read pos\<rparr>"
  shows "queue_ok (s\<lparr>mq := q', consumers := (consumers s)[k := c']\<rparr>) log"
    and "sums_ok weight (s\<lparr>mq := q', consumers := (consumers s)[k := c']\<rparr>) log"
proof -
  let ?c = "consumers s ! k" and ?d = "unat pos"
  let ?wr = "claims (\<lambda>p. push_claim (pr_pc p)) (producers s)"
    and ?rd = "claims (\<lambda>c. pop_claim (cn_pc c)) (consumers s)"
  have okc: "mconsumer_ok (mq s) ?d ?c" using queue_okD(4) [OF ok] k pos by simp
  have slots: "slots_ok (mbuffer (mq s)) log ?d ?wr ?rd" using queue_okD(1) [OF ok] pos by simp
  have full: "sequence (mbuffer (mq s) ! (?d mod 1024)) = word_of_nat (Suc ?d)"
    using okc pc by (simp add: mconsumer_ok_def)
  have d: "?d < length log" by (rule full_slot(1) [OF slots full])
  have "length log < 2 ^ 63" using log_le_work [OF ok sums] bound by simp
  with d have d': "unat (pos + 1) = Suc ?d" by (subst unat_add_no_wrap) simp_all
  have none: "?rd k = None" using k pc by (simp add: claims_nth pop_claim_def)
  have cl: "claims (\<lambda>c. pop_claim (cn_pc c)) ((consumers s)[k := c']) = ?rd(k \<mapsto> (?d, None))"
    using k by (simp add: claims_update c' pop_claim_def)
  from slots_claim_pop [OF slots none full]
  have slots': "slots_ok (mbuffer q') log (unat (dequeue_pos q')) ?wr
      (claims (\<lambda>c. pop_claim (cn_pc c)) ((consumers s)[k := c']))"
    unfolding cl q' using d' by simp
  have "mconsumer_ok q' (Suc ?d) c'" using okc pc by (simp add: c' mconsumer_ok_def)
  moreover have "mconsumer_ok q' (Suc ?d) x" if "x \<in> set (consumers s)" for x
    unfolding q' using queue_okD(4) [OF ok that] pos by (intro mconsumer_ok_advance) simp
  ultimately have cons: "\<forall>x\<in>set ((consumers s)[k := c']). mconsumer_ok q' (Suc ?d) x"
    using set_update_subset_insert [of "consumers s" k c'] by blast
  have prods: "\<forall>p\<in>set (producers s). mproducer_ok q' log p"
    by (intro ballI mproducer_ok_buffer [OF queue_okD(3) [OF ok]]) (simp_all add: q')
  show "queue_ok (s\<lparr>mq := q', consumers := (consumers s)[k := c']\<rparr>) log"
    using slots' prods cons d' queue_okD(2) [OF ok] by (simp add: queue_ok_def q')
  have "popped weight log c' = popped weight log ?c + weight (log ! ?d)"
    "pop_count c' = pop_count ?c + 1"
    using pc by (simp_all add: c' popped_def pop_count_def pop_claim_def)
  then show "sums_ok weight (s\<lparr>mq := q', consumers := (consumers s)[k := c']\<rparr>) log"
    using sums k d d' pos
      sum_list_update_add [of k "consumers s" "popped weight log" c' "weight (log ! ?d)"]
      sum_list_update_add [of k "consumers s" pop_count c' 1]
    by (simp add: sums_ok_def q' take_Suc_conv_app_nth)
qed

lemma pop_read_inv:
  assumes ok: "queue_ok s log" and sums: "sums_ok weight s log"
    and k: "k < length (consumers s)" and pc: "cn_pc (consumers s ! k) = MPop_Read pos"
    and c': "c' = (consumers s ! k)\<lparr>cn_pc := MPop_Release pos (cdata (mbuffer (mq s) ! slot pos))\<rparr>"
  shows "queue_ok (s\<lparr>mq := mq s, consumers := (consumers s)[k := c']\<rparr>) log"
    and "sums_ok weight (s\<lparr>mq := mq s, consumers := (consumers s)[k := c']\<rparr>) log"
proof -
  let ?c = "consumers s ! k" and ?d = "unat (dequeue_pos (mq s))"
  let ?wr = "claims (\<lambda>p. push_claim (pr_pc p)) (producers s)"
    and ?rd = "claims (\<lambda>c. pop_claim (cn_pc c)) (consumers s)"
  have okc: "mconsumer_ok (mq s) ?d ?c" using queue_okD(4) [OF ok] k by simp
  note slots = queue_okD(1) [OF ok]
  have some: "?rd k = Some (unat pos, None)" using k pc by (simp add: claims_nth pop_claim_def)
  from slots_read(1) [OF slots some] have v: "cdata (mbuffer (mq s) ! slot pos) = log ! unat pos"
    by (simp add: slot_unat)
  have cl: "claims (\<lambda>c. pop_claim (cn_pc c)) ((consumers s)[k := c']) =
      ?rd(k \<mapsto> (unat pos, Some (log ! unat pos)))"
    using k by (simp add: claims_update c' pop_claim_def v)
  from slots_read(2) [OF slots some]
  have slots': "slots_ok (mbuffer (mq s)) log ?d ?wr
      (claims (\<lambda>c. pop_claim (cn_pc c)) ((consumers s)[k := c']))"
    unfolding cl .
  have "mconsumer_ok (mq s) ?d c'" using okc pc by (simp add: c' mconsumer_ok_def)
  then have cons: "\<forall>x\<in>set ((consumers s)[k := c']). mconsumer_ok (mq s) ?d x"
    using set_update_subset_insert [of "consumers s" k c'] queue_okD(4) [OF ok] by blast
  show "queue_ok (s\<lparr>mq := mq s, consumers := (consumers s)[k := c']\<rparr>) log"
    using slots' cons ok by (simp add: queue_ok_def)
  show "sums_ok weight (s\<lparr>mq := mq s, consumers := (consumers s)[k := c']\<rparr>) log"
    using sums k pc by (simp add: sums_ok_def sum_list_update_same popped_def pop_count_def
        pop_claim_def c')
qed

lemma pop_release_inv:
  assumes ok: "queue_ok s log" and sums: "sums_ok weight s log"
    and k: "k < length (consumers s)" and pc: "cn_pc (consumers s ! k) = MPop_Release pos v"
    and q': "q' = (mq s)\<lparr>mbuffer := put_sequence pos (pos + kCapacity) (mbuffer (mq s))\<rparr>"
    and c': "c' = (consumers s ! k)\<lparr>cn_pc := MPop_Enter, cn_i := cn_i (consumers s ! k) + 1,
      cn_sum := cn_sum (consumers s ! k) + weight v\<rparr>"
  shows "queue_ok (s\<lparr>mq := q', consumers := (consumers s)[k := c']\<rparr>) log"
    and "sums_ok weight (s\<lparr>mq := q', consumers := (consumers s)[k := c']\<rparr>) log"
proof -
  let ?c = "consumers s ! k" and ?d = "unat (dequeue_pos (mq s))"
  let ?wr = "claims (\<lambda>p. push_claim (pr_pc p)) (producers s)"
    and ?rd = "claims (\<lambda>c. pop_claim (cn_pc c)) (consumers s)"
  have okc: "mconsumer_ok (mq s) ?d ?c" using queue_okD(4) [OF ok] k by simp
  note slots = queue_okD(1) [OF ok]
  have some: "?rd k = Some (unat pos, Some v)" using k pc by (simp add: claims_nth pop_claim_def)
  have v: "v = log ! unat pos" by (rule slots_okD(14) [OF slots some])
  have cl: "claims (\<lambda>c. pop_claim (cn_pc c)) ((consumers s)[k := c']) = ?rd(k := None)"
    using k by (simp add: claims_update c' pop_claim_def)
  from slots_release [OF slots some]
  have slots': "slots_ok (mbuffer q') log ?d ?wr
      (claims (\<lambda>c. pop_claim (cn_pc c)) ((consumers s)[k := c']))"
    unfolding cl q' by simp
  have claimed: "unat pos \<in> claimed ?wr \<union> claimed ?rd" using claimedI [of ?rd k, OF some] by blast
  have len: "length (mbuffer (mq s)) = 1024" using slots_okD(1) [OF slots] .
  have seq: "sequence (mbuffer q' ! (n mod 1024)) = sequence (mbuffer (mq s) ! (n mod 1024))"
    if "unat pos mod 1024 \<noteq> n mod 1024" for n
    using put_sequence_nth [OF len, of "unat pos" "pos + kCapacity" n] that by (simp add: q')
  have i: "cn_i ?c < cn_count ?c" using okc pc by (simp add: mconsumer_ok_def)
  have next_i: "unat (cn_i ?c + 1) = Suc (unat (cn_i ?c))"
    using i unat_u64_bound [of "cn_count ?c"]
    by (subst unat_add_no_wrap) (simp_all add: word_less_nat_alt)
  have "mconsumer_ok q' ?d c'"
    using i next_i by (simp add: c' mconsumer_ok_def word_le_nat_alt word_less_nat_alt)
  moreover have "mconsumer_ok q' ?d x" if "x \<in> set (consumers s)" for x
    by (rule mconsumer_ok_buffer [OF queue_okD(4) [OF ok that]])
      (simp_all only: seq claimed_not_full [OF slots claimed] not_False_eq_True)
  ultimately have cons: "\<forall>x\<in>set ((consumers s)[k := c']). mconsumer_ok q' ?d x"
    using set_update_subset_insert [of "consumers s" k c'] by blast
  have prods: "\<forall>p\<in>set (producers s). mproducer_ok q' log p"
    by (intro ballI mproducer_ok_buffer [OF queue_okD(3) [OF ok]])
      (simp_all add: seq claimed_not_free [OF slots claimed])
  show "queue_ok (s\<lparr>mq := q', consumers := (consumers s)[k := c']\<rparr>) log"
    using ok slots' prods cons by (simp add: queue_ok_def q')
  have "popped weight log c' = popped weight log ?c" "pop_count c' = pop_count ?c"
    using pc next_i v by (simp_all add: popped_def pop_count_def pop_claim_def c')
  then show "sums_ok weight (s\<lparr>mq := q', consumers := (consumers s)[k := c']\<rparr>) log"
    using sums k by (simp add: sums_ok_def sum_list_update_same q')
qed

lemma consumer_step_inv:
  assumes step: "pop_step weight (mq s, consumers s ! k) (q', c')" and k: "k < length (consumers s)"
    and ok: "queue_ok s log" and sums: "sums_ok weight s log" and bound: "work (producers s) < 2 ^ 63"
  shows "\<exists>log'. queue_ok (s\<lparr>mq := q', consumers := (consumers s)[k := c']\<rparr>) log' \<and>
    sums_ok weight (s\<lparr>mq := q', consumers := (consumers s)[k := c']\<rparr>) log'"
proof -
  let ?d = "unat (dequeue_pos (mq s))"
  have okc: "mconsumer_ok (mq s) ?d (consumers s ! k)" using queue_okD(4) [OF ok] k by simp
  have looks: ?thesis if "q' = mq s" "pop_claim (cn_pc c') = pop_claim (cn_pc (consumers s ! k))"
    "mconsumer_ok (mq s) ?d c'" "cn_i c' = cn_i (consumers s ! k)" "cn_sum c' = cn_sum (consumers s ! k)"
    using queue_ok_consumer_looks [OF ok k that(2,3)] sums_ok_consumer_looks [OF sums k that(2,4,5)]
    unfolding that(1) by blast
  from step show ?thesis
  proof cases
    case (pop_reserve pos)
    with pop_reserve_inv [OF ok sums bound k] show ?thesis by blast
  next
    case (pop_read pos)
    with pop_read_inv [OF ok sums k] show ?thesis by blast
  next
    case (pop_release pos v)
    with pop_release_inv [OF ok sums k] show ?thesis by blast
  next
    case (pop_ready pos)
    moreover from this okc have "unat pos = ?d \<Longrightarrow>
        sequence (mbuffer (mq s) ! (?d mod 1024)) = word_of_nat (Suc ?d)"
      by (simp add: slot_unat) (metis of_nat_Suc of_nat_eq_unat)
    ultimately show ?thesis
      using okc by (intro looks) (simp_all add: pop_claim_def mconsumer_ok_def)
  qed (use okc in \<open>(intro looks; simp add: pop_claim_def mconsumer_ok_def)+\<close>)
qed

section \<open>All reachable states\<close>

definition range_size :: "u64 \<times> u64 \<Rightarrow> nat" where
  "range_size r = unat (snd r) - unat (fst r)"

text \<open>Fewer than \<open>2\<^sup>6\<^sup>3\<close> items, no range upside down.\<close>

definition ranges_ok :: "(u64 \<times> u64) list \<Rightarrow> bool" where
  "ranges_ok ranges \<longleftrightarrow> (\<forall>r\<in>set ranges. fst r \<le> snd r) \<and> sum_list (map range_size ranges) < 2 ^ 63"

definition mpmc_inv ::
  "(u64 \<Rightarrow> 'a::cancel_comm_monoid_add) \<Rightarrow> (u64 \<times> u64) list \<Rightarrow> u64 list \<Rightarrow> 'a mpmc \<Rightarrow> bool" where
  "mpmc_inv weight ranges counts s \<longleftrightarrow>
     map (\<lambda>p. (pr_lo p, pr_hi p)) (producers s) = ranges \<and> map cn_count (consumers s) = counts \<and>
     sum_list (map range_size ranges) < 2 ^ 63 \<and> (\<exists>log. queue_ok s log \<and> sums_ok weight s log)"

lemma work_ranges: "work ps = sum_list (map range_size (map (\<lambda>p. (pr_lo p, pr_hi p)) ps))"
  by (simp add: work_def range_size_def comp_def)

lemma map_update_same: "k < length xs \<Longrightarrow> f x = f (xs ! k) \<Longrightarrow> map f (xs[k := x]) = map f xs"
  by (simp add: map_update list_update_same_conv)

lemma push_step_args: "push_step (q, p) (q', p') \<Longrightarrow> pr_lo p' = pr_lo p \<and> pr_hi p' = pr_hi p"
  by (auto elim: push_step.cases)

lemma pop_step_args: "pop_step weight (q, c) (q', c') \<Longrightarrow> cn_count c' = cn_count c"
  by (auto elim: pop_step.cases)

lemma mpmc_inv_step:
  assumes "mpmc_step weight s s'" "mpmc_inv weight ranges counts s"
  shows "mpmc_inv weight ranges counts s'"
  using assms
proof cases
  case (producer_moves k q' p')
  from assms(2) obtain log where log: "queue_ok s log" "sums_ok weight s log"
    "work (producers s) < 2 ^ 63" by (auto simp: mpmc_inv_def work_ranges)
  from producer_step_inv [OF producer_moves(3,2) log] push_step_args [OF producer_moves(3)] assms(2)
  show ?thesis unfolding producer_moves(1)
    by (simp add: mpmc_inv_def map_update_same [OF producer_moves(2)])
next
  case (consumer_moves k q' c')
  from assms(2) obtain log where log: "queue_ok s log" "sums_ok weight s log"
    "work (producers s) < 2 ^ 63" by (auto simp: mpmc_inv_def work_ranges)
  from consumer_step_inv [OF consumer_moves(3,2) log] pop_step_args [OF consumer_moves(3)] assms(2)
  show ?thesis unfolding consumer_moves(1)
    by (simp add: mpmc_inv_def map_update_same [OF consumer_moves(2)])
qed

lemma claims_start: "claims (\<lambda>p. push_claim (pr_pc p)) (map mproducer_start ranges) = Map.empty"
  "claims (\<lambda>c. pop_claim (cn_pc c)) (map mconsumer_start counts) = Map.empty"
  by (rule ext; simp add: claims_def mproducer_start_def mconsumer_start_def push_claim_def pop_claim_def)+

lemma mpmc_inv_start:
  assumes "length mem = 1024" "ranges_ok ranges"
  shows "mpmc_inv weight ranges counts (mpmc_start mem ranges counts)"
proof -
  let ?s = "mpmc_start mem ranges counts"
  have "queue_ok ?s []"
    using assms by (auto simp: queue_ok_def mpmc_start_def claims_start slots_ok_init ranges_ok_def
        mproducer_ok_def mconsumer_ok_def mproducer_start_def mconsumer_start_def word_le_nat_alt)
  moreover have "sums_ok weight ?s []"
    by (simp add: sums_ok_def mpmc_start_def comp_def pushed_def popped_def push_count_def pop_count_def
        mproducer_start_def mconsumer_start_def push_claim_def pop_claim_def own_range_def)
  ultimately show ?thesis using assms(2)
    by (auto simp: mpmc_inv_def ranges_ok_def mpmc_start_def comp_def mproducer_start_def mconsumer_start_def)
qed

lemma mpmc_inv_steps:
  "mpmc_steps weight s s' \<Longrightarrow> mpmc_inv weight ranges counts s \<Longrightarrow> mpmc_inv weight ranges counts s'"
  by (induction rule: rtranclp_induct) (auto intro: mpmc_inv_step)

lemma mpmc_reachable:
  "length mem = 1024 \<Longrightarrow> ranges_ok ranges \<Longrightarrow> mpmc_steps weight (mpmc_start mem ranges counts) s \<Longrightarrow>
   mpmc_inv weight ranges counts s"
  by (rule mpmc_inv_steps [OF _ mpmc_inv_start])

text \<open>When all threads have returned and the counts match, everything pushed was popped once.\<close>

lemma joined_sums:
  assumes inv: "mpmc_inv weight ranges counts s" and joined: "mpmc_joined s"
    and match: "sum_list (map unat counts) = sum_list (map range_size ranges)"
  shows "(\<Sum>c\<leftarrow>consumers s. cn_sum c) = (\<Sum>r\<leftarrow>ranges. own_range weight (fst r) (snd r))"
proof -
  let ?d = "unat (dequeue_pos (mq s))"
  from inv obtain log where ok: "queue_ok s log" and sums: "sums_ok weight s log"
    and ranges: "ranges = map (\<lambda>p. (pr_lo p, pr_hi p)) (producers s)"
    and counts: "counts = map cn_count (consumers s)" by (auto simp: mpmc_inv_def)
  have p: "pr_i p = pr_hi p \<and> push_claim (pr_pc p) = None" if "p \<in> set (producers s)" for p
    using queue_okD(3) [OF ok that] joined that
    by (auto simp: mproducer_ok_def mpmc_joined_def push_claim_def not_less)
  have c: "cn_i c = cn_count c \<and> pop_claim (cn_pc c) = None" if "c \<in> set (consumers s)" for c
    using queue_okD(4) [OF ok that] joined that
    by (auto simp: mconsumer_ok_def mpmc_joined_def pop_claim_def not_less)
  have "(\<Sum>p\<leftarrow>producers s. push_count p) = sum_list (map range_size ranges)" unfolding ranges map_map
    by (intro arg_cong [of _ _ sum_list] map_cong) (simp_all add: p push_count_def range_size_def)
  moreover have "(\<Sum>c\<leftarrow>consumers s. pop_count c) = sum_list (map unat counts)" unfolding counts map_map
    by (intro arg_cong [of _ _ sum_list] map_cong) (simp_all add: c pop_count_def)
  ultimately have d: "?d = length log" using sums match by (simp add: sums_ok_def)
  have "(\<Sum>c\<leftarrow>consumers s. cn_sum c) = (\<Sum>c\<leftarrow>consumers s. popped weight log c)"
    by (intro arg_cong [of _ _ sum_list] map_cong) (simp_all add: c popped_def)
  also have "\<dots> = (\<Sum>p\<leftarrow>producers s. pushed weight p)" using sums d by (simp add: sums_ok_def)
  also have "\<dots> = (\<Sum>r\<leftarrow>ranges. own_range weight (fst r) (snd r))" unfolding ranges map_map
    by (intro arg_cong [of _ _ sum_list] map_cong) (simp_all add: p pushed_def)
  finally show ?thesis .
qed

section \<open>No state is a dead end\<close>

lemma lift_push:
  assumes "push_step\<^sup>*\<^sup>* (mq s, producers s ! k) (q', p')" "k < length (producers s)"
  shows "mpmc_steps weight s (s\<lparr>mq := q', producers := (producers s)[k := p']\<rparr>)"
  using assms(1)
proof (induction "(q', p')" arbitrary: q' p' rule: rtranclp_induct)
  case base
  then show ?case by simp
next
  case (step y)
  obtain q1 p1 where y: "y = (q1, p1)" by (cases y)
  let ?s1 = "s\<lparr>mq := q1, producers := (producers s)[k := p1]\<rparr>"
  have "mpmc_steps weight s ?s1" using step.hyps(3) y by blast
  moreover have "mpmc_step weight ?s1 (?s1\<lparr>mq := q', producers := (producers ?s1)[k := p']\<rparr>)"
    using step.hyps(2) y assms(2) by (intro mpmc_step.intros) simp_all
  ultimately show ?case by simp
qed

lemma lift_pop:
  assumes "(pop_step weight)\<^sup>*\<^sup>* (mq s, consumers s ! k) (q', c')" "k < length (consumers s)"
  shows "mpmc_steps weight s (s\<lparr>mq := q', consumers := (consumers s)[k := c']\<rparr>)"
  using assms(1)
proof (induction "(q', c')" arbitrary: q' c' rule: rtranclp_induct)
  case base
  then show ?case by simp
next
  case (step y)
  obtain q1 c1 where y: "y = (q1, c1)" by (cases y)
  let ?s1 = "s\<lparr>mq := q1, consumers := (consumers s)[k := c1]\<rparr>"
  have "mpmc_steps weight s ?s1" using step.hyps(3) y by blast
  moreover have "mpmc_step weight ?s1 (?s1\<lparr>mq := q', consumers := (consumers ?s1)[k := c']\<rparr>)"
    using step.hyps(2) y assms(2) by (intro mpmc_step.intros) simp_all
  ultimately show ?case by simp
qed

text \<open>A thread that runs alone finishes its operation.\<close>

lemma push_reaches_check:
  assumes "pr_i p < pr_hi p" "push_claim (pr_pc p) = None"
  shows "push_step\<^sup>*\<^sup>* (q, p) (q, p\<lparr>pr_pc := MPush_Check (enqueue_pos q)\<rparr>)"
proof (cases "pr_pc p")
  case (MPush_Check pos)
  let ?d = "seq_diff (sequence (mbuffer q ! slot pos)) pos"
  consider "?d = 0" | "?d < 0" | "0 < ?d" by linarith
  then show ?thesis
  proof cases
    case 1
    have "push_step (q, p) (q, p\<lparr>pr_pc := MPush_Cas pos\<rparr>)" using MPush_Check 1 by (rule push_ready)
    moreover have "push_step (q, p\<lparr>pr_pc := MPush_Cas pos\<rparr>) (q, p\<lparr>pr_pc := MPush_Check (enqueue_pos q)\<rparr>)"
      using push_cas_fails [of "p\<lparr>pr_pc := MPush_Cas pos\<rparr>" pos q] by simp
    ultimately show ?thesis by (meson converse_rtranclp_into_rtranclp r_into_rtranclp)
  next
    case 2
    have "push_step (q, p) (q, p\<lparr>pr_pc := MPush_Reload\<rparr>)" using MPush_Check 2 by (rule push_full)
    moreover have "push_step (q, p\<lparr>pr_pc := MPush_Reload\<rparr>) (q, p\<lparr>pr_pc := MPush_Check (enqueue_pos q)\<rparr>)"
      using push_reload [of "p\<lparr>pr_pc := MPush_Reload\<rparr>" q] by simp
    ultimately show ?thesis by (meson converse_rtranclp_into_rtranclp r_into_rtranclp)
  next
    case 3
    have "push_step (q, p) (q, p\<lparr>pr_pc := MPush_Reload\<rparr>)" using MPush_Check 3 by (rule push_behind)
    moreover have "push_step (q, p\<lparr>pr_pc := MPush_Reload\<rparr>) (q, p\<lparr>pr_pc := MPush_Check (enqueue_pos q)\<rparr>)"
      using push_reload [of "p\<lparr>pr_pc := MPush_Reload\<rparr>" q] by simp
    ultimately show ?thesis by (meson converse_rtranclp_into_rtranclp r_into_rtranclp)
  qed
qed (use assms in \<open>auto simp: push_claim_def intro: push_enter push_reload push_cas_fails\<close>)

lemma push_finishes_publish:
  assumes "pr_pc p = MPush_Publish pos"
  shows "\<exists>q' p'. push_step\<^sup>*\<^sup>* (q, p) (q', p') \<and> pr_i p' = pr_i p + 1"
proof (intro exI conjI)
  show "push_step\<^sup>*\<^sup>* (q, p) (q\<lparr>mbuffer := put_sequence pos (pos + 1) (mbuffer q)\<rparr>,
      p\<lparr>pr_pc := MPush_Enter, pr_i := pr_i p + 1\<rparr>)"
    using push_publish [OF assms] by blast
qed simp

lemma push_finishes_write:
  assumes "pr_pc p = MPush_Write pos"
  shows "\<exists>q' p'. push_step\<^sup>*\<^sup>* (q, p) (q', p') \<and> pr_i p' = pr_i p + 1"
proof -
  let ?q = "q\<lparr>mbuffer := put_data pos (pr_i p) (mbuffer q)\<rparr>" and ?p = "p\<lparr>pr_pc := MPush_Publish pos\<rparr>"
  obtain q' p' where "push_step\<^sup>*\<^sup>* (?q, ?p) (q', p')" "pr_i p' = pr_i ?p + 1"
    using push_finishes_publish [of ?p pos ?q] by auto
  moreover have "pr_i ?p = pr_i p" by simp
  ultimately show ?thesis using push_write [OF assms, of q]
    by (metis converse_rtranclp_into_rtranclp)
qed

lemma push_finishes_claimed:
  assumes "push_claim (pr_pc p) \<noteq> None"
  shows "\<exists>q' p'. push_step\<^sup>*\<^sup>* (q, p) (q', p') \<and> pr_i p' = pr_i p + 1"
  using assms push_finishes_publish push_finishes_write
  by (cases "pr_pc p") (simp_all add: push_claim_def)

lemma push_reaches_write:
  assumes i: "pr_i p < pr_hi p" and none: "push_claim (pr_pc p) = None"
    and free: "sequence (mbuffer q ! slot (enqueue_pos q)) = enqueue_pos q"
  shows "push_step\<^sup>*\<^sup>* (q, p) (q\<lparr>enqueue_pos := enqueue_pos q + 1\<rparr>, p\<lparr>pr_pc := MPush_Write (enqueue_pos q)\<rparr>)"
proof -
  let ?e = "enqueue_pos q"
  note push_reaches_check [OF i none]
  also have "push_step (q, p\<lparr>pr_pc := MPush_Check ?e\<rparr>) (q, p\<lparr>pr_pc := MPush_Cas ?e\<rparr>)"
    using push_ready [of "p\<lparr>pr_pc := MPush_Check ?e\<rparr>" ?e q] free by simp
  also have "push_step (q, p\<lparr>pr_pc := MPush_Cas ?e\<rparr>) (q\<lparr>enqueue_pos := ?e + 1\<rparr>, p\<lparr>pr_pc := MPush_Write ?e\<rparr>)"
    using push_reserve [of "p\<lparr>pr_pc := MPush_Cas ?e\<rparr>" ?e q] by simp
  finally show ?thesis .
qed

lemma push_finishes:
  assumes i: "pr_i p < pr_hi p" and none: "push_claim (pr_pc p) = None"
    and free: "sequence (mbuffer q ! slot (enqueue_pos q)) = enqueue_pos q"
  shows "\<exists>q' p'. push_step\<^sup>*\<^sup>* (q, p) (q', p') \<and> pr_i p' = pr_i p + 1"
proof -
  let ?p = "p\<lparr>pr_pc := MPush_Write (enqueue_pos q)\<rparr>"
  obtain q' p' where "push_step\<^sup>*\<^sup>* (q\<lparr>enqueue_pos := enqueue_pos q + 1\<rparr>, ?p) (q', p')" "pr_i p' = pr_i p + 1"
    using push_finishes_write [of ?p "enqueue_pos q" "q\<lparr>enqueue_pos := enqueue_pos q + 1\<rparr>"] by auto
  with push_reaches_write [OF assms] show ?thesis by (meson rtranclp_trans)
qed

lemma pop_reaches_check:
  assumes "cn_i c < cn_count c" "pop_claim (cn_pc c) = None"
  shows "(pop_step weight)\<^sup>*\<^sup>* (q, c) (q, c\<lparr>cn_pc := MPop_Check (dequeue_pos q)\<rparr>)"
proof (cases "cn_pc c")
  case (MPop_Check pos)
  let ?d = "seq_diff (sequence (mbuffer q ! slot pos)) (pos + 1)"
  consider "?d = 0" | "?d < 0" | "0 < ?d" by linarith
  then show ?thesis
  proof cases
    case 1
    have "pop_step weight (q, c) (q, c\<lparr>cn_pc := MPop_Cas pos\<rparr>)" using MPop_Check 1 by (rule pop_ready)
    moreover have "pop_step weight (q, c\<lparr>cn_pc := MPop_Cas pos\<rparr>) (q, c\<lparr>cn_pc := MPop_Check (dequeue_pos q)\<rparr>)"
      using pop_cas_fails [of "c\<lparr>cn_pc := MPop_Cas pos\<rparr>" pos weight q] by simp
    ultimately show ?thesis by (meson converse_rtranclp_into_rtranclp r_into_rtranclp)
  next
    case 2
    have "pop_step weight (q, c) (q, c\<lparr>cn_pc := MPop_Reload\<rparr>)" using MPop_Check 2 by (rule pop_empty)
    moreover have "pop_step weight (q, c\<lparr>cn_pc := MPop_Reload\<rparr>) (q, c\<lparr>cn_pc := MPop_Check (dequeue_pos q)\<rparr>)"
      using pop_reload [of "c\<lparr>cn_pc := MPop_Reload\<rparr>" weight q] by simp
    ultimately show ?thesis by (meson converse_rtranclp_into_rtranclp r_into_rtranclp)
  next
    case 3
    have "pop_step weight (q, c) (q, c\<lparr>cn_pc := MPop_Reload\<rparr>)" using MPop_Check 3 by (rule pop_behind)
    moreover have "pop_step weight (q, c\<lparr>cn_pc := MPop_Reload\<rparr>) (q, c\<lparr>cn_pc := MPop_Check (dequeue_pos q)\<rparr>)"
      using pop_reload [of "c\<lparr>cn_pc := MPop_Reload\<rparr>" weight q] by simp
    ultimately show ?thesis by (meson converse_rtranclp_into_rtranclp r_into_rtranclp)
  qed
qed (use assms in \<open>auto simp: pop_claim_def intro: pop_enter pop_reload pop_cas_fails\<close>)

lemma pop_finishes_release:
  assumes "cn_pc c = MPop_Release pos v"
  shows "\<exists>q' c'. (pop_step weight)\<^sup>*\<^sup>* (q, c) (q', c') \<and> cn_i c' = cn_i c + 1"
proof (intro exI conjI)
  show "(pop_step weight)\<^sup>*\<^sup>* (q, c) (q\<lparr>mbuffer := put_sequence pos (pos + kCapacity) (mbuffer q)\<rparr>,
      c\<lparr>cn_pc := MPop_Enter, cn_i := cn_i c + 1, cn_sum := cn_sum c + weight v\<rparr>)"
    using pop_release [OF assms] by blast
qed simp

lemma pop_finishes_read:
  assumes "cn_pc c = MPop_Read pos"
  shows "\<exists>q' c'. (pop_step weight)\<^sup>*\<^sup>* (q, c) (q', c') \<and> cn_i c' = cn_i c + 1"
proof -
  let ?c = "c\<lparr>cn_pc := MPop_Release pos (cdata (mbuffer q ! slot pos))\<rparr>"
  obtain q' c' where "(pop_step weight)\<^sup>*\<^sup>* (q, ?c) (q', c')" "cn_i c' = cn_i ?c + 1"
    using pop_finishes_release [of ?c pos _ weight q] by auto
  moreover have "cn_i ?c = cn_i c" by simp
  ultimately show ?thesis using pop_read [OF assms, of weight q]
    by (metis converse_rtranclp_into_rtranclp)
qed

lemma pop_finishes_claimed:
  assumes "pop_claim (cn_pc c) \<noteq> None"
  shows "\<exists>q' c'. (pop_step weight)\<^sup>*\<^sup>* (q, c) (q', c') \<and> cn_i c' = cn_i c + 1"
  using assms pop_finishes_release pop_finishes_read
  by (cases "cn_pc c") (simp_all add: pop_claim_def)

lemma pop_finishes:
  assumes i: "cn_i c < cn_count c" and none: "pop_claim (cn_pc c) = None"
    and full: "sequence (mbuffer q ! slot (dequeue_pos q)) = dequeue_pos q + 1"
  shows "\<exists>q' c'. (pop_step weight)\<^sup>*\<^sup>* (q, c) (q', c') \<and> cn_i c' = cn_i c + 1"
proof -
  let ?d = "dequeue_pos q"
  note pop_reaches_check [OF i none, of weight]
  also have "pop_step weight (q, c\<lparr>cn_pc := MPop_Check ?d\<rparr>) (q, c\<lparr>cn_pc := MPop_Cas ?d\<rparr>)"
    using pop_ready [of "c\<lparr>cn_pc := MPop_Check ?d\<rparr>" ?d q] full by simp
  also have "pop_step weight (q, c\<lparr>cn_pc := MPop_Cas ?d\<rparr>) (q\<lparr>dequeue_pos := ?d + 1\<rparr>, c\<lparr>cn_pc := MPop_Read ?d\<rparr>)"
    using pop_reserve [of "c\<lparr>cn_pc := MPop_Cas ?d\<rparr>" ?d q] by simp
  finally have claim: "(pop_step weight)\<^sup>*\<^sup>* (q, c) (q\<lparr>dequeue_pos := ?d + 1\<rparr>, c\<lparr>cn_pc := MPop_Read ?d\<rparr>)" .
  obtain q' c' where "(pop_step weight)\<^sup>*\<^sup>* (q\<lparr>dequeue_pos := ?d + 1\<rparr>, c\<lparr>cn_pc := MPop_Read ?d\<rparr>) (q', c')"
    "cn_i c' = cn_i c + 1"
    using pop_finishes_read [of "c\<lparr>cn_pc := MPop_Read ?d\<rparr>" ?d weight "q\<lparr>dequeue_pos := ?d + 1\<rparr>"] by auto
  with claim show ?thesis by (meson rtranclp_trans)
qed

text \<open>Pushes and pops that are still to return.\<close>

definition pushes_left :: "mproducer \<Rightarrow> nat" where
  "pushes_left p = unat (pr_hi p) - unat (pr_i p)"

definition pops_left :: "'a mconsumer \<Rightarrow> nat" where
  "pops_left c = unat (cn_count c) - unat (cn_i c)"

definition remaining :: "'a mpmc \<Rightarrow> nat" where
  "remaining s = sum_list (map pushes_left (producers s)) + sum_list (map pops_left (consumers s))"

lemma sum_list_update_less:
  fixes f :: "'b \<Rightarrow> nat"
  shows "k < length xs \<Longrightarrow> f x < f (xs ! k) \<Longrightarrow> sum_list (map f (xs[k := x])) < sum_list (map f xs)"
proof (induction xs arbitrary: k)
  case (Cons y ys)
  then show ?case by (cases k) simp_all
qed simp

lemma push_steps_args: "push_step\<^sup>*\<^sup>* (q, p) (q', p') \<Longrightarrow> pr_hi p' = pr_hi p"
  by (induction "(q', p')" arbitrary: q' p' rule: rtranclp_induct) (auto dest: push_step_args)

lemma pop_steps_args: "(pop_step weight)\<^sup>*\<^sup>* (q, c) (q', c') \<Longrightarrow> cn_count c' = cn_count c"
  by (induction "(q', c')" arbitrary: q' c' rule: rtranclp_induct) (auto dest: pop_step_args)

lemma push_makes_progress:
  fixes s :: "'a::cancel_comm_monoid_add mpmc"
  assumes "push_step\<^sup>*\<^sup>* (mq s, producers s ! k) (q', p')" "k < length (producers s)"
    and "pr_i p' = pr_i (producers s ! k) + 1" "pr_i (producers s ! k) < pr_hi (producers s ! k)"
  shows "\<exists>s'. mpmc_steps weight s s' \<and> remaining s' < remaining s"
proof -
  have "pushes_left p' < pushes_left (producers s ! k)"
    using assms(3,4) push_steps_args [OF assms(1)] unat_u64_bound [of "pr_hi (producers s ! k)"]
    by (simp add: pushes_left_def word_less_nat_alt unat_add_no_wrap)
  with lift_push [OF assms(1,2), of weight] sum_list_update_less [of k "producers s" pushes_left p'] assms(2)
  show ?thesis by (auto simp: remaining_def)
qed

lemma pop_makes_progress:
  assumes "(pop_step weight)\<^sup>*\<^sup>* (mq s, consumers s ! k) (q', c')" "k < length (consumers s)"
    and "cn_i c' = cn_i (consumers s ! k) + 1" "cn_i (consumers s ! k) < cn_count (consumers s ! k)"
  shows "\<exists>s'. mpmc_steps weight s s' \<and> remaining s' < remaining s"
proof -
  have "pops_left c' < pops_left (consumers s ! k)"
    using assms(3,4) pop_steps_args [OF assms(1)] unat_u64_bound [of "cn_count (consumers s ! k)"]
    by (simp add: pops_left_def word_less_nat_alt unat_add_no_wrap)
  with lift_pop [OF assms(1,2)] sum_list_update_less [of k "consumers s" pops_left c'] assms(2)
  show ?thesis by (auto simp: remaining_def)
qed

lemma claimed_claims: "\<forall>x\<in>set xs. f x = None \<Longrightarrow> claimed (claims f xs) = {}"
  by (auto simp: claimed_def claims_def)

lemma sum_list_less_ex:
  fixes f g :: "'b \<Rightarrow> nat"
  shows "sum_list (map f xs) < sum_list (map g xs) \<Longrightarrow> \<exists>k<length xs. f (xs ! k) < g (xs ! k)"
proof (induction xs)
  case (Cons x xs)
  show ?case
  proof (cases "f x < g x")
    case True
    then show ?thesis by (intro exI [of _ 0]) simp
  next
    case False
    with Cons.prems have "sum_list (map f xs) < sum_list (map g xs)" by simp
    with Cons.IH obtain k where "k < length xs" "f (xs ! k) < g (xs ! k)" by blast
    then show ?thesis by (intro exI [of _ "Suc k"]) simp
  qed
qed simp

text \<open>While nobody works on a slot: a pushed value is ready, or the next slot is free.\<close>

lemma idle_full:
  assumes "slots_ok buf log d wr rd" "claimed wr = {}" "claimed rd = {}" "d < length log"
  shows "sequence (buf ! (d mod 1024)) = word_of_nat (Suc d)"
proof -
  have "in_window (length log) d" using assms(4) slots_okD(3) [OF assms(1)] by (simp add: in_window_def)
  from slots_okD(10) [OF assms(1) this] assms(2,3) show ?thesis by (simp add: next_sequence_def)
qed

lemma idle_free:
  assumes "slots_ok buf log d wr rd" "claimed wr = {}" "claimed rd = {}" "d = length log"
  shows "sequence (buf ! (length log mod 1024)) = word_of_nat (length log)"
proof (cases "length log < 1024")
  case True
  with slots_okD(11) [OF assms(1) order_refl] show ?thesis by simp
next
  case False
  let ?n = "length log - 1024"
  have w: "in_window (length log) ?n" using False by (auto simp: in_window_def)
  have "?n mod 1024 = length log mod 1024" using False by (simp add: mod_if)
  moreover have "next_sequence {} {} d ?n = length log"
    using False assms(4) by (simp add: next_sequence_def)
  ultimately show ?thesis using slots_okD(10) [OF assms(1) w] assms(2,3) by simp
qed

lemma claimed_push_goes:
  fixes s :: "'a::cancel_comm_monoid_add mpmc"
  assumes ok: "queue_ok s log" and k: "k < length (producers s)"
    and claim: "push_claim (pr_pc (producers s ! k)) \<noteq> None"
  shows "\<exists>s'. mpmc_steps weight s s' \<and> remaining s' < remaining s"
proof -
  have "mproducer_ok (mq s) log (producers s ! k)" using queue_okD(3) [OF ok] k by simp
  with claim have i: "pr_i (producers s ! k) < pr_hi (producers s ! k)"
    by (auto simp: mproducer_ok_def push_claim_def split: mpush_pc.splits)
  from push_finishes_claimed [OF claim, of "mq s"] push_makes_progress [OF _ k _ i]
  show ?thesis by blast
qed

lemma claimed_pop_goes:
  assumes ok: "queue_ok s log" and k: "k < length (consumers s)"
    and claim: "pop_claim (cn_pc (consumers s ! k)) \<noteq> None"
  shows "\<exists>s'. mpmc_steps weight s s' \<and> remaining s' < remaining s"
proof -
  have "mconsumer_ok (mq s) (unat (dequeue_pos (mq s))) (consumers s ! k)" using queue_okD(4) [OF ok] k by simp
  with claim have i: "cn_i (consumers s ! k) < cn_count (consumers s ! k)"
    by (auto simp: mconsumer_ok_def pop_claim_def split: mpop_pc.splits)
  from pop_finishes_claimed [OF claim, of weight "mq s"] pop_makes_progress [OF _ k _ i]
  show ?thesis by blast
qed

lemma sum_list_less_intro:
  fixes f g :: "'b \<Rightarrow> nat"
  shows "\<forall>x\<in>set xs. f x \<le> g x \<Longrightarrow> \<exists>x\<in>set xs. f x < g x \<Longrightarrow>
    sum_list (map f xs) < sum_list (map g xs)"
proof (induction xs)
  case (Cons x xs)
  have "sum_list (map f xs) \<le> sum_list (map g xs)" using Cons.prems(1) by (intro sum_list_mono) simp
  with Cons show ?case by fastforce
qed simp

lemma unclaimed_pop_goes:
  assumes ok: "queue_ok s log" and sums: "sums_ok weight s log"
    and idle: "\<forall>p\<in>set (producers s). push_claim (pr_pc p) = None"
      "\<forall>c\<in>set (consumers s). pop_claim (cn_pc c) = None"
    and match: "(\<Sum>c\<leftarrow>consumers s. unat (cn_count c)) = work (producers s)"
    and d: "unat (dequeue_pos (mq s)) < length log"
  shows "\<exists>s'. mpmc_steps weight s s' \<and> remaining s' < remaining s"
proof -
  have "(\<Sum>c\<leftarrow>consumers s. pop_count c) < (\<Sum>c\<leftarrow>consumers s. unat (cn_count c))"
    using d sums log_le_work [OF ok sums] match by (simp add: sums_ok_def)
  from sum_list_less_ex [OF this] obtain k where k: "k < length (consumers s)"
    and less: "pop_count (consumers s ! k) < unat (cn_count (consumers s ! k))" by blast
  then have c: "pop_claim (cn_pc (consumers s ! k)) = None" using idle by simp
  with less have i: "cn_i (consumers s ! k) < cn_count (consumers s ! k)"
    by (simp add: pop_count_def word_less_nat_alt)
  have "sequence (mbuffer (mq s) ! slot (dequeue_pos (mq s))) = dequeue_pos (mq s) + 1"
    using idle_full [OF queue_okD(1) [OF ok] claimed_claims [OF idle(1)] claimed_claims [OF idle(2)] d]
    by (simp add: slot_unat add.commute)
  from pop_finishes [OF i c this, of weight] pop_makes_progress [OF _ k _ i] show ?thesis by blast
qed

lemma unclaimed_push_goes:
  fixes s :: "'a::cancel_comm_monoid_add mpmc"
  assumes ok: "queue_ok s log"
    and idle: "\<forall>p\<in>set (producers s). push_claim (pr_pc p) = None"
      "\<forall>c\<in>set (consumers s). pop_claim (cn_pc c) = None"
    and d: "unat (dequeue_pos (mq s)) = length log"
    and k: "k < length (producers s)" and i: "pr_i (producers s ! k) < pr_hi (producers s ! k)"
  shows "\<exists>s'. mpmc_steps weight s s' \<and> remaining s' < remaining s"
proof -
  have c: "push_claim (pr_pc (producers s ! k)) = None" using idle k by simp
  have "sequence (mbuffer (mq s) ! slot (enqueue_pos (mq s))) = enqueue_pos (mq s)"
    using idle_free [OF queue_okD(1) [OF ok] claimed_claims [OF idle(1)] claimed_claims [OF idle(2)] d]
      queue_okD(2) [OF ok] by (metis of_nat_eq_unat slot_unat)
  from push_finishes [OF i c this] push_makes_progress [OF _ k _ i] show ?thesis by blast
qed

lemma unclaimed_goes:
  assumes ok: "queue_ok s log" and sums: "sums_ok weight s log" and running: "\<not> mpmc_joined s"
    and idle: "\<forall>p\<in>set (producers s). push_claim (pr_pc p) = None"
      "\<forall>c\<in>set (consumers s). pop_claim (cn_pc c) = None"
    and match: "(\<Sum>c\<leftarrow>consumers s. unat (cn_count c)) = work (producers s)"
  shows "\<exists>s'. mpmc_steps weight s s' \<and> remaining s' < remaining s"
proof (cases "unat (dequeue_pos (mq s)) < length log")
  case True
  with unclaimed_pop_goes [OF ok sums idle match] show ?thesis by blast
next
  case False
  with slots_okD(2) [OF queue_okD(1) [OF ok]] have d: "unat (dequeue_pos (mq s)) = length log" by simp
  have "\<exists>k<length (producers s). pr_i (producers s ! k) < pr_hi (producers s ! k)"
  proof (cases "\<exists>c\<in>set (consumers s). cn_i c < cn_count c")
    case True
    have "(\<Sum>c\<leftarrow>consumers s. pop_count c) < (\<Sum>c\<leftarrow>consumers s. unat (cn_count c))"
      using True idle(2) queue_okD(4) [OF ok]
      by (intro sum_list_less_intro)
        (auto simp: pop_count_def mconsumer_ok_def word_le_nat_alt word_less_nat_alt)
    then have "(\<Sum>p\<leftarrow>producers s. push_count p) < (\<Sum>p\<leftarrow>producers s. unat (pr_hi p) - unat (pr_lo p))"
      using d sums match by (simp add: sums_ok_def work_def)
    from sum_list_less_ex [OF this] idle(1) show ?thesis
      by (auto simp: push_count_def word_less_nat_alt)
  next
    case False
    with running queue_okD(3,4) [OF ok] have "\<exists>p\<in>set (producers s). pr_i p < pr_hi p"
      by (fastforce simp: mpmc_joined_def mproducer_ok_def mconsumer_ok_def)
    then show ?thesis by (auto simp: in_set_conv_nth)
  qed
  with unclaimed_push_goes [OF ok idle d] show ?thesis by blast
qed

lemma mpmc_progress:
  assumes inv: "mpmc_inv weight ranges counts s" and running: "\<not> mpmc_joined s"
    and match: "sum_list (map unat counts) = sum_list (map range_size ranges)"
  shows "\<exists>s'. mpmc_steps weight s s' \<and> remaining s' < remaining s"
proof -
  from inv obtain log where ok: "queue_ok s log" and sums: "sums_ok weight s log"
    and args: "ranges = map (\<lambda>p. (pr_lo p, pr_hi p)) (producers s)" "counts = map cn_count (consumers s)"
    by (auto simp: mpmc_inv_def)
  have m: "(\<Sum>c\<leftarrow>consumers s. unat (cn_count c)) = work (producers s)"
    using match unfolding args work_ranges by (simp add: comp_def)
  consider k where "k < length (producers s)" "push_claim (pr_pc (producers s ! k)) \<noteq> None"
    | k where "k < length (consumers s)" "pop_claim (cn_pc (consumers s ! k)) \<noteq> None"
    | "\<forall>p\<in>set (producers s). push_claim (pr_pc p) = None" "\<forall>c\<in>set (consumers s). pop_claim (cn_pc c) = None"
    by (metis in_set_conv_nth)
  then show ?thesis
    using claimed_push_goes [OF ok] claimed_pop_goes [OF ok] unclaimed_goes [OF ok sums running _ _ m]
    by cases blast+
qed

lemma mpmc_finishes:
  assumes "mpmc_inv weight ranges counts s"
    and "sum_list (map unat counts) = sum_list (map range_size ranges)"
  shows "\<exists>s'. mpmc_steps weight s s' \<and> mpmc_joined s'"
  using assms(1)
proof (induction "remaining s" arbitrary: s rule: less_induct)
  case less
  show ?case
  proof (cases "mpmc_joined s")
    case False
    from mpmc_progress [OF less.prems False assms(2)] obtain s1
      where s1: "mpmc_steps weight s s1" "remaining s1 < remaining s" by blast
    with less.hyps mpmc_inv_steps [OF s1(1) less.prems] show ?thesis by (meson rtranclp_trans)
  qed blast
qed

section \<open>The checksum of the program\<close>

lemma own_range_split:
  fixes weight :: "u64 \<Rightarrow> 'a::comm_monoid_add"
  assumes "lo \<le> mid" "mid \<le> hi"
  shows "own_range weight lo mid + own_range weight mid hi = own_range weight lo hi"
proof -
  have "[unat lo..<unat hi] = [unat lo..<unat mid] @ [unat mid..<unat hi]"
    using assms upt_add_eq_append [of "unat lo" "unat mid" "unat hi - unat mid"]
    by (simp add: word_le_nat_alt)
  then show ?thesis by (simp add: own_range_def)
qed

lemma own_range_sum: "own_range (\<lambda>v. v) 0 n = word_of_nat (unat n * (unat n - 1) div 2)"
proof -
  have "(\<Sum>i\<leftarrow>[0..<k]. word_of_nat i) = (word_of_nat (\<Sum>{..<k}) :: u64)" for k
    by (induction k) (simp_all add: add.commute)
  moreover have "\<Sum>{..<k} = k * (k - 1) div (2 :: nat)" for k
    using Sum_Ico_nat [of 0 k] by (simp add: atLeast0LessThan)
  ultimately show ?thesis by (simp add: own_range_def)
qed

lemma producer_ranges: "producer_ranges = [(0, 50000000), (50000000, 100000000)]"
  by (simp add: producer_ranges_def kProducers_def mpmc_kTotalItems_def upt_rec)

lemma consumer_counts: "consumer_counts = [50000000, 50000000]"
  by (simp add: consumer_counts_def kConsumers_def mpmc_kTotalItems_def upt_rec)

lemma main_args: "ranges_ok producer_ranges"
  "sum_list (map unat consumer_counts) = sum_list (map range_size producer_ranges)"
  by (simp_all add: producer_ranges consumer_counts ranges_ok_def range_size_def)

lemma fold_sum: "fold (\<lambda>c sum. sum + f c) cs a = a + (\<Sum>c\<leftarrow>cs. f c :: u64)"
  by (induction cs arbitrary: a) (simp_all add: add.assoc)

section \<open>What has been popped in the end\<close>

lemma joined_values:
  assumes "mpmc_inv (\<lambda>v. {#v#}) ranges counts s" "mpmc_joined s"
    and "sum_list (map unat counts) = sum_list (map range_size ranges)"
  shows "(\<Sum>c\<leftarrow>consumers s. cn_sum c) =
    mset (concat (map (\<lambda>r. map word_of_nat [unat (fst r)..<unat (snd r)]) ranges))"
proof -
  have "(\<Sum>x\<leftarrow>xs. {#f x#}) = mset (map f xs)" for f :: "nat \<Rightarrow> u64" and xs
    by (induction xs) simp_all
  then have "own_range (\<lambda>v. {#v#}) lo hi = mset (map word_of_nat [unat lo..<unat hi])" for lo hi
    unfolding own_range_def by blast
  moreover have "(\<Sum>r\<leftarrow>rs. mset (g r)) = mset (concat (map g rs))" for g :: "u64 \<times> u64 \<Rightarrow> u64 list" and rs
    by (induction rs) simp_all
  ultimately show ?thesis
    using joined_sums [OF assms] by (simp only:)
qed

lemma joined_checksum:
  assumes "mpmc_inv (\<lambda>v. v) producer_ranges consumer_counts s" "mpmc_joined s"
  shows "(\<Sum>c\<leftarrow>consumers s. cn_sum c) = mpmc_kTotalItems * (mpmc_kTotalItems - 1) div 2"
proof -
  have "(\<Sum>c\<leftarrow>consumers s. cn_sum c) = own_range (\<lambda>v. v) 0 50000000 + own_range (\<lambda>v. v) 50000000 100000000"
    using joined_sums [OF assms main_args(2)] by (simp add: producer_ranges)
  also have "\<dots> = own_range (\<lambda>v. v) 0 mpmc_kTotalItems"
    by (subst own_range_split) (simp_all add: mpmc_kTotalItems_def)
  also have "\<dots> = mpmc_kTotalItems * (mpmc_kTotalItems - 1) div 2"
    by (simp add: own_range_sum mpmc_kTotalItems_def)
  finally show ?thesis .
qed

end
