(* ===== verification/Mpmc_Messages.thy ===== *)
theory Mpmc_Messages
  imports Mpmc_Queue Release_Acquire
begin

text \<open>
  The ring of \<open>benchmarks/mpmc_queue.cpp\<close> as a history of messages: which values the
  sequence number of a cell has had, what an acquire load of one of them tells a thread about
  the plain data of the cell, and what a thread that owns a position may store there. The
  positions that are reserved and worked on are a parameter here.
\<close>

section \<open>The locations\<close>

datatype mpmc_loc = Seq_Cell nat | Data_Cell nat | Enqueue_Pos | Dequeue_Pos

section \<open>What the messages tell\<close>

text \<open>\<open>e\<close> and \<open>d\<close> positions are reserved; \<open>ws\<close> and \<open>rs\<close> of them are being worked on.\<close>

definition window_ok :: "nat \<Rightarrow> nat \<Rightarrow> nat set \<Rightarrow> nat set \<Rightarrow> bool" where
  "window_ok e d ws rs \<longleftrightarrow> d \<le> e \<and> e \<le> d + 1024 \<and> e + 1024 < 2 ^ 64 \<and>
     (\<forall>n\<in>ws. d \<le> n \<and> n < e) \<and> (\<forall>n\<in>rs. n < d \<and> e \<le> n + 1024)"

definition knows_cell :: "mpmc_loc memory \<Rightarrow> nat \<Rightarrow> mpmc_loc view \<Rightarrow> bool" where
  "knows_cell M k V \<longleftrightarrow> covers M (Data_Cell k) V \<and> knows_loads M (Data_Cell k) V"

definition mseq_message ::
  "nat \<Rightarrow> nat \<Rightarrow> nat set \<Rightarrow> nat set \<Rightarrow> mpmc_loc memory \<Rightarrow> nat \<Rightarrow> mpmc_loc message \<Rightarrow> bool" where
  "mseq_message e d ws rs M k m \<longleftrightarrow>
     m_value m = word_of_nat k \<and> (e \<le> k \<longrightarrow> knows_cell M k (m_view m)) \<or>
     (\<exists>p<e. p \<notin> ws \<and> p mod 1024 = k \<and> m_value m = word_of_nat (p + 1) \<and> (d \<le> p \<longrightarrow> knows_cell M k (m_view m))) \<or>
     (\<exists>p<d. p \<notin> rs \<and> p mod 1024 = k \<and> m_value m = word_of_nat (p + 1024) \<and>
        (e \<le> p + 1024 \<longrightarrow> knows_cell M k (m_view m)))"

lemma window_okD:
  assumes "window_ok e d ws rs"
  shows "d \<le> e" "e \<le> d + 1024" "e + 1024 < 2 ^ 64" "n \<in> ws \<Longrightarrow> d \<le> n \<and> n < e" "n \<in> rs \<Longrightarrow> n < d \<and> e \<le> n + 1024"
  using assms by (simp_all add: window_ok_def)

lemma mseq_message_cases:
  assumes "mseq_message e d ws rs M k m" "window_ok e d ws rs" "k < 1024"
  obtains (initial) "m_value m = word_of_nat k" "e \<le> k \<longrightarrow> knows_cell M k (m_view m)"
  | (pushed) p where "p < e" "p \<notin> ws" "p mod 1024 = k" "m_value m = word_of_nat (p + 1)" "p + 1 < 2 ^ 64"
      "d \<le> p \<longrightarrow> knows_cell M k (m_view m)"
  | (popped) p where "p < d" "p \<notin> rs" "p mod 1024 = k" "m_value m = word_of_nat (p + 1024)" "p + 1024 < 2 ^ 64"
      "e \<le> p + 1024 \<longrightarrow> knows_cell M k (m_view m)"
proof -
  note w = window_okD [OF assms(2)]
  from assms(1) consider (1) "m_value m = word_of_nat k" "e \<le> k \<longrightarrow> knows_cell M k (m_view m)"
    | (2) p where "p < e" "p \<notin> ws" "p mod 1024 = k" "m_value m = word_of_nat (p + 1)"
        "d \<le> p \<longrightarrow> knows_cell M k (m_view m)"
    | (3) p where "p < d" "p \<notin> rs" "p mod 1024 = k" "m_value m = word_of_nat (p + 1024)"
        "e \<le> p + 1024 \<longrightarrow> knows_cell M k (m_view m)"
    unfolding mseq_message_def by blast
  then show thesis
  proof cases
    case 1
    then show thesis by (rule initial)
  next
    case (2 p)
    with w(3) have "p + 1 < 2 ^ 64" by linarith
    with 2 show thesis by (intro pushed)
  next
    case (3 p)
    with w(1,3) have "p + 1024 < 2 ^ 64" by linarith
    with 3 show thesis by (intro popped)
  qed
qed

text \<open>The sequence number that lets position \<open>e\<close> be reserved for a push: its cell is free.\<close>

lemma mfree_message:
  assumes msg: "mseq_message e d ws rs M (e mod 1024) m" and w: "window_ok e d ws rs" and v: "m_value m = word_of_nat e"
  shows "e < 1024 \<or> e < d + 1024 \<and> 1024 \<le> e \<and> e - 1024 \<notin> rs" "knows_cell M (e mod 1024) (m_view m)"
proof -
  note b = window_okD [OF w]
  from msg w mod_ring [of e]
  have "(e < 1024 \<or> e < d + 1024 \<and> 1024 \<le> e \<and> e - 1024 \<notin> rs) \<and> knows_cell M (e mod 1024) (m_view m)"
  proof (cases rule: mseq_message_cases)
    case initial
    with b(3) v word_of_nat_inj [of "e mod 1024" e] have "e mod 1024 = e" by force
    moreover have "e mod 1024 < 1024" by simp
    ultimately show ?thesis using initial(2) by simp
  next
    case (pushed p)
    with b(3) v word_of_nat_inj [of "p + 1" e] have "p + 1 = e" by force
    with pushed(3) add_1_mod [of p] show ?thesis by simp
  next
    case (popped p)
    with b(3) v word_of_nat_inj [of "p + 1024" e] have e: "p + 1024 = e" by force
    with popped show ?thesis by auto
  qed
  then show "e < 1024 \<or> e < d + 1024 \<and> 1024 \<le> e \<and> e - 1024 \<notin> rs" "knows_cell M (e mod 1024) (m_view m)" by blast+
qed

text \<open>The one that lets \<open>d\<close> be reserved for a pop: its value is there.\<close>

lemma mfull_message:
  assumes msg: "mseq_message e d ws rs M (d mod 1024) m" and w: "window_ok e d ws rs" and v: "m_value m = word_of_nat d + 1"
  shows "d < e" "d \<notin> ws" "knows_cell M (d mod 1024) (m_view m)"
proof -
  note b = window_okD [OF w]
  have v: "m_value m = word_of_nat (d + 1)" using v by simp
  from msg w mod_ring [of d] have "d < e \<and> d \<notin> ws \<and> knows_cell M (d mod 1024) (m_view m)"
  proof (cases rule: mseq_message_cases)
    case initial
    with b(1,3) v word_of_nat_inj [of "d mod 1024" "d + 1"] have "d mod 1024 = d + 1" by (force simp del: of_nat_add)
    then show ?thesis by (metis add_1_mod mod_mod_trivial)
  next
    case (pushed p)
    with b(1,3) v word_of_nat_inj [of "p + 1" "d + 1"] have "p + 1 = d + 1" by (force simp del: of_nat_add)
    with pushed show ?thesis by simp
  next
    case (popped p)
    with b(1,3) v word_of_nat_inj [of "p + 1024" "d + 1"] have "p + 1024 = d + 1" by (force simp del: of_nat_add)
    then show ?thesis using popped(3) add_1024_mod add_1_mod by metis
  qed
  then show "d < e" "d \<notin> ws" "knows_cell M (d mod 1024) (m_view m)" by blast+
qed

section \<open>The ring in memory\<close>

definition mhistory_ok :: "nat \<Rightarrow> nat \<Rightarrow> nat set \<Rightarrow> nat set \<Rightarrow> mpmc_loc memory \<Rightarrow> nat \<Rightarrow> bool" where
  "mhistory_ok e d ws rs M k \<longleftrightarrow> (\<forall>(t, m)\<in>set (written M (Seq_Cell k)). mseq_message e d ws rs M k m) \<and>
     distinct (map (m_value \<circ> snd) (written M (Seq_Cell k)))"

definition mring_ok :: "nat \<Rightarrow> nat \<Rightarrow> nat set \<Rightarrow> nat set \<Rightarrow> cell list \<Rightarrow> mpmc_loc memory \<Rightarrow> bool" where
  "mring_ok e d ws rs buf M \<longleftrightarrow> \<not> raced M \<and>
     (\<forall>k<1024. mhistory_ok e d ws rs M k \<and> holds M (Seq_Cell k) (sequence (buf ! k)) \<and>
        holds M (Data_Cell k) (cdata (buf ! k)))"

lemma mring_okD:
  assumes "mring_ok e d ws rs buf M" "k < 1024"
  shows "mhistory_ok e d ws rs M k" "holds M (Seq_Cell k) (sequence (buf ! k))" "holds M (Data_Cell k) (cdata (buf ! k))"
  using assms by (simp_all add: mring_ok_def)

lemma mhistory_okD:
  "mhistory_ok e d ws rs M k \<Longrightarrow> (t, m) \<in> set (written M (Seq_Cell k)) \<Longrightarrow> mseq_message e d ws rs M k m"
  by (auto simp: mhistory_ok_def)

lemma knows_cell_cong:
  "written M' (Data_Cell k) = written M (Data_Cell k) \<Longrightarrow> loads_done M' (Data_Cell k) = loads_done M (Data_Cell k) \<Longrightarrow>
   knows_cell M' k = knows_cell M k"
  by (simp add: fun_eq_iff knows_cell_def covers_def knows_loads_def)

lemma knows_cell_mono: "knows_cell M k V \<Longrightarrow> view_le V W \<Longrightarrow> knows_cell M k W"
  by (auto simp: knows_cell_def intro: covers_mono knows_loads_mono)

text \<open>Reserving positions, and giving them up, only make the messages say less.\<close>

lemma mseq_message_mono:
  assumes old: "mseq_message e d ws rs M k m" and grow: "e \<le> e'" "d \<le> d'"
    and "\<And>p. p < e \<Longrightarrow> p \<notin> ws \<Longrightarrow> p \<notin> ws'" "\<And>p. p < d \<Longrightarrow> p \<notin> rs \<Longrightarrow> p \<notin> rs'"
    and same: "knows_cell M' k = knows_cell M k"
  shows "mseq_message e' d' ws' rs' M' k m"
proof -
  have less: "p < e \<Longrightarrow> p < e'" "p < d \<Longrightarrow> p < d'" "e' \<le> p \<Longrightarrow> e \<le> p" "d' \<le> p \<Longrightarrow> d \<le> p" for p
    using grow by simp_all
  from old show ?thesis unfolding mseq_message_def same
  proof (elim disjE exE conjE)
    assume "m_value m = word_of_nat k" "e \<le> k \<longrightarrow> knows_cell M k (m_view m)"
    with less(3) show "m_value m = word_of_nat k \<and> (e' \<le> k \<longrightarrow> knows_cell M k (m_view m)) \<or> X" for X by simp
  next
    fix p assume "p < e" "p \<notin> ws" "p mod 1024 = k" "m_value m = word_of_nat (p + 1)" "d \<le> p \<longrightarrow> knows_cell M k (m_view m)"
    with less(1,4) assms(4) show "X \<or> (\<exists>p<e'. p \<notin> ws' \<and> p mod 1024 = k \<and> m_value m = word_of_nat (p + 1) \<and>
      (d' \<le> p \<longrightarrow> knows_cell M k (m_view m))) \<or> Y" for X Y by blast
  next
    fix p assume "p < d" "p \<notin> rs" "p mod 1024 = k" "m_value m = word_of_nat (p + 1024)" "e \<le> p + 1024 \<longrightarrow> knows_cell M k (m_view m)"
    with less(2,3) assms(5) show "X \<or> Y \<or> (\<exists>p<d'. p \<notin> rs' \<and> p mod 1024 = k \<and> m_value m = word_of_nat (p + 1024) \<and>
      (e' \<le> p + 1024 \<longrightarrow> knows_cell M k (m_view m)))" for X Y by blast
  qed
qed

lemma mring_ok_mono:
  assumes old: "mring_ok e d ws rs buf M" and grow: "e \<le> e'" "d \<le> d'"
    and sets: "\<And>p. p < e \<Longrightarrow> p \<notin> ws \<Longrightarrow> p \<notin> ws'" "\<And>p. p < d \<Longrightarrow> p \<notin> rs \<Longrightarrow> p \<notin> rs'"
    and same: "\<And>k. written M' (Seq_Cell k) = written M (Seq_Cell k)" "\<And>k. written M' (Data_Cell k) = written M (Data_Cell k)"
      "loads_done M' = loads_done M" "raced M' = raced M"
  shows "mring_ok e' d' ws' rs' buf M'"
proof -
  have msg: "mseq_message e' d' ws' rs' M' k m" if "mseq_message e d ws rs M k m" for k m
    by (rule mseq_message_mono [OF that grow sets knows_cell_cong]) (simp_all add: same)
  have hist: "mhistory_ok e' d' ws' rs' M' k" if "mhistory_ok e d ws rs M k" for k
    using that msg by (auto simp: mhistory_ok_def same)
  have "holds M' (Seq_Cell k) v = holds M (Seq_Cell k) v" "holds M' (Data_Cell k) v = holds M (Data_Cell k) v" for k v
    by (simp_all add: holds_def same)
  with old hist show ?thesis by (simp add: mring_ok_def same)
qed

text \<open>The plain store of a producer that owns position \<open>n\<close>.\<close>

lemma mring_ok_data:
  assumes ring: "mring_ok e d ws rs buf M" and w: "window_ok e d ws rs" and n: "n \<in> ws" and len: "length buf = 1024"
    and store: "store_at Relaxed (Data_Cell (n mod 1024)) v t V M = Some (V', M')" "covers M (Data_Cell (n mod 1024)) V"
  shows "mring_ok e d ws rs (put_data (word_of_nat n) v buf) M'"
proof -
  note st = store_atD [OF store(1)] and b = window_okD [OF w]
  from b(4) [OF n] have n': "d \<le> n" "n < e" by simp_all
  have msg: "mseq_message e d ws rs M' k m" if old: "mseq_message e d ws rs M k m" for k m
  proof (cases "k = n mod 1024")
    case False
    then show ?thesis by (intro mseq_message_mono [OF old] knows_cell_cong) (simp_all add: st)
  next
    case True
    have "\<not> e \<le> n mod 1024" using n'(2) mod_less_eq_dividend [of n 1024] by linarith
    moreover have "\<not> d \<le> p" if "p < e" "p \<notin> ws" "p mod 1024 = n mod 1024" for p
      using that n n' b(2) mod_eq_near [of p 1024 n] by (metis add_le_cancel_right le_trans less_le_trans)
    moreover have "\<not> e \<le> p + 1024" if "p < d" "p mod 1024 = n mod 1024" for p
      using that n' b(1,2) mod_eq_near [of p 1024 n] by linarith
    ultimately show ?thesis using old unfolding mseq_message_def True by blast
  qed
  show ?thesis unfolding mring_ok_def
  proof (intro conjI allI impI)
    show "\<not> raced M'" using ring by (simp add: mring_ok_def st(6))
    fix k :: nat assume k: "k < 1024"
    note old = mring_okD [OF ring k]
    show "mhistory_ok e d ws rs M' k" using old(1) msg by (auto simp: mhistory_ok_def st(7))
    show "holds M' (Seq_Cell k) (sequence (put_data (word_of_nat n) v buf ! k))"
      using old(2) by (simp add: holds_def st(7))
    show "holds M' (Data_Cell k) (cdata (put_data (word_of_nat n) v buf ! k))"
      using old(3) put_data_nth [OF len, of n v k] k store_newest(2) [OF store] by (auto simp: holds_def st(7))
  qed
qed

text \<open>The plain load of a consumer that owns position \<open>n\<close>.\<close>

lemma mring_ok_load:
  assumes ring: "mring_ok e d ws rs buf M" and w: "window_ok e d ws rs" and n: "n \<in> rs"
    and load: "written M' = written M" "raced M' = raced M"
      "loads_done M' = (loads_done M)(Data_Cell (n mod 1024) := j)"
  shows "mring_ok e d ws rs buf M'"
proof -
  note b = window_okD [OF w]
  from b(5) [OF n] have n': "n < d" "e \<le> n + 1024" by simp_all
  have msg: "mseq_message e d ws rs M' k m" if old: "mseq_message e d ws rs M k m" for k m
  proof (cases "k = n mod 1024")
    case False
    then show ?thesis by (intro mseq_message_mono [OF old] knows_cell_cong) (simp_all add: load)
  next
    case True
    have "\<not> e \<le> n mod 1024" using n'(1) b(1) mod_less_eq_dividend [of n 1024] by linarith
    moreover have "\<not> d \<le> p" if "p < e" "p mod 1024 = n mod 1024" for p
      using that n' mod_eq_near [of p 1024 n] by linarith
    moreover have "\<not> e \<le> p + 1024" if "p < d" "p \<notin> rs" "p mod 1024 = n mod 1024" for p
      using that n n' b(1) mod_eq_near [of p 1024 n] by (metis add_less_mono1 less_le_trans le_less_trans not_le)
    ultimately show ?thesis using old unfolding mseq_message_def True by blast
  qed
  have hist: "mhistory_ok e d ws rs M' k" if "mhistory_ok e d ws rs M k" for k
    using that msg by (auto simp: mhistory_ok_def load(1))
  with ring show ?thesis by (auto simp: mring_ok_def holds_def load(1,2))
qed

text \<open>A release store of the owner of position \<open>n\<close>, with a value that has not been there.\<close>

lemma mring_ok_sequence:
  assumes ring: "mring_ok e d ws rs buf M" and len: "length buf = 1024"
    and store: "store_at Release (Seq_Cell (n mod 1024)) v t V M = Some (V', M')" "covers M (Seq_Cell (n mod 1024)) V"
    and sets: "ws' \<subseteq> ws" "rs' \<subseteq> rs"
    and new: "mseq_message e d ws' rs' M' (n mod 1024) \<lparr>m_value = v, m_view = V'\<rparr>"
    and fresh: "v \<notin> m_value ` snd ` set (written M (Seq_Cell (n mod 1024)))"
  shows "mring_ok e d ws' rs' (put_sequence (word_of_nat n) v buf) M'"
proof -
  note st = store_atD [OF store(1)]
  have msg: "mseq_message e d ws' rs' M' k m" if "mseq_message e d ws rs M k m" for k m
    by (rule mseq_message_mono [OF that _ _ _ _ knows_cell_cong]) (use sets in \<open>auto simp: st\<close>)
  show ?thesis unfolding mring_ok_def
  proof (intro conjI allI impI)
    show "\<not> raced M'" using ring by (simp add: mring_ok_def st(6))
    fix k :: nat assume k: "k < 1024"
    note old = mring_okD [OF ring k]
    show "mhistory_ok e d ws' rs' M' k"
      using old(1) msg new fresh by (cases "k = n mod 1024") (auto simp: mhistory_ok_def st(7))
    show "holds M' (Data_Cell k) (cdata (put_sequence (word_of_nat n) v buf ! k))"
      using old(3) by (simp add: holds_def st(7))
    show "holds M' (Seq_Cell k) (sequence (put_sequence (word_of_nat n) v buf ! k))"
      using old(2) put_sequence_nth [OF len, of n v k] k store_newest(2) [OF store] by (auto simp: holds_def st(7))
  qed
qed

text \<open>The values that the owners store have not been there.\<close>

lemma mfresh_publish:
  assumes ring: "mring_ok e d ws rs buf M" and w: "window_ok e d ws rs" and n: "n \<in> ws"
  shows "word_of_nat (n + 1) \<notin> m_value ` snd ` set (written M (Seq_Cell (n mod 1024)))"
proof
  note b = window_okD [OF w]
  have small: "n + 1 < 2 ^ 64" using b(3) b(4) [OF n] by linarith
  assume "word_of_nat (n + 1) \<in> m_value ` snd ` set (written M (Seq_Cell (n mod 1024)))"
  then obtain t m where here: "(t, m) \<in> set (written M (Seq_Cell (n mod 1024)))" and eq: "word_of_nat (n + 1) = m_value m"
    by force
  from mhistory_okD [OF mring_okD(1) [OF ring mod_ring] here] w mod_ring [of n] show False
  proof (cases rule: mseq_message_cases)
    case initial
    with eq small word_of_nat_inj [of "n mod 1024" "n + 1"] have "n mod 1024 = n + 1" by (force simp del: of_nat_add)
    then show False by (metis add_1_mod mod_mod_trivial)
  next
    case (pushed p)
    have "p + 1 = n + 1" by (rule word_of_nat_inj [OF _ pushed(5) small]) (simp only: eq pushed(4))
    with pushed(2) n show False by (simp only: add_right_cancel simp_thms)
  next
    case (popped p)
    have "p + 1024 = n + 1" by (rule word_of_nat_inj [OF _ popped(5) small]) (simp only: eq popped(4))
    then show False using popped(3) by (metis add_1024_mod add_1_mod)
  qed
qed

lemma mfresh_release:
  assumes ring: "mring_ok e d ws rs buf M" and w: "window_ok e d ws rs" and n: "n \<in> rs"
  shows "word_of_nat (n + 1024) \<notin> m_value ` snd ` set (written M (Seq_Cell (n mod 1024)))"
proof
  note b = window_okD [OF w]
  have small: "n + 1024 < 2 ^ 64" using b(1,3) b(5) [OF n] by linarith
  assume "word_of_nat (n + 1024) \<in> m_value ` snd ` set (written M (Seq_Cell (n mod 1024)))"
  then obtain t m where here: "(t, m) \<in> set (written M (Seq_Cell (n mod 1024)))" and eq: "word_of_nat (n + 1024) = m_value m"
    by force
  from mhistory_okD [OF mring_okD(1) [OF ring mod_ring] here] w mod_ring [of n] show False
  proof (cases rule: mseq_message_cases)
    case initial
    with eq small word_of_nat_inj [of "n mod 1024" "n + 1024"] have "n mod 1024 = n + 1024" by (force simp del: of_nat_add)
    with mod_ring [of n] show False by linarith
  next
    case (pushed p)
    have "p + 1 = n + 1024" by (rule word_of_nat_inj [OF _ pushed(5) small]) (simp only: eq pushed(4))
    then show False using pushed(3) by (metis add_1024_mod add_1_mod)
  next
    case (popped p)
    have "p + 1024 = n + 1024" by (rule word_of_nat_inj [OF _ popped(5) small]) (simp only: eq popped(4))
    with popped(2) n show False by (simp only: add_right_cancel simp_thms)
  qed
qed

section \<open>What the threads know\<close>

text \<open>
  A thread that is about to exchange a position has acquired the message with the sequence
  number it needs; the owner of a position knows all accesses to its cell.
\<close>

datatype knowing = Nothing | Saw nat u64 | Owns nat

fun push_knowing :: "mpush_pc \<Rightarrow> knowing" where
  "push_knowing (MPush_Cas pos) = Saw (slot pos) pos"
| "push_knowing (MPush_Write pos) = Owns (slot pos)"
| "push_knowing (MPush_Publish pos) = Owns (slot pos)"
| "push_knowing _ = Nothing"

fun pop_knowing :: "mpop_pc \<Rightarrow> knowing" where
  "pop_knowing (MPop_Cas pos) = Saw (slot pos) (pos + 1)"
| "pop_knowing (MPop_Read pos) = Owns (slot pos)"
| "pop_knowing (MPop_Release pos v) = Owns (slot pos)"
| "pop_knowing _ = Nothing"

definition saw_message :: "mpmc_loc memory \<Rightarrow> nat \<Rightarrow> u64 \<Rightarrow> mpmc_loc view \<Rightarrow> bool" where
  "saw_message M k v V \<longleftrightarrow> (\<exists>t m. map_of (written M (Seq_Cell k)) t = Some m \<and> m_value m = v \<and>
     t \<le> seen V (Seq_Cell k) \<and> view_le (m_view m) V)"

fun knowing_ok :: "mpmc_loc memory \<Rightarrow> mpmc_loc view \<Rightarrow> knowing \<Rightarrow> bool" where
  "knowing_ok M V Nothing \<longleftrightarrow> True"
| "knowing_ok M V (Saw k v) \<longleftrightarrow> saw_message M k v V"
| "knowing_ok M V (Owns k) \<longleftrightarrow> covers M (Seq_Cell k) V \<and> knows_cell M k V"

lemma saw_message_mono: "saw_message M k v V \<Longrightarrow> view_le V W \<Longrightarrow> saw_message M k v W"
  unfolding saw_message_def using view_le_trans by (metis order_trans view_le_def)

lemma knowing_ok_mono: "knowing_ok M V K \<Longrightarrow> view_le V W \<Longrightarrow> knowing_ok M W K"
  by (cases K) (auto intro: saw_message_mono covers_mono knows_cell_mono)

text \<open>Messages stay, so what has been seen stays seen; an owner is only disturbed at its own cell.\<close>

lemma knowing_ok_store:
  assumes "knowing_ok M W K" "store_at order l v t V M = Some (V', M')"
    and "\<And>k. K = Owns k \<Longrightarrow> l \<noteq> Seq_Cell k \<and> l \<noteq> Data_Cell k"
  shows "knowing_ok M' W K"
proof -
  note st = store_atD [OF assms(2)]
  have "map_of (written M' l') u = Some m" if "map_of (written M l') u = Some m" for l' u m
    using that st(2) by (cases "l' = l") (auto simp: st(7))
  then have "saw_message M' k x W" if "saw_message M k x W" for k x
    using that unfolding saw_message_def by blast
  with assms(1,3) show ?thesis
    by (cases K) (auto simp: covers_def knows_cell_def knows_loads_def st(5,7))
qed

lemma knowing_ok_own_store:
  assumes "knowing_ok M V (Owns k)" "store_at order l v t V M = Some (V', M')"
  shows "knowing_ok M' V' (Owns k)"
  using assms by (auto simp: knows_cell_def intro: covers_own_store knows_loads_own_store)

lemma knowing_ok_exchange:
  assumes "knowing_ok M W K" "exchange_at l x y t V M = Some (V', M')" "l = Enqueue_Pos \<or> l = Dequeue_Pos"
  shows "knowing_ok M' W K"
proof -
  obtain new where ex: "loads_done M' = loads_done M" "written M' = (written M)(l := new)"
    using exchange_atD [OF assms(2)] by metis
  with assms(1,3) show ?thesis
    by (cases K) (auto simp: saw_message_def covers_def knows_cell_def knows_loads_def)
qed

lemma knowing_ok_load:
  assumes "knowing_ok M W K" "written M' = written M" "loads_done M' = (loads_done M)(Data_Cell k := n)" "K \<noteq> Owns k"
  shows "knowing_ok M' W K"
  using assms by (cases K) (auto simp: saw_message_def covers_def knows_cell_def knows_loads_def)

end
