(* ===== verification/Mpmc_Orderings.thy ===== *)
theory Mpmc_Orderings
  imports Mpmc_Messages
begin

text \<open>
  \<open>push\<close> and \<open>pop\<close> of \<open>benchmarks/mpmc_queue.cpp\<close> with the memory orders the code asks for:
  relaxed loads and exchanges of \<open>enqueue_pos\<close> and \<open>dequeue_pos\<close>, acquire loads and release
  stores of the sequence numbers, plain accesses to \<open>data\<close>. A thread may look at a queue that
  is long gone. Every run is shown to be free of data races, and to reach what an interleaving
  run of \<open>Mpmc_Queue\<close> reaches in which a thread looks at the queue only when it gets its
  position.
\<close>

section \<open>The code\<close>

inductive ra_push_step ::
  "mpmc_loc memory \<times> mpmc_loc view \<times> mproducer \<Rightarrow> mpmc_loc memory \<times> mpmc_loc view \<times> mproducer \<Rightarrow> bool" where
  ra_push_enter: "pr_pc p = MPush_Enter \<Longrightarrow> pr_i p < pr_hi p \<Longrightarrow>
    load_at Relaxed Enqueue_Pos t V M = Some (pos, V') \<Longrightarrow>
    ra_push_step (M, V, p) (M, V', p\<lparr>pr_pc := MPush_Check pos\<rparr>)"
| ra_push_ready: "pr_pc p = MPush_Check pos \<Longrightarrow>
    load_at Acquire (Seq_Cell (slot pos)) t V M = Some (sq, V') \<Longrightarrow> seq_diff sq pos = 0 \<Longrightarrow>
    ra_push_step (M, V, p) (M, V', p\<lparr>pr_pc := MPush_Cas pos\<rparr>)"
| ra_push_full: "pr_pc p = MPush_Check pos \<Longrightarrow>
    load_at Acquire (Seq_Cell (slot pos)) t V M = Some (sq, V') \<Longrightarrow> seq_diff sq pos < 0 \<Longrightarrow>
    ra_push_step (M, V, p) (M, V', p\<lparr>pr_pc := MPush_Reload\<rparr>)"
| ra_push_behind: "pr_pc p = MPush_Check pos \<Longrightarrow>
    load_at Acquire (Seq_Cell (slot pos)) t V M = Some (sq, V') \<Longrightarrow> 0 < seq_diff sq pos \<Longrightarrow>
    ra_push_step (M, V, p) (M, V', p\<lparr>pr_pc := MPush_Reload\<rparr>)"
| ra_push_reload: "pr_pc p = MPush_Reload \<Longrightarrow>
    load_at Relaxed Enqueue_Pos t V M = Some (pos, V') \<Longrightarrow>
    ra_push_step (M, V, p) (M, V', p\<lparr>pr_pc := MPush_Check pos\<rparr>)"
| ra_push_reserve: "pr_pc p = MPush_Cas pos \<Longrightarrow>
    exchange_at Enqueue_Pos pos (pos + 1) t V M = Some (V', M') \<Longrightarrow>
    ra_push_step (M, V, p) (M', V', p\<lparr>pr_pc := MPush_Write pos\<rparr>)"
| ra_push_cas_fails: "pr_pc p = MPush_Cas pos \<Longrightarrow>
    load_at Relaxed Enqueue_Pos t V M = Some (now, V') \<Longrightarrow>
    ra_push_step (M, V, p) (M, V', p\<lparr>pr_pc := MPush_Check now\<rparr>)"
| ra_push_write: "pr_pc p = MPush_Write pos \<Longrightarrow>
    plain_store (Data_Cell (slot pos)) (pr_i p) t V M = Some (V', M') \<Longrightarrow>
    ra_push_step (M, V, p) (M', V', p\<lparr>pr_pc := MPush_Publish pos\<rparr>)"
| ra_push_publish: "pr_pc p = MPush_Publish pos \<Longrightarrow>
    store_at Release (Seq_Cell (slot pos)) (pos + 1) t V M = Some (V', M') \<Longrightarrow>
    ra_push_step (M, V, p) (M', V', p\<lparr>pr_pc := MPush_Enter, pr_i := pr_i p + 1\<rparr>)"

inductive ra_pop_step ::
  "(u64 \<Rightarrow> 'a) \<Rightarrow> mpmc_loc memory \<times> mpmc_loc view \<times> 'a::cancel_comm_monoid_add mconsumer \<Rightarrow>
   mpmc_loc memory \<times> mpmc_loc view \<times> 'a mconsumer \<Rightarrow> bool"
  for weight where
  ra_pop_enter: "cn_pc c = MPop_Enter \<Longrightarrow> cn_i c < cn_count c \<Longrightarrow>
    load_at Relaxed Dequeue_Pos t V M = Some (pos, V') \<Longrightarrow>
    ra_pop_step weight (M, V, c) (M, V', c\<lparr>cn_pc := MPop_Check pos\<rparr>)"
| ra_pop_ready: "cn_pc c = MPop_Check pos \<Longrightarrow>
    load_at Acquire (Seq_Cell (slot pos)) t V M = Some (sq, V') \<Longrightarrow> seq_diff sq (pos + 1) = 0 \<Longrightarrow>
    ra_pop_step weight (M, V, c) (M, V', c\<lparr>cn_pc := MPop_Cas pos\<rparr>)"
| ra_pop_empty: "cn_pc c = MPop_Check pos \<Longrightarrow>
    load_at Acquire (Seq_Cell (slot pos)) t V M = Some (sq, V') \<Longrightarrow> seq_diff sq (pos + 1) < 0 \<Longrightarrow>
    ra_pop_step weight (M, V, c) (M, V', c\<lparr>cn_pc := MPop_Reload\<rparr>)"
| ra_pop_behind: "cn_pc c = MPop_Check pos \<Longrightarrow>
    load_at Acquire (Seq_Cell (slot pos)) t V M = Some (sq, V') \<Longrightarrow> 0 < seq_diff sq (pos + 1) \<Longrightarrow>
    ra_pop_step weight (M, V, c) (M, V', c\<lparr>cn_pc := MPop_Reload\<rparr>)"
| ra_pop_reload: "cn_pc c = MPop_Reload \<Longrightarrow>
    load_at Relaxed Dequeue_Pos t V M = Some (pos, V') \<Longrightarrow>
    ra_pop_step weight (M, V, c) (M, V', c\<lparr>cn_pc := MPop_Check pos\<rparr>)"
| ra_pop_reserve: "cn_pc c = MPop_Cas pos \<Longrightarrow>
    exchange_at Dequeue_Pos pos (pos + 1) t V M = Some (V', M') \<Longrightarrow>
    ra_pop_step weight (M, V, c) (M', V', c\<lparr>cn_pc := MPop_Read pos\<rparr>)"
| ra_pop_cas_fails: "cn_pc c = MPop_Cas pos \<Longrightarrow>
    load_at Relaxed Dequeue_Pos t V M = Some (now, V') \<Longrightarrow>
    ra_pop_step weight (M, V, c) (M, V', c\<lparr>cn_pc := MPop_Check now\<rparr>)"
| ra_pop_read: "cn_pc c = MPop_Read pos \<Longrightarrow>
    plain_load (Data_Cell (slot pos)) t V M = Some (v, V', M') \<Longrightarrow>
    ra_pop_step weight (M, V, c) (M', V', c\<lparr>cn_pc := MPop_Release pos v\<rparr>)"
| ra_pop_release: "cn_pc c = MPop_Release pos v \<Longrightarrow>
    store_at Release (Seq_Cell (slot pos)) (pos + kCapacity) t V M = Some (V', M') \<Longrightarrow>
    ra_pop_step weight (M, V, c) (M', V',
      c\<lparr>cn_pc := MPop_Enter, cn_i := cn_i c + 1, cn_sum := cn_sum c + weight v\<rparr>)"

record 'a ra_mpmc =
  rm_mem :: "mpmc_loc memory"
  rm_producers :: "(mpmc_loc view \<times> mproducer) list"
  rm_consumers :: "(mpmc_loc view \<times> 'a mconsumer) list"

inductive ra_mpmc_step :: "(u64 \<Rightarrow> 'a) \<Rightarrow> 'a::cancel_comm_monoid_add ra_mpmc \<Rightarrow> 'a ra_mpmc \<Rightarrow> bool"
  for weight where
  ra_producer_moves: "k < length (rm_producers s) \<Longrightarrow>
    ra_push_step (rm_mem s, rm_producers s ! k) (M', p') \<Longrightarrow>
    ra_mpmc_step weight s (s\<lparr>rm_mem := M', rm_producers := (rm_producers s)[k := p']\<rparr>)"
| ra_consumer_moves: "k < length (rm_consumers s) \<Longrightarrow>
    ra_pop_step weight (rm_mem s, rm_consumers s ! k) (M', c') \<Longrightarrow>
    ra_mpmc_step weight s (s\<lparr>rm_mem := M', rm_consumers := (rm_consumers s)[k := c']\<rparr>)"

abbreviation ra_mpmc_steps :: "(u64 \<Rightarrow> 'a) \<Rightarrow> 'a::cancel_comm_monoid_add ra_mpmc \<Rightarrow> 'a ra_mpmc \<Rightarrow> bool" where
  "ra_mpmc_steps weight \<equiv> (ra_mpmc_step weight)\<^sup>*\<^sup>*"

fun mpmc_initial_value :: "cell list \<Rightarrow> mpmc_loc \<Rightarrow> u64" where
  "mpmc_initial_value buf (Seq_Cell k) = sequence (buf ! k)"
| "mpmc_initial_value buf (Data_Cell k) = cdata (buf ! k)"
| "mpmc_initial_value buf Enqueue_Pos = 0"
| "mpmc_initial_value buf Dequeue_Pos = 0"

definition ra_mpmc_start ::
  "cell list \<Rightarrow> (u64 \<times> u64) list \<Rightarrow> u64 list \<Rightarrow> 'a::cancel_comm_monoid_add ra_mpmc" where
  "ra_mpmc_start buf ranges counts =
     \<lparr>rm_mem = initial_memory (mpmc_initial_value (queue_init buf)),
      rm_producers = map (\<lambda>r. (initial_view, mproducer_start r)) ranges,
      rm_consumers = map (\<lambda>n. (initial_view, mconsumer_start n)) counts\<rparr>"

definition ra_mpmc_joined :: "'a ra_mpmc \<Rightarrow> bool" where
  "ra_mpmc_joined s \<longleftrightarrow>
     (\<forall>(_, p)\<in>set (rm_producers s). pr_pc p = MPush_Enter \<and> \<not> pr_i p < pr_hi p) \<and>
     (\<forall>(_, c)\<in>set (rm_consumers s). cn_pc c = MPop_Enter \<and> \<not> cn_i c < cn_count c)"

definition ra_mpmc_exit :: "u64 ra_mpmc \<Rightarrow> int" where
  "ra_mpmc_exit s =
     (let checksum = fold (\<lambda>(_, c) sum. sum + cn_sum c) (rm_consumers s) 0;
          expected = mpmc_kTotalItems * (mpmc_kTotalItems - 1) div 2
      in if checksum = expected then 0 else 1)"

section \<open>The simulation\<close>

text \<open>
  In the interleaving run a thread that has no position yet is still at the beginning of its
  operation: it looks at the queue only when it gets one.
\<close>

definition at_entry :: "mproducer \<Rightarrow> mproducer" where
  "at_entry p = (if push_claim (pr_pc p) = None then p\<lparr>pr_pc := MPush_Enter\<rparr> else p)"

definition cat_entry :: "'a mconsumer \<Rightarrow> 'a mconsumer" where
  "cat_entry c = (if pop_claim (cn_pc c) = None then c\<lparr>cn_pc := MPop_Enter\<rparr> else c)"

definition same_mpmc :: "'a ra_mpmc \<Rightarrow> 'a mpmc \<Rightarrow> bool" where
  "same_mpmc s a \<longleftrightarrow>
     producers a = map (\<lambda>(V, p). at_entry p) (rm_producers s) \<and>
     consumers a = map (\<lambda>(V, c). cat_entry c) (rm_consumers s) \<and>
     (\<forall>k<1024. holds (rm_mem s) (Seq_Cell k) (sequence (mbuffer (mq a) ! k)) \<and>
        holds (rm_mem s) (Data_Cell k) (cdata (mbuffer (mq a) ! k))) \<and>
     holds (rm_mem s) Enqueue_Pos (enqueue_pos (mq a)) \<and> holds (rm_mem s) Dequeue_Pos (dequeue_pos (mq a))"

abbreviation reserved :: "'a mpmc \<Rightarrow> nat" where "reserved a \<equiv> unat (enqueue_pos (mq a))"
abbreviation taken :: "'a mpmc \<Rightarrow> nat" where "taken a \<equiv> unat (dequeue_pos (mq a))"
abbreviation writers :: "'a mpmc \<Rightarrow> nat \<rightharpoonup> nat \<times> bool" where
  "writers a \<equiv> claims (\<lambda>p. push_claim (pr_pc p)) (producers a)"
abbreviation readers :: "'a mpmc \<Rightarrow> nat \<rightharpoonup> nat \<times> u64 option" where
  "readers a \<equiv> claims (\<lambda>c. pop_claim (cn_pc c)) (consumers a)"

definition ring_of :: "'a mpmc \<Rightarrow> mpmc_loc memory \<Rightarrow> bool" where
  "ring_of a M \<longleftrightarrow>
     mring_ok (reserved a) (taken a) (claimed (writers a)) (claimed (readers a)) (mbuffer (mq a)) M \<and>
     counter_ok M Enqueue_Pos (reserved a) \<and> counter_ok M Dequeue_Pos (taken a)"

definition producer_knows :: "mpmc_loc memory \<Rightarrow> mpmc_loc view \<times> mproducer \<Rightarrow> bool" where
  "producer_knows M = (\<lambda>(V, p). knowing_ok M V (push_knowing (pr_pc p)) \<and> (pr_pc p \<noteq> MPush_Enter \<longrightarrow> pr_i p < pr_hi p))"

definition consumer_knows :: "mpmc_loc memory \<Rightarrow> mpmc_loc view \<times> 'a mconsumer \<Rightarrow> bool" where
  "consumer_knows M = (\<lambda>(V, c). knowing_ok M V (pop_knowing (cn_pc c)) \<and> (cn_pc c \<noteq> MPop_Enter \<longrightarrow> cn_i c < cn_count c))"

definition mra_inv ::
  "(u64 \<Rightarrow> 'a::cancel_comm_monoid_add) \<Rightarrow> (u64 \<times> u64) list \<Rightarrow> u64 list \<Rightarrow> 'a ra_mpmc \<Rightarrow> 'a mpmc \<Rightarrow> bool" where
  "mra_inv weight ranges counts s a \<longleftrightarrow> mpmc_inv weight ranges counts a \<and>
     producers a = map (at_entry \<circ> snd) (rm_producers s) \<and> consumers a = map (cat_entry \<circ> snd) (rm_consumers s) \<and>
     ring_of a (rm_mem s) \<and>
     (\<forall>k<length (rm_producers s). producer_knows (rm_mem s) (rm_producers s ! k)) \<and>
     (\<forall>k<length (rm_consumers s). consumer_knows (rm_mem s) (rm_consumers s ! k))"

lemma mra_invD:
  assumes "mra_inv weight ranges counts s a"
  shows "mpmc_inv weight ranges counts a" "producers a = map (at_entry \<circ> snd) (rm_producers s)"
    "consumers a = map (cat_entry \<circ> snd) (rm_consumers s)" "ring_of a (rm_mem s)"
    "k < length (rm_producers s) \<Longrightarrow> producer_knows (rm_mem s) (rm_producers s ! k)"
    "k < length (rm_consumers s) \<Longrightarrow> consumer_knows (rm_mem s) (rm_consumers s ! k)"
  using assms by (simp_all add: mra_inv_def)

lemma claim_at_entry [simp]: "push_claim MPush_Enter = None" "pop_claim MPop_Enter = None"
  by (simp_all add: push_claim_def pop_claim_def)

lemma at_entry_simps [simp]:
  "push_claim (pr_pc (at_entry p)) = push_claim (pr_pc p)" "pr_i (at_entry p) = pr_i p" "pr_hi (at_entry p) = pr_hi p"
  "push_claim (pr_pc p) \<noteq> None \<Longrightarrow> at_entry p = p"
  by (auto simp: at_entry_def push_claim_def)

lemma cat_entry_simps [simp]:
  "pop_claim (cn_pc (cat_entry c)) = pop_claim (cn_pc c)" "cn_i (cat_entry c) = cn_i c" "cn_count (cat_entry c) = cn_count c"
  "pop_claim (cn_pc c) \<noteq> None \<Longrightarrow> cat_entry c = c"
  by (auto simp: cat_entry_def pop_claim_def)

lemma at_entry_start: "pr_pc p = MPush_Enter \<Longrightarrow> at_entry p = p" "cn_pc c = MPop_Enter \<Longrightarrow> cat_entry c = c"
  by (cases p, simp add: at_entry_def) (cases c, simp add: cat_entry_def)

lemma writers_nth: "mra_inv weight ranges counts s a \<Longrightarrow> k < length (rm_producers s) \<Longrightarrow>
    writers a k = push_claim (pr_pc (snd (rm_producers s ! k)))"
  by (simp add: claims_nth mra_invD(2))

lemma readers_nth: "mra_inv weight ranges counts s a \<Longrightarrow> k < length (rm_consumers s) \<Longrightarrow>
    readers a k = pop_claim (cn_pc (snd (rm_consumers s ! k)))"
  by (simp add: claims_nth mra_invD(3))

lemma push_owns: "push_knowing pc = Owns k \<longleftrightarrow> (\<exists>n b. push_claim pc = Some (n, b) \<and> k = n mod 1024)"
  by (cases pc) (auto simp: push_claim_def slot_unat)

lemma pop_owns: "pop_knowing pc = Owns k \<longleftrightarrow> (\<exists>n b. pop_claim pc = Some (n, b) \<and> k = n mod 1024)"
  by (cases pc) (auto simp: pop_claim_def slot_unat)

text \<open>What the invariant of the interleaving machine says of the window.\<close>

lemma mpmc_inv_window:
  assumes "mpmc_inv weight ranges counts a"
  shows "window_ok (reserved a) (taken a) (claimed (writers a)) (claimed (readers a))"
    and "length (mbuffer (mq a)) = 1024" "exclusive (writers a)" "exclusive (readers a)"
    and "unat (enqueue_pos (mq a) + 1) = Suc (reserved a)"
    and "reserved a < 1024 \<or> reserved a < taken a + 1024 \<and> 1024 \<le> reserved a \<and> reserved a - 1024 \<notin> claimed (readers a) \<Longrightarrow>
      sequence (mbuffer (mq a) ! (reserved a mod 1024)) = enqueue_pos (mq a)"
    and "taken a < reserved a \<Longrightarrow> taken a \<notin> claimed (writers a) \<Longrightarrow>
      sequence (mbuffer (mq a) ! (taken a mod 1024)) = dequeue_pos (mq a) + 1"
proof -
  from assms obtain log where ok: "queue_ok a log" and sums: "sums_ok weight a log" and bound: "work (producers a) < 2 ^ 63"
    by (auto simp: mpmc_inv_def work_ranges)
  have e: "reserved a = length log" by (rule queue_okD(2) [OF ok])
  note slots = slots_okD [OF queue_okD(1) [OF ok]]
  have small: "reserved a < 2 ^ 63" using log_le_work [OF ok sums] bound e by simp
  then show "unat (enqueue_pos (mq a) + 1) = Suc (reserved a)" by (subst unat_add_no_wrap) simp_all
  show "window_ok (reserved a) (taken a) (claimed (writers a)) (claimed (readers a))"
    using small slots(2,3,6,7,8,9) by (auto simp: window_ok_def e)
  show "length (mbuffer (mq a)) = 1024" "exclusive (writers a)" "exclusive (readers a)" by (fact slots(1,4,5))+
  let ?e = "reserved a" and ?d = "taken a"
  have word: "word_of_nat ?e = enqueue_pos (mq a)" "word_of_nat ?d = dequeue_pos (mq a)" by simp_all
  show "sequence (mbuffer (mq a) ! (?e mod 1024)) = enqueue_pos (mq a)"
    if "?e < 1024 \<or> ?e < ?d + 1024 \<and> 1024 \<le> ?e \<and> ?e - 1024 \<notin> claimed (readers a)"
    using that
  proof
    assume "?e < 1024"
    with slots(11) [of ?e] e word(1) show ?thesis by simp
  next
    assume free: "?e < ?d + 1024 \<and> 1024 \<le> ?e \<and> ?e - 1024 \<notin> claimed (readers a)"
    let ?n = "?e - 1024"
    have w: "in_window (length log) ?n" using free by (auto simp: in_window_def e)
    have "?n \<notin> claimed (writers a)" using slots(6) [of ?n] free by auto
    moreover have "?n < ?d" using free by linarith
    ultimately have "next_sequence (claimed (writers a)) (claimed (readers a)) ?d ?n = ?e"
      using free by (simp add: next_sequence_def)
    moreover have "?n mod 1024 = ?e mod 1024" using free by (simp add: mod_if)
    ultimately show ?thesis using slots(10) [OF w] word(1) by simp
  qed
  show "sequence (mbuffer (mq a) ! (?d mod 1024)) = dequeue_pos (mq a) + 1"
    if "?d < ?e" "?d \<notin> claimed (writers a)"
  proof -
    have w: "in_window (length log) ?d" using that slots(3) by (auto simp: in_window_def e)
    have "next_sequence (claimed (writers a)) (claimed (readers a)) ?d ?d = Suc ?d" using that(2) by (simp add: next_sequence_def)
    with slots(10) [OF w] word(2) show ?thesis by (simp add: add.commute)
  qed
qed

lemma cells_apart:
  assumes "window_ok e d ws rs" "n \<in> ws \<union> rs" "n' \<in> ws \<union> rs" "n \<noteq> n'"
  shows "n mod 1024 \<noteq> n' mod 1024"
proof -
  have "e \<le> m + 1024 \<and> m < e" if "m \<in> ws \<union> rs" for m
    using that window_okD(4,5) [OF assms(1), of m] window_okD(1,2) [OF assms(1)] by auto
  from this [OF assms(2)] this [OF assms(3)] assms(4) mod_eq_near [of n 1024 n'] show ?thesis by linarith
qed

text \<open>The other threads do not own the cell of a thread that owns one.\<close>

lemma owner_alone:
  assumes inv: "mra_inv weight ranges counts s a" and n: "writers a k = Some (n, b)"
  shows "j < length (rm_producers s) \<Longrightarrow> j \<noteq> k \<Longrightarrow> push_knowing (pr_pc (snd (rm_producers s ! j))) \<noteq> Owns (n mod 1024)"
    and "j < length (rm_consumers s) \<Longrightarrow> pop_knowing (cn_pc (snd (rm_consumers s ! j))) \<noteq> Owns (n mod 1024)"
proof -
  note w = mpmc_inv_window [OF mra_invD(1) [OF inv]]
  have mine: "n \<in> claimed (writers a)" using n by (rule claimedI)
  show "push_knowing (pr_pc (snd (rm_producers s ! j))) \<noteq> Owns (n mod 1024)" if j: "j < length (rm_producers s)" "j \<noteq> k"
  proof
    assume "push_knowing (pr_pc (snd (rm_producers s ! j))) = Owns (n mod 1024)"
    then obtain n' b' where n': "writers a j = Some (n', b')" "n mod 1024 = n' mod 1024"
      using writers_nth [OF inv j(1)] by (auto simp: push_owns)
    then have "n \<noteq> n'" using exclusiveD [OF w(3) n, of j b'] j(2) by auto
    with cells_apart [OF w(1), of n n'] mine claimedI [of "writers a", OF n'(1)] n'(2) show False by blast
  qed
  show "pop_knowing (cn_pc (snd (rm_consumers s ! j))) \<noteq> Owns (n mod 1024)" if j: "j < length (rm_consumers s)"
  proof
    assume "pop_knowing (cn_pc (snd (rm_consumers s ! j))) = Owns (n mod 1024)"
    then obtain n' b' where n': "readers a j = Some (n', b')" "n mod 1024 = n' mod 1024"
      using readers_nth [OF inv j(1)] by (auto simp: pop_owns)
    have theirs: "n' \<in> claimed (readers a)" using n'(1) by (rule claimedI)
    then have "n \<noteq> n'" using window_okD(4,5) [OF w(1)] mine by (metis not_le)
    with cells_apart [OF w(1), of n n'] mine theirs n'(2) show False by blast
  qed
qed

lemma reader_alone:
  assumes inv: "mra_inv weight ranges counts s a" and n: "readers a k = Some (n, b)"
  shows "j < length (rm_consumers s) \<Longrightarrow> j \<noteq> k \<Longrightarrow> pop_knowing (cn_pc (snd (rm_consumers s ! j))) \<noteq> Owns (n mod 1024)"
    and "j < length (rm_producers s) \<Longrightarrow> push_knowing (pr_pc (snd (rm_producers s ! j))) \<noteq> Owns (n mod 1024)"
proof -
  note w = mpmc_inv_window [OF mra_invD(1) [OF inv]]
  have mine: "n \<in> claimed (readers a)" using n by (rule claimedI)
  show "pop_knowing (cn_pc (snd (rm_consumers s ! j))) \<noteq> Owns (n mod 1024)" if j: "j < length (rm_consumers s)" "j \<noteq> k"
  proof
    assume "pop_knowing (cn_pc (snd (rm_consumers s ! j))) = Owns (n mod 1024)"
    then obtain n' b' where n': "readers a j = Some (n', b')" "n mod 1024 = n' mod 1024"
      using readers_nth [OF inv j(1)] by (auto simp: pop_owns)
    then have "n \<noteq> n'" using exclusiveD [OF w(4) n, of j b'] j(2) by auto
    with cells_apart [OF w(1), of n n'] mine claimedI [of "readers a", OF n'(1)] n'(2) show False by blast
  qed
  show "push_knowing (pr_pc (snd (rm_producers s ! j))) \<noteq> Owns (n mod 1024)" if j: "j < length (rm_producers s)"
  proof
    assume "push_knowing (pr_pc (snd (rm_producers s ! j))) = Owns (n mod 1024)"
    then obtain n' b' where n': "writers a j = Some (n', b')" "n mod 1024 = n' mod 1024"
      using writers_nth [OF inv j(1)] by (auto simp: push_owns)
    have theirs: "n' \<in> claimed (writers a)" using n'(1) by (rule claimedI)
    then have "n \<noteq> n'" using window_okD(4,5) [OF w(1)] mine by (metis not_le)
    with cells_apart [OF w(1), of n n'] mine theirs n'(2) show False by blast
  qed
qed

text \<open>One thread moves; the interleaving run follows with any number of steps.\<close>

lemma mra_inv_producer:
  assumes inv: "mra_inv weight ranges counts s a" and k: "k < length (rm_producers s)"
    and steps: "mpmc_steps weight a a'"
    and a': "producers a' = (producers a)[k := at_entry p']" "consumers a' = consumers a"
    and ring: "ring_of a' M'" and mine: "producer_knows M' (V', p')"
    and others: "\<And>j. j < length (rm_producers s) \<Longrightarrow> j \<noteq> k \<Longrightarrow> producer_knows M' (rm_producers s ! j)"
      "\<And>j. j < length (rm_consumers s) \<Longrightarrow> consumer_knows M' (rm_consumers s ! j)"
  shows "mra_inv weight ranges counts (s\<lparr>rm_mem := M', rm_producers := (rm_producers s)[k := (V', p')]\<rparr>) a'"
proof -
  have "mpmc_inv weight ranges counts a'" by (rule mpmc_inv_steps [OF steps mra_invD(1) [OF inv]])
  moreover have "producers a' = map (at_entry \<circ> snd) ((rm_producers s)[k := (V', p')])"
    by (simp add: a' mra_invD(2) [OF inv] map_update)
  ultimately show ?thesis
    using ring mine others mra_invD(3) [OF inv] a'(2) k by (auto simp: mra_inv_def nth_list_update)
qed

lemma mra_inv_consumer:
  assumes inv: "mra_inv weight ranges counts s a" and k: "k < length (rm_consumers s)"
    and steps: "mpmc_steps weight a a'"
    and a': "consumers a' = (consumers a)[k := cat_entry c']" "producers a' = producers a"
    and ring: "ring_of a' M'" and mine: "consumer_knows M' (V', c')"
    and others: "\<And>j. j < length (rm_consumers s) \<Longrightarrow> j \<noteq> k \<Longrightarrow> consumer_knows M' (rm_consumers s ! j)"
      "\<And>j. j < length (rm_producers s) \<Longrightarrow> producer_knows M' (rm_producers s ! j)"
  shows "mra_inv weight ranges counts (s\<lparr>rm_mem := M', rm_consumers := (rm_consumers s)[k := (V', c')]\<rparr>) a'"
proof -
  have "mpmc_inv weight ranges counts a'" by (rule mpmc_inv_steps [OF steps mra_invD(1) [OF inv]])
  moreover have "consumers a' = map (cat_entry \<circ> snd) ((rm_consumers s)[k := (V', c')])"
    by (simp add: a' mra_invD(3) [OF inv] map_update)
  ultimately show ?thesis
    using ring mine others mra_invD(2) [OF inv] a'(2) k by (auto simp: mra_inv_def nth_list_update)
qed

lemma producer_knows_any: "producer_knows M vp \<Longrightarrow> (\<And>V K. knowing_ok M V K \<Longrightarrow> K = push_knowing (pr_pc (snd vp)) \<Longrightarrow> knowing_ok M' V K) \<Longrightarrow> producer_knows M' vp"
  by (cases vp) (auto simp: producer_knows_def)

lemma consumer_knows_any: "consumer_knows M vc \<Longrightarrow> (\<And>V K. knowing_ok M V K \<Longrightarrow> K = pop_knowing (cn_pc (snd vc)) \<Longrightarrow> knowing_ok M' V K) \<Longrightarrow> consumer_knows M' vc"
  by (cases vc) (auto simp: consumer_knows_def)

text \<open>A thread that only looks.\<close>

lemma mra_inv_producer_looks:
  assumes inv: "mra_inv weight ranges counts s a" and k: "k < length (rm_producers s)"
    and p: "rm_producers s ! k = (V, p)" "push_claim (pr_pc p) = None" "push_claim pc' = None"
    and less: "pc' \<noteq> MPush_Enter \<Longrightarrow> pr_i p < pr_hi p" and knows: "knowing_ok (rm_mem s) V' (push_knowing pc')"
  shows "mra_inv weight ranges counts (s\<lparr>rm_mem := rm_mem s, rm_producers := (rm_producers s)[k := (V', p\<lparr>pr_pc := pc'\<rparr>)]\<rparr>) a"
proof (rule mra_inv_producer [OF inv k rtranclp.rtrancl_refl])
  have "producers a ! k = at_entry p" using k p(1) by (simp add: mra_invD(2) [OF inv])
  moreover have "at_entry (p\<lparr>pr_pc := pc'\<rparr>) = at_entry p" by (simp add: at_entry_def p(2,3))
  ultimately show "producers a = (producers a)[k := at_entry (p\<lparr>pr_pc := pc'\<rparr>)]"
    using k by (metis list_update_id)
  show "producer_knows (rm_mem s) (V', p\<lparr>pr_pc := pc'\<rparr>)" using less knows by (simp add: producer_knows_def)
qed (use mra_invD [OF inv] in auto)

lemma mra_inv_consumer_looks:
  assumes inv: "mra_inv weight ranges counts s a" and k: "k < length (rm_consumers s)"
    and c: "rm_consumers s ! k = (V, c)" "pop_claim (cn_pc c) = None" "pop_claim pc' = None"
    and less: "pc' \<noteq> MPop_Enter \<Longrightarrow> cn_i c < cn_count c" and knows: "knowing_ok (rm_mem s) V' (pop_knowing pc')"
  shows "mra_inv weight ranges counts (s\<lparr>rm_mem := rm_mem s, rm_consumers := (rm_consumers s)[k := (V', c\<lparr>cn_pc := pc'\<rparr>)]\<rparr>) a"
proof (rule mra_inv_consumer [OF inv k rtranclp.rtrancl_refl])
  have "consumers a ! k = cat_entry c" using k c(1) by (simp add: mra_invD(3) [OF inv])
  moreover have "cat_entry (c\<lparr>cn_pc := pc'\<rparr>) = cat_entry c" by (simp add: cat_entry_def c(2,3))
  ultimately show "consumers a = (consumers a)[k := cat_entry (c\<lparr>cn_pc := pc'\<rparr>)]"
    using k by (metis list_update_id)
  show "consumer_knows (rm_mem s) (V', c\<lparr>cn_pc := pc'\<rparr>)" using less knows by (simp add: consumer_knows_def)
qed (use mra_invD [OF inv] in auto)

text \<open>An acquire load of a sequence number remembers the message.\<close>

lemma acquired:
  assumes "load_at Acquire (Seq_Cell k) t V M = Some (sq, V')"
  shows "saw_message M k sq V'"
proof -
  obtain msg where "map_of (written M (Seq_Cell k)) t = Some msg" "sq = m_value msg" "t \<le> seen V' (Seq_Cell k)" "view_le (m_view msg) V'"
    using load_atD [OF assms] by metis
  then show ?thesis unfolding saw_message_def by blast
qed

text \<open>What a remembered message says when its value is the newest one.\<close>

lemma saw_newest:
  assumes ring: "mring_ok e d ws rs buf M" and k: "k < 1024" and saw: "saw_message M k v V"
  obtains m where "mseq_message e d ws rs M k m" "m_value m = v" "view_le (m_view m) V"
    "sequence (buf ! k) = v \<Longrightarrow> covers M (Seq_Cell k) V"
proof -
  obtain t m where m: "map_of (written M (Seq_Cell k)) t = Some m" "m_value m = v" "t \<le> seen V (Seq_Cell k)" "view_le (m_view m) V"
    using saw by (auto simp: saw_message_def)
  note old = mring_okD [OF ring k]
  have "covers M (Seq_Cell k) V" if newest: "sequence (buf ! k) = v"
  proof -
    obtain n new where new: "map_of (written M (Seq_Cell k)) n = Some new" "m_value new = v" "\<forall>(t', _)\<in>set (written M (Seq_Cell k)). t' \<le> n"
      using old(2) unfolding newest holds_def by blast
    have once: "distinct (map (m_value \<circ> snd) (written M (Seq_Cell k)))" using old(1) by (simp add: mhistory_ok_def)
    have "(t, m) = (n, new)"
      using m(2) new(2) by (intro inj_onD [OF conjunct2 [OF once [unfolded distinct_map]]])
        (simp_all add: map_of_SomeD m(1) new(1))
    with new(3) m(3) show ?thesis by (fastforce simp: covers_def intro: order_trans)
  qed
  then show thesis using that mhistory_okD [OF old(1) map_of_SomeD [OF m(1)]] m(2,4) by blast
qed

section \<open>Reserving a position\<close>

lemma ring_of_exchange:
  assumes ring: "ring_of a M" and ex: "exchange_at l v (v + 1) t V M = Some (V', M')" "l = Enqueue_Pos \<or> l = Dequeue_Pos"
    and grow: "reserved a \<le> e'" "taken a \<le> d'"
    and sets: "\<And>p. p < reserved a \<Longrightarrow> p \<notin> claimed (writers a) \<Longrightarrow> p \<notin> ws'" "\<And>p. p < taken a \<Longrightarrow> p \<notin> claimed (readers a) \<Longrightarrow> p \<notin> rs'"
  shows "mring_ok e' d' ws' rs' (mbuffer (mq a)) M'"
proof -
  obtain new where "loads_done M' = loads_done M" "raced M' = raced M" "written M' = (written M)(l := new)"
    using exchange_atD [OF ex(1)] by metis
  with ring ex(2) show ?thesis
    by (intro mring_ok_mono [OF _ grow sets]) (auto simp: ring_of_def)
qed

lemma ra_reserve_push:
  assumes inv: "mra_inv weight ranges counts s a" and k: "k < length (rm_producers s)"
    and p: "rm_producers s ! k = (V, p)" and pc: "pr_pc p = MPush_Cas pos"
    and ex: "exchange_at Enqueue_Pos pos (pos + 1) t V (rm_mem s) = Some (V', M')"
  shows "mpmc_steps weight a
    (a\<lparr>mq := (mq a)\<lparr>enqueue_pos := pos + 1\<rparr>, producers := (producers a)[k := p\<lparr>pr_pc := MPush_Write pos\<rparr>]\<rparr>)"
    and "mra_inv weight ranges counts
    (s\<lparr>rm_mem := M', rm_producers := (rm_producers s)[k := (V', p\<lparr>pr_pc := MPush_Write pos\<rparr>)]\<rparr>) 
    (a\<lparr>mq := (mq a)\<lparr>enqueue_pos := pos + 1\<rparr>, producers := (producers a)[k := p\<lparr>pr_pc := MPush_Write pos\<rparr>]\<rparr>)"
proof -
  let ?q = "mq a" and ?e = "reserved a" and ?p = "p\<lparr>pr_pc := MPush_Write pos\<rparr>"
  note w = mpmc_inv_window [OF mra_invD(1) [OF inv]] and ring = mra_invD(4) [OF inv, unfolded ring_of_def]
  from counter_exchange [OF ex] ring have pos: "pos = enqueue_pos ?q" and counter: "counter_ok M' Enqueue_Pos (Suc ?e)" by auto
  then have slot: "slot pos = ?e mod 1024" by (simp add: slot_unat)
  from mra_invD(5) [OF inv k] p pc have less: "pr_i p < pr_hi p" and saw: "saw_message (rm_mem s) (?e mod 1024) pos V"
    by (simp_all add: producer_knows_def slot)
  obtain m where m: "mseq_message ?e (taken a) (claimed (writers a)) (claimed (readers a)) (rm_mem s) (?e mod 1024) m"
    "m_value m = pos" "view_le (m_view m) V"
    and seen: "sequence (mbuffer ?q ! (?e mod 1024)) = pos \<Longrightarrow> covers (rm_mem s) (Seq_Cell (?e mod 1024)) V"
    using saw_newest [OF conjunct1 [OF ring] mod_ring saw] by metis
  note free = mfree_message [OF m(1) w(1)]
  have seq: "sequence (mbuffer ?q ! (?e mod 1024)) = pos" using w(6) [OF free(1)] m(2) pos by simp
  have none: "push_claim (pr_pc p) = None" by (simp add: pc push_claim_def)
  have nth: "producers a ! k = at_entry p" using k p by (simp add: mra_invD(2) [OF inv])
  have "push_step\<^sup>*\<^sup>* (?q, at_entry p) (?q\<lparr>enqueue_pos := pos + 1\<rparr>, ?p)"
    using push_reaches_write [of "at_entry p" ?q] less none seq slot unfolding pos by (simp add: at_entry_def)
  then have steps: "mpmc_steps weight a (a\<lparr>mq := ?q\<lparr>enqueue_pos := pos + 1\<rparr>, producers := (producers a)[k := ?p]\<rparr>)"
    using lift_push [of a k _ ?p weight] nth k by (simp add: mra_invD(2) [OF inv])
  show "mpmc_steps weight a
    (a\<lparr>mq := (mq a)\<lparr>enqueue_pos := pos + 1\<rparr>, producers := (producers a)[k := p\<lparr>pr_pc := MPush_Write pos\<rparr>]\<rparr>)" by (rule steps)
  show "mra_inv weight ranges counts
    (s\<lparr>rm_mem := M', rm_producers := (rm_producers s)[k := (V', p\<lparr>pr_pc := MPush_Write pos\<rparr>)]\<rparr>) 
    (a\<lparr>mq := (mq a)\<lparr>enqueue_pos := pos + 1\<rparr>, producers := (producers a)[k := p\<lparr>pr_pc := MPush_Write pos\<rparr>]\<rparr>)"
  proof (rule mra_inv_producer [OF inv k steps])
    let ?a = "a\<lparr>mq := ?q\<lparr>enqueue_pos := pos + 1\<rparr>, producers := (producers a)[k := ?p]\<rparr>"
    show "producers ?a = (producers a)[k := at_entry ?p]" by (simp add: push_claim_def)
    have e: "reserved ?a = Suc ?e" using w(5) pos by simp
    have "claims (\<lambda>p. push_claim (pr_pc p)) (producers a) k = None"
      using writers_nth [OF inv k] p none by simp
    then have ws: "claimed (writers ?a) = insert ?e (claimed (writers a))"
      using k by (simp add: claims_update mra_invD(2) [OF inv] push_claim_def claimed_claim pos)
    have "mring_ok (Suc ?e) (taken a) (insert ?e (claimed (writers a))) (claimed (readers a)) (mbuffer ?q) M'"
      by (rule ring_of_exchange [OF mra_invD(4) [OF inv] ex]) simp_all
    moreover have "counter_ok M' Dequeue_Pos (taken a)"
      using ring exchange_atD [OF ex] counter_ok_cong [of M' Dequeue_Pos "rm_mem s"] by (metis fun_upd_other mpmc_loc.distinct(11))
    ultimately show "ring_of ?a M'" using counter e ws by (simp add: ring_of_def)
    have "view_le V V'" using exchange_atD [OF ex] by metis
    moreover have "knowing_ok (rm_mem s) V (Owns (?e mod 1024))"
      using seen [OF seq] knows_cell_mono [OF free(2) m(3)] m(2) pos by simp
    ultimately have "knowing_ok M' V' (Owns (?e mod 1024))"
      by (intro knowing_ok_mono [OF knowing_ok_exchange [OF _ ex]]) simp_all
    then show "producer_knows M' (V', ?p)" using less by (simp add: producer_knows_def slot)
  qed (auto intro: producer_knows_any [OF mra_invD(5) [OF inv]] consumer_knows_any [OF mra_invD(6) [OF inv]] knowing_ok_exchange [OF _ ex])
qed

lemma pop_reaches_read:
  assumes "cn_i c < cn_count c" "pop_claim (cn_pc c) = None"
    and full: "sequence (mbuffer q ! slot (dequeue_pos q)) = dequeue_pos q + 1"
  shows "(pop_step weight)\<^sup>*\<^sup>* (q, c) (q\<lparr>dequeue_pos := dequeue_pos q + 1\<rparr>, c\<lparr>cn_pc := MPop_Read (dequeue_pos q)\<rparr>)"
proof -
  let ?d = "dequeue_pos q"
  note pop_reaches_check [OF assms(1,2), of weight]
  also have "pop_step weight (q, c\<lparr>cn_pc := MPop_Check ?d\<rparr>) (q, c\<lparr>cn_pc := MPop_Cas ?d\<rparr>)"
    using pop_ready [of "c\<lparr>cn_pc := MPop_Check ?d\<rparr>" ?d q] full by simp
  also have "pop_step weight (q, c\<lparr>cn_pc := MPop_Cas ?d\<rparr>) (q\<lparr>dequeue_pos := ?d + 1\<rparr>, c\<lparr>cn_pc := MPop_Read ?d\<rparr>)"
    using pop_reserve [of "c\<lparr>cn_pc := MPop_Cas ?d\<rparr>" ?d q] by simp
  finally show ?thesis .
qed

lemma ra_reserve_pop:
  assumes inv: "mra_inv weight ranges counts s a" and k: "k < length (rm_consumers s)"
    and c: "rm_consumers s ! k = (V, c)" and pc: "cn_pc c = MPop_Cas pos"
    and ex: "exchange_at Dequeue_Pos pos (pos + 1) t V (rm_mem s) = Some (V', M')"
  shows "mpmc_steps weight a
    (a\<lparr>mq := (mq a)\<lparr>dequeue_pos := pos + 1\<rparr>, consumers := (consumers a)[k := c\<lparr>cn_pc := MPop_Read pos\<rparr>]\<rparr>)"
    and "mra_inv weight ranges counts
    (s\<lparr>rm_mem := M', rm_consumers := (rm_consumers s)[k := (V', c\<lparr>cn_pc := MPop_Read pos\<rparr>)]\<rparr>) 
    (a\<lparr>mq := (mq a)\<lparr>dequeue_pos := pos + 1\<rparr>, consumers := (consumers a)[k := c\<lparr>cn_pc := MPop_Read pos\<rparr>]\<rparr>)"
proof -
  let ?q = "mq a" and ?d = "taken a" and ?c = "c\<lparr>cn_pc := MPop_Read pos\<rparr>"
  note w = mpmc_inv_window [OF mra_invD(1) [OF inv]] and ring = mra_invD(4) [OF inv, unfolded ring_of_def]
  from counter_exchange [OF ex] ring have pos: "pos = dequeue_pos ?q" and counter: "counter_ok M' Dequeue_Pos (Suc ?d)" by auto
  then have slot: "slot pos = ?d mod 1024" by (simp add: slot_unat)
  from mra_invD(6) [OF inv k] c pc have less: "cn_i c < cn_count c" and saw: "saw_message (rm_mem s) (?d mod 1024) (pos + 1) V"
    by (simp_all add: consumer_knows_def slot)
  obtain m where m: "mseq_message (reserved a) ?d (claimed (writers a)) (claimed (readers a)) (rm_mem s) (?d mod 1024) m"
    "m_value m = pos + 1" "view_le (m_view m) V"
    and seen: "sequence (mbuffer ?q ! (?d mod 1024)) = pos + 1 \<Longrightarrow> covers (rm_mem s) (Seq_Cell (?d mod 1024)) V"
    using saw_newest [OF conjunct1 [OF ring] mod_ring saw] by metis
  have v: "m_value m = word_of_nat ?d + 1" using m(2) pos by simp
  note full = mfull_message [OF m(1) w(1) v]
  have seq: "sequence (mbuffer ?q ! (?d mod 1024)) = pos + 1" using w(7) [OF full(1,2)] pos by simp
  have none: "pop_claim (cn_pc c) = None" by (simp add: pc pop_claim_def)
  have nth: "consumers a ! k = cat_entry c" using k c by (simp add: mra_invD(3) [OF inv])
  have "(pop_step weight)\<^sup>*\<^sup>* (?q, cat_entry c) (?q\<lparr>dequeue_pos := pos + 1\<rparr>, ?c)"
    using pop_reaches_read [of "cat_entry c" ?q weight] less none seq slot unfolding pos by (simp add: cat_entry_def)
  then have steps: "mpmc_steps weight a (a\<lparr>mq := ?q\<lparr>dequeue_pos := pos + 1\<rparr>, consumers := (consumers a)[k := ?c]\<rparr>)"
    using lift_pop [of weight a k _ ?c] nth k by (simp add: mra_invD(3) [OF inv])
  show "mpmc_steps weight a
    (a\<lparr>mq := (mq a)\<lparr>dequeue_pos := pos + 1\<rparr>, consumers := (consumers a)[k := c\<lparr>cn_pc := MPop_Read pos\<rparr>]\<rparr>)" by (rule steps)
  show "mra_inv weight ranges counts
    (s\<lparr>rm_mem := M', rm_consumers := (rm_consumers s)[k := (V', c\<lparr>cn_pc := MPop_Read pos\<rparr>)]\<rparr>) 
    (a\<lparr>mq := (mq a)\<lparr>dequeue_pos := pos + 1\<rparr>, consumers := (consumers a)[k := c\<lparr>cn_pc := MPop_Read pos\<rparr>]\<rparr>)"
  proof (rule mra_inv_consumer [OF inv k steps])
    let ?a = "a\<lparr>mq := ?q\<lparr>dequeue_pos := pos + 1\<rparr>, consumers := (consumers a)[k := ?c]\<rparr>"
    show "consumers ?a = (consumers a)[k := cat_entry ?c]" by (simp add: pop_claim_def)
    have "?d < 2 ^ 64 - 1" using full(1) window_okD(3) [OF w(1)] by simp
    then have d: "taken ?a = Suc ?d" using pos by (simp add: unat_add_no_wrap)
    have "claims (\<lambda>c. pop_claim (cn_pc c)) (consumers a) k = None"
      using readers_nth [OF inv k] c none by simp
    then have rs: "claimed (readers ?a) = insert ?d (claimed (readers a))"
      using k by (simp add: claims_update mra_invD(3) [OF inv] pop_claim_def claimed_claim pos)
    have "mring_ok (reserved a) (Suc ?d) (claimed (writers a)) (insert ?d (claimed (readers a))) (mbuffer ?q) M'"
      by (rule ring_of_exchange [OF mra_invD(4) [OF inv] ex]) simp_all
    moreover have "counter_ok M' Enqueue_Pos (reserved a)"
      using ring exchange_atD [OF ex] counter_ok_cong [of M' Enqueue_Pos "rm_mem s"] by (metis fun_upd_other mpmc_loc.distinct(11))
    ultimately show "ring_of ?a M'" using counter d rs by (simp add: ring_of_def)
    have "view_le V V'" using exchange_atD [OF ex] by metis
    moreover have "knowing_ok (rm_mem s) V (Owns (?d mod 1024))"
      using seen [OF seq] knows_cell_mono [OF full(3) m(3)] by simp
    ultimately have "knowing_ok M' V' (Owns (?d mod 1024))"
      by (intro knowing_ok_mono [OF knowing_ok_exchange [OF _ ex]]) simp_all
    then show "consumer_knows M' (V', ?c)" using less by (simp add: consumer_knows_def slot)
  qed (auto intro: producer_knows_any [OF mra_invD(5) [OF inv]] consumer_knows_any [OF mra_invD(6) [OF inv]] knowing_ok_exchange [OF _ ex])
qed

section \<open>Working on a position\<close>

lemma ra_write:
  assumes inv: "mra_inv weight ranges counts s a" and k: "k < length (rm_producers s)"
    and p: "rm_producers s ! k = (V, p)" and pc: "pr_pc p = MPush_Write pos"
    and plain: "plain_store (Data_Cell (slot pos)) (pr_i p) t V (rm_mem s) = Some (V', M')"
  shows "mpmc_steps weight a
    (a\<lparr>mq := (mq a)\<lparr>mbuffer := put_data pos (pr_i p) (mbuffer (mq a))\<rparr>, producers := (producers a)[k := p\<lparr>pr_pc := MPush_Publish pos\<rparr>]\<rparr>)"
    and "mra_inv weight ranges counts
    (s\<lparr>rm_mem := M', rm_producers := (rm_producers s)[k := (V', p\<lparr>pr_pc := MPush_Publish pos\<rparr>)]\<rparr>) 
    (a\<lparr>mq := (mq a)\<lparr>mbuffer := put_data pos (pr_i p) (mbuffer (mq a))\<rparr>, producers := (producers a)[k := p\<lparr>pr_pc := MPush_Publish pos\<rparr>]\<rparr>)"
proof -
  let ?q = "mq a" and ?n = "unat pos" and ?p = "p\<lparr>pr_pc := MPush_Publish pos\<rparr>"
  note w = mpmc_inv_window [OF mra_invD(1) [OF inv]] and ring = mra_invD(4) [OF inv, unfolded ring_of_def]
  have pos: "word_of_nat ?n = pos" "slot pos = ?n mod 1024" by (simp_all add: slot_unat)
  from mra_invD(5) [OF inv k] p pc have less: "pr_i p < pr_hi p" and owns: "knowing_ok (rm_mem s) V (Owns (?n mod 1024))"
    by (simp_all add: producer_knows_def pos)
  have mine: "writers a k = Some (?n, False)" using writers_nth [OF inv k] p pc by (simp add: push_claim_def)
  note n = claimedI [of "writers a", OF mine]
  have known: "covers (rm_mem s) (Data_Cell (?n mod 1024)) V" "knows_loads (rm_mem s) (Data_Cell (?n mod 1024)) V"
    using owns by (simp_all add: knows_cell_def)
  note store = plain_storeD [OF plain [unfolded pos(2)] known]
  have nth: "producers a ! k = p" using k p pc by (simp add: mra_invD(2) [OF inv] push_claim_def)
  let ?a = "a\<lparr>mq := ?q\<lparr>mbuffer := put_data pos (pr_i p) (mbuffer ?q)\<rparr>, producers := (producers a)[k := ?p]\<rparr>"
  have steps: "mpmc_steps weight a ?a"
    using producer_moves [of k a] push_write [OF pc, of ?q] nth k by (simp add: mra_invD(2) [OF inv] r_into_rtranclp)
  show "mpmc_steps weight a
    (a\<lparr>mq := (mq a)\<lparr>mbuffer := put_data pos (pr_i p) (mbuffer (mq a))\<rparr>, producers := (producers a)[k := p\<lparr>pr_pc := MPush_Publish pos\<rparr>]\<rparr>)" by (rule steps)
  show "mra_inv weight ranges counts
    (s\<lparr>rm_mem := M', rm_producers := (rm_producers s)[k := (V', p\<lparr>pr_pc := MPush_Publish pos\<rparr>)]\<rparr>) 
    (a\<lparr>mq := (mq a)\<lparr>mbuffer := put_data pos (pr_i p) (mbuffer (mq a))\<rparr>, producers := (producers a)[k := p\<lparr>pr_pc := MPush_Publish pos\<rparr>]\<rparr>)"
  proof (rule mra_inv_producer [OF inv k steps])
    show "producers ?a = (producers a)[k := at_entry ?p]" by (simp add: push_claim_def)
    have "writers ?a = (writers a)(k \<mapsto> (?n, True))"
      using k by (simp add: claims_update mra_invD(2) [OF inv] push_claim_def)
    then have ws: "claimed (writers ?a) = claimed (writers a)" by (simp only: claimed_keep [of "writers a", OF mine])
    have "mring_ok (reserved a) (taken a) (claimed (writers a)) (claimed (readers a)) (put_data pos (pr_i p) (mbuffer ?q)) M'"
      using mring_ok_data [OF conjunct1 [OF ring] w(1) n w(2) store known(1)] by (simp only: pos(1))
    moreover have "counter_ok M' Enqueue_Pos (reserved a)" "counter_ok M' Dequeue_Pos (taken a)"
      using ring counter_ok_cong [of M' _ "rm_mem s"] store_atD(7) [OF store] by auto
    ultimately show "ring_of ?a M'" using ws by (simp add: ring_of_def)
    from knowing_ok_own_store [OF owns store] show "producer_knows M' (V', ?p)" using less by (simp add: producer_knows_def pos)
  next
    fix j assume "j < length (rm_producers s)" "j \<noteq> k"
    from owner_alone(1) [OF inv mine this] show "producer_knows M' (rm_producers s ! j)"
      by (intro producer_knows_any [OF mra_invD(5) [OF inv \<open>j < _\<close>]] knowing_ok_store [OF _ store]) auto
  next
    fix j assume j: "j < length (rm_consumers s)"
    from owner_alone(2) [OF inv mine this] show "consumer_knows M' (rm_consumers s ! j)"
      by (intro consumer_knows_any [OF mra_invD(6) [OF inv j]] knowing_ok_store [OF _ store]) auto
  qed simp
qed

lemma ra_publish:
  assumes inv: "mra_inv weight ranges counts s a" and k: "k < length (rm_producers s)"
    and p: "rm_producers s ! k = (V, p)" and pc: "pr_pc p = MPush_Publish pos"
    and store: "store_at Release (Seq_Cell (slot pos)) (pos + 1) t V (rm_mem s) = Some (V', M')"
  shows "mpmc_steps weight a
    (a\<lparr>mq := (mq a)\<lparr>mbuffer := put_sequence pos (pos + 1) (mbuffer (mq a))\<rparr>, producers := (producers a)[k := p\<lparr>pr_pc := MPush_Enter, pr_i := pr_i p + 1\<rparr>]\<rparr>)"
    and "mra_inv weight ranges counts
    (s\<lparr>rm_mem := M', rm_producers := (rm_producers s)[k := (V', p\<lparr>pr_pc := MPush_Enter, pr_i := pr_i p + 1\<rparr>)]\<rparr>) 
    (a\<lparr>mq := (mq a)\<lparr>mbuffer := put_sequence pos (pos + 1) (mbuffer (mq a))\<rparr>, producers := (producers a)[k := p\<lparr>pr_pc := MPush_Enter, pr_i := pr_i p + 1\<rparr>]\<rparr>)"
proof -
  let ?q = "mq a" and ?n = "unat pos" and ?p = "p\<lparr>pr_pc := MPush_Enter, pr_i := pr_i p + 1\<rparr>"
  note w = mpmc_inv_window [OF mra_invD(1) [OF inv]] and ring = mra_invD(4) [OF inv, unfolded ring_of_def]
  have pos: "word_of_nat ?n = pos" "slot pos = ?n mod 1024" "word_of_nat (?n + 1) = pos + 1" by (simp_all add: slot_unat)
  note store = store [unfolded pos(2)]
  from mra_invD(5) [OF inv k] p pc have owns: "knowing_ok (rm_mem s) V (Owns (?n mod 1024))"
    by (simp add: producer_knows_def pos)
  have mine: "writers a k = Some (?n, True)" using writers_nth [OF inv k] p pc by (simp add: push_claim_def)
  note n = claimedI [of "writers a", OF mine]
  have nth: "producers a ! k = p" using k p pc by (simp add: mra_invD(2) [OF inv] push_claim_def)
  let ?a = "a\<lparr>mq := ?q\<lparr>mbuffer := put_sequence pos (pos + 1) (mbuffer ?q)\<rparr>, producers := (producers a)[k := ?p]\<rparr>"
  have steps: "mpmc_steps weight a ?a"
    using producer_moves [of k a] push_publish [OF pc, of ?q] nth k by (simp add: mra_invD(2) [OF inv] r_into_rtranclp)
  show "mpmc_steps weight a
    (a\<lparr>mq := (mq a)\<lparr>mbuffer := put_sequence pos (pos + 1) (mbuffer (mq a))\<rparr>, producers := (producers a)[k := p\<lparr>pr_pc := MPush_Enter, pr_i := pr_i p + 1\<rparr>]\<rparr>)" by (rule steps)
  show "mra_inv weight ranges counts
    (s\<lparr>rm_mem := M', rm_producers := (rm_producers s)[k := (V', p\<lparr>pr_pc := MPush_Enter, pr_i := pr_i p + 1\<rparr>)]\<rparr>) 
    (a\<lparr>mq := (mq a)\<lparr>mbuffer := put_sequence pos (pos + 1) (mbuffer (mq a))\<rparr>, producers := (producers a)[k := p\<lparr>pr_pc := MPush_Enter, pr_i := pr_i p + 1\<rparr>]\<rparr>)"
  proof (rule mra_inv_producer [OF inv k steps])
    show "producers ?a = (producers a)[k := at_entry ?p]" by (simp add: at_entry_start)
    have "writers ?a = (writers a)(k := None)" using k by (simp add: claims_update mra_invD(2) [OF inv])
    then have ws: "claimed (writers ?a) = claimed (writers a) - {?n}" by (simp only: claimed_drop [OF w(3) mine])
    have new: "knowing_ok M' V' (Owns (?n mod 1024))" by (rule knowing_ok_own_store [OF owns store])
    have "mring_ok (reserved a) (taken a) (claimed (writers a) - {?n}) (claimed (readers a)) (put_sequence (word_of_nat ?n) (pos + 1) (mbuffer ?q)) M'"
    proof (rule mring_ok_sequence [OF conjunct1 [OF ring] w(2) store])
      show "mseq_message (reserved a) (taken a) (claimed (writers a) - {?n}) (claimed (readers a)) M' (?n mod 1024) \<lparr>m_value = pos + 1, m_view = V'\<rparr>"
        using new window_okD(4) [OF w(1) n] unfolding mseq_message_def pos(3) [symmetric] by auto
      show "pos + 1 \<notin> m_value ` snd ` set (written (rm_mem s) (Seq_Cell (?n mod 1024)))"
        using mfresh_publish [OF conjunct1 [OF ring] w(1) n] unfolding pos(3) .
    qed (use owns in auto)
    moreover have "counter_ok M' Enqueue_Pos (reserved a)" "counter_ok M' Dequeue_Pos (taken a)"
      using ring counter_ok_cong [of M' _ "rm_mem s"] store_atD(7) [OF store] by auto
    ultimately show "ring_of ?a M'" using ws by (simp add: ring_of_def pos(1))
    show "producer_knows M' (V', ?p)" by (simp add: producer_knows_def)
  next
    fix j assume "j < length (rm_producers s)" "j \<noteq> k"
    from owner_alone(1) [OF inv mine this] show "producer_knows M' (rm_producers s ! j)"
      by (intro producer_knows_any [OF mra_invD(5) [OF inv \<open>j < _\<close>]] knowing_ok_store [OF _ store]) auto
  next
    fix j assume j: "j < length (rm_consumers s)"
    from owner_alone(2) [OF inv mine this] show "consumer_knows M' (rm_consumers s ! j)"
      by (intro consumer_knows_any [OF mra_invD(6) [OF inv j]] knowing_ok_store [OF _ store]) auto
  qed simp
qed

lemma ra_read:
  assumes inv: "mra_inv weight ranges counts s a" and k: "k < length (rm_consumers s)"
    and c: "rm_consumers s ! k = (V, c)" and pc: "cn_pc c = MPop_Read pos"
    and plain: "plain_load (Data_Cell (slot pos)) t V (rm_mem s) = Some (v, V', M')"
  shows "mpmc_steps weight a
    (a\<lparr>mq := mq a, consumers := (consumers a)[k := c\<lparr>cn_pc := MPop_Release pos v\<rparr>]\<rparr>)"
    and "mra_inv weight ranges counts
    (s\<lparr>rm_mem := M', rm_consumers := (rm_consumers s)[k := (V', c\<lparr>cn_pc := MPop_Release pos v\<rparr>)]\<rparr>) 
    (a\<lparr>mq := mq a, consumers := (consumers a)[k := c\<lparr>cn_pc := MPop_Release pos v\<rparr>]\<rparr>)"
proof -
  let ?q = "mq a" and ?n = "unat pos" and ?c = "c\<lparr>cn_pc := MPop_Release pos v\<rparr>"
  note w = mpmc_inv_window [OF mra_invD(1) [OF inv]] and ring = mra_invD(4) [OF inv, unfolded ring_of_def]
  have pos: "slot pos = ?n mod 1024" by (simp add: slot_unat)
  from mra_invD(6) [OF inv k] c pc have less: "cn_i c < cn_count c" and owns: "knowing_ok (rm_mem s) V (Owns (?n mod 1024))"
    by (simp_all add: consumer_knows_def pos)
  have mine: "readers a k = Some (?n, None)" using readers_nth [OF inv k] c pc by (simp add: pop_claim_def)
  note n = claimedI [of "readers a", OF mine]
  have known: "covers (rm_mem s) (Data_Cell (?n mod 1024)) V" "knows_loads (rm_mem s) (Data_Cell (?n mod 1024)) V"
    "covers (rm_mem s) (Seq_Cell (?n mod 1024)) V" using owns by (simp_all add: knows_cell_def)
  note load = plain_loadD [OF plain [unfolded pos] known(1) mring_okD(3) [OF conjunct1 [OF ring] mod_ring]]
  have nth: "consumers a ! k = c" using k c pc by (simp add: mra_invD(3) [OF inv] pop_claim_def)
  let ?a = "a\<lparr>mq := ?q, consumers := (consumers a)[k := ?c]\<rparr>"
  have steps: "mpmc_steps weight a ?a"
    using consumer_moves [of k a weight ?q ?c] pop_read [OF pc, of weight ?q] nth k
    by (simp add: mra_invD(3) [OF inv] r_into_rtranclp pos load(1))
  show "mpmc_steps weight a
    (a\<lparr>mq := mq a, consumers := (consumers a)[k := c\<lparr>cn_pc := MPop_Release pos v\<rparr>]\<rparr>)" by (rule steps)
  show "mra_inv weight ranges counts
    (s\<lparr>rm_mem := M', rm_consumers := (rm_consumers s)[k := (V', c\<lparr>cn_pc := MPop_Release pos v\<rparr>)]\<rparr>) 
    (a\<lparr>mq := mq a, consumers := (consumers a)[k := c\<lparr>cn_pc := MPop_Release pos v\<rparr>]\<rparr>)"
  proof (rule mra_inv_consumer [OF inv k steps])
    show "consumers ?a = (consumers a)[k := cat_entry ?c]" by (simp add: pop_claim_def)
    have "readers ?a = (readers a)(k \<mapsto> (?n, Some v))"
      using k by (simp add: claims_update mra_invD(3) [OF inv] pop_claim_def)
    then have rs: "claimed (readers ?a) = claimed (readers a)" by (simp only: claimed_keep [of "readers a", OF mine])
    have "mring_ok (reserved a) (taken a) (claimed (writers a)) (claimed (readers a)) (mbuffer ?q) M'"
      by (rule mring_ok_load [OF conjunct1 [OF ring] w(1) n load(3-5)])
    moreover have "counter_ok M' Enqueue_Pos (reserved a)" "counter_ok M' Dequeue_Pos (taken a)"
      using ring counter_ok_cong [of M' _ "rm_mem s"] load(3) by auto
    ultimately show "ring_of ?a M'" using rs by (simp add: ring_of_def)
    have "knowing_ok M' V' (Owns (?n mod 1024))"
      using load(6) [OF known(2)] covers_mono [OF known(1) load(2)] covers_mono [OF known(3) load(2)]
      by (simp add: knows_cell_def covers_def load(3))
    then show "consumer_knows M' (V', ?c)" using less by (simp add: consumer_knows_def pos)
  next
    fix j assume "j < length (rm_consumers s)" "j \<noteq> k"
    from reader_alone(1) [OF inv mine this] show "consumer_knows M' (rm_consumers s ! j)"
      by (intro consumer_knows_any [OF mra_invD(6) [OF inv \<open>j < _\<close>]] knowing_ok_load [OF _ load(3,5)]) auto
  next
    fix j assume j: "j < length (rm_producers s)"
    from reader_alone(2) [OF inv mine this] show "producer_knows M' (rm_producers s ! j)"
      by (intro producer_knows_any [OF mra_invD(5) [OF inv j]] knowing_ok_load [OF _ load(3,5)]) auto
  qed simp
qed

lemma ra_release:
  assumes inv: "mra_inv weight ranges counts s a" and k: "k < length (rm_consumers s)"
    and c: "rm_consumers s ! k = (V, c)" and pc: "cn_pc c = MPop_Release pos v"
    and store: "store_at Release (Seq_Cell (slot pos)) (pos + kCapacity) t V (rm_mem s) = Some (V', M')"
  shows "mpmc_steps weight a
    (a\<lparr>mq := (mq a)\<lparr>mbuffer := put_sequence pos (pos + kCapacity) (mbuffer (mq a))\<rparr>, consumers := (consumers a)[k := c\<lparr>cn_pc := MPop_Enter, cn_i := cn_i c + 1, cn_sum := cn_sum c + weight v\<rparr>]\<rparr>)"
    and "mra_inv weight ranges counts
    (s\<lparr>rm_mem := M', rm_consumers := (rm_consumers s)[k :=
       (V', c\<lparr>cn_pc := MPop_Enter, cn_i := cn_i c + 1, cn_sum := cn_sum c + weight v\<rparr>)]\<rparr>) 
    (a\<lparr>mq := (mq a)\<lparr>mbuffer := put_sequence pos (pos + kCapacity) (mbuffer (mq a))\<rparr>, consumers := (consumers a)[k := c\<lparr>cn_pc := MPop_Enter, cn_i := cn_i c + 1, cn_sum := cn_sum c + weight v\<rparr>]\<rparr>)"
proof -
  let ?q = "mq a" and ?n = "unat pos" and ?c = "c\<lparr>cn_pc := MPop_Enter, cn_i := cn_i c + 1, cn_sum := cn_sum c + weight v\<rparr>"
  note w = mpmc_inv_window [OF mra_invD(1) [OF inv]] and ring = mra_invD(4) [OF inv, unfolded ring_of_def]
  have pos: "word_of_nat ?n = pos" "slot pos = ?n mod 1024" "word_of_nat (?n + 1024) = pos + kCapacity"
    by (simp_all add: slot_unat kCapacity_def)
  note store = store [unfolded pos(2)]
  from mra_invD(6) [OF inv k] c pc have owns: "knowing_ok (rm_mem s) V (Owns (?n mod 1024))"
    by (simp add: consumer_knows_def pos)
  have mine: "readers a k = Some (?n, Some v)" using readers_nth [OF inv k] c pc by (simp add: pop_claim_def)
  note n = claimedI [of "readers a", OF mine]
  have nth: "consumers a ! k = c" using k c pc by (simp add: mra_invD(3) [OF inv] pop_claim_def)
  let ?a = "a\<lparr>mq := ?q\<lparr>mbuffer := put_sequence pos (pos + kCapacity) (mbuffer ?q)\<rparr>, consumers := (consumers a)[k := ?c]\<rparr>"
  have steps: "mpmc_steps weight a ?a"
    using consumer_moves [of k a weight] pop_release [OF pc, of weight ?q] nth k
    by (simp add: mra_invD(3) [OF inv] r_into_rtranclp)
  show "mpmc_steps weight a
    (a\<lparr>mq := (mq a)\<lparr>mbuffer := put_sequence pos (pos + kCapacity) (mbuffer (mq a))\<rparr>, consumers := (consumers a)[k := c\<lparr>cn_pc := MPop_Enter, cn_i := cn_i c + 1, cn_sum := cn_sum c + weight v\<rparr>]\<rparr>)" by (rule steps)
  show "mra_inv weight ranges counts
    (s\<lparr>rm_mem := M', rm_consumers := (rm_consumers s)[k :=
       (V', c\<lparr>cn_pc := MPop_Enter, cn_i := cn_i c + 1, cn_sum := cn_sum c + weight v\<rparr>)]\<rparr>) 
    (a\<lparr>mq := (mq a)\<lparr>mbuffer := put_sequence pos (pos + kCapacity) (mbuffer (mq a))\<rparr>, consumers := (consumers a)[k := c\<lparr>cn_pc := MPop_Enter, cn_i := cn_i c + 1, cn_sum := cn_sum c + weight v\<rparr>]\<rparr>)"
  proof (rule mra_inv_consumer [OF inv k steps])
    show "consumers ?a = (consumers a)[k := cat_entry ?c]" by (simp add: at_entry_start)
    have "readers ?a = (readers a)(k := None)" using k by (simp add: claims_update mra_invD(3) [OF inv])
    then have rs: "claimed (readers ?a) = claimed (readers a) - {?n}" by (simp only: claimed_drop [OF w(4) mine])
    have new: "knowing_ok M' V' (Owns (?n mod 1024))" by (rule knowing_ok_own_store [OF owns store])
    have "mring_ok (reserved a) (taken a) (claimed (writers a)) (claimed (readers a) - {?n}) (put_sequence (word_of_nat ?n) (pos + kCapacity) (mbuffer ?q)) M'"
    proof (rule mring_ok_sequence [OF conjunct1 [OF ring] w(2) store])
      show "mseq_message (reserved a) (taken a) (claimed (writers a)) (claimed (readers a) - {?n}) M' (?n mod 1024) \<lparr>m_value = pos + kCapacity, m_view = V'\<rparr>"
        using new window_okD(5) [OF w(1) n] unfolding mseq_message_def pos(3) [symmetric] by auto
      show "pos + kCapacity \<notin> m_value ` snd ` set (written (rm_mem s) (Seq_Cell (?n mod 1024)))"
        using mfresh_release [OF conjunct1 [OF ring] w(1) n] unfolding pos(3) .
    qed (use owns in auto)
    moreover have "counter_ok M' Enqueue_Pos (reserved a)" "counter_ok M' Dequeue_Pos (taken a)"
      using ring counter_ok_cong [of M' _ "rm_mem s"] store_atD(7) [OF store] by auto
    ultimately show "ring_of ?a M'" using rs by (simp add: ring_of_def pos(1))
    show "consumer_knows M' (V', ?c)" by (simp add: consumer_knows_def)
  next
    fix j assume "j < length (rm_consumers s)" "j \<noteq> k"
    from reader_alone(1) [OF inv mine this] show "consumer_knows M' (rm_consumers s ! j)"
      by (intro consumer_knows_any [OF mra_invD(6) [OF inv \<open>j < _\<close>]] knowing_ok_store [OF _ store]) auto
  next
    fix j assume j: "j < length (rm_producers s)"
    from reader_alone(2) [OF inv mine this] show "producer_knows M' (rm_producers s ! j)"
      by (intro producer_knows_any [OF mra_invD(5) [OF inv j]] knowing_ok_store [OF _ store]) auto
  qed simp
qed

section \<open>Runs\<close>

lemma ra_push_simulates_mpmc:
  assumes step: "ra_push_step (rm_mem s, rm_producers s ! k) (M', p')" and k: "k < length (rm_producers s)"
    and inv: "mra_inv weight ranges counts s a"
  shows "\<exists>a'. mpmc_steps weight a a' \<and>
    mra_inv weight ranges counts (s\<lparr>rm_mem := M', rm_producers := (rm_producers s)[k := p']\<rparr>) a'"
proof -
  obtain V p where p: "rm_producers s ! k = (V, p)" by (cases "rm_producers s ! k")
  from mra_invD(5) [OF inv k] p have less: "pr_pc p \<noteq> MPush_Enter \<Longrightarrow> pr_i p < pr_hi p" by (simp add: producer_knows_def)
  have looks: ?thesis if "M' = rm_mem s" "p' = (V', p\<lparr>pr_pc := pc'\<rparr>)" "push_claim (pr_pc p) = None" "push_claim pc' = None"
    "pc' \<noteq> MPush_Enter \<Longrightarrow> pr_i p < pr_hi p" "knowing_ok (rm_mem s) V' (push_knowing pc')" for V' pc'
    using mra_inv_producer_looks [OF inv k p that(3,4,5,6)] unfolding that(1,2) by blast
  from step [unfolded p] show ?thesis
  proof cases
    case (ra_push_reserve pos t V')
    with ra_reserve_push [OF inv k p] show ?thesis by fast
  next
    case (ra_push_write pos t V')
    with ra_write [OF inv k p] show ?thesis by fast
  next
    case (ra_push_publish pos t V')
    with ra_publish [OF inv k p] show ?thesis by fast
  next
    case (ra_push_ready pos t sq V')
    with acquired [OF ra_push_ready(4)] less show ?thesis
      by (intro looks [of V' "MPush_Cas pos"]) (simp_all add: push_claim_def)
  next
    case (ra_push_enter t pos V')
    with less show ?thesis by (intro looks [of V' "MPush_Check pos"]) (simp_all add: push_claim_def)
  next
    case (ra_push_full pos t sq V')
    with less show ?thesis by (intro looks [of V' MPush_Reload]) (simp_all add: push_claim_def)
  next
    case (ra_push_behind pos t sq V')
    with less show ?thesis by (intro looks [of V' MPush_Reload]) (simp_all add: push_claim_def)
  next
    case (ra_push_reload t pos V')
    with less show ?thesis by (intro looks [of V' "MPush_Check pos"]) (simp_all add: push_claim_def)
  next
    case (ra_push_cas_fails pos t now V')
    with less show ?thesis by (intro looks [of V' "MPush_Check now"]) (simp_all add: push_claim_def)
  qed
qed

lemma ra_pop_simulates_mpmc:
  assumes step: "ra_pop_step weight (rm_mem s, rm_consumers s ! k) (M', c')" and k: "k < length (rm_consumers s)"
    and inv: "mra_inv weight ranges counts s a"
  shows "\<exists>a'. mpmc_steps weight a a' \<and>
    mra_inv weight ranges counts (s\<lparr>rm_mem := M', rm_consumers := (rm_consumers s)[k := c']\<rparr>) a'"
proof -
  obtain V c where c: "rm_consumers s ! k = (V, c)" by (cases "rm_consumers s ! k")
  from mra_invD(6) [OF inv k] c have less: "cn_pc c \<noteq> MPop_Enter \<Longrightarrow> cn_i c < cn_count c" by (simp add: consumer_knows_def)
  have looks: ?thesis if "M' = rm_mem s" "c' = (V', c\<lparr>cn_pc := pc'\<rparr>)" "pop_claim (cn_pc c) = None" "pop_claim pc' = None"
    "pc' \<noteq> MPop_Enter \<Longrightarrow> cn_i c < cn_count c" "knowing_ok (rm_mem s) V' (pop_knowing pc')" for V' pc'
    using mra_inv_consumer_looks [OF inv k c that(3,4,5,6)] unfolding that(1,2) by blast
  from step [unfolded c] show ?thesis
  proof cases
    case (ra_pop_reserve pos t V')
    with ra_reserve_pop [OF inv k c] show ?thesis by fast
  next
    case (ra_pop_read pos t v V')
    with ra_read [OF inv k c] show ?thesis by fast
  next
    case (ra_pop_release pos v t V')
    with ra_release [OF inv k c] show ?thesis by fast
  next
    case (ra_pop_ready pos t sq V')
    with acquired [OF ra_pop_ready(4)] less show ?thesis
      by (intro looks [of V' "MPop_Cas pos"]) (simp_all add: pop_claim_def)
  next
    case (ra_pop_enter t pos V')
    with less show ?thesis by (intro looks [of V' "MPop_Check pos"]) (simp_all add: pop_claim_def)
  next
    case (ra_pop_empty pos t sq V')
    with less show ?thesis by (intro looks [of V' MPop_Reload]) (simp_all add: pop_claim_def)
  next
    case (ra_pop_behind pos t sq V')
    with less show ?thesis by (intro looks [of V' MPop_Reload]) (simp_all add: pop_claim_def)
  next
    case (ra_pop_reload t pos V')
    with less show ?thesis by (intro looks [of V' "MPop_Check pos"]) (simp_all add: pop_claim_def)
  next
    case (ra_pop_cas_fails pos t now V')
    with less show ?thesis by (intro looks [of V' "MPop_Check now"]) (simp_all add: pop_claim_def)
  qed
qed

lemma ra_mpmc_simulates:
  assumes "ra_mpmc_steps weight s s'" "mra_inv weight ranges counts s a"
  shows "\<exists>a'. mpmc_steps weight a a' \<and> mra_inv weight ranges counts s' a'"
  using assms
proof (induction rule: rtranclp_induct)
  case base
  then show ?case by blast
next
  case (step s1 s2)
  then obtain a1 where a1: "mpmc_steps weight a a1" "mra_inv weight ranges counts s1 a1" by blast
  from step(2) obtain a2 where "mpmc_steps weight a1 a2" "mra_inv weight ranges counts s2 a2"
    using ra_push_simulates_mpmc [OF _ _ a1(2)] ra_pop_simulates_mpmc [OF _ _ a1(2)]
    by cases blast+
  with a1(1) show ?case by (meson rtranclp_trans)
qed

lemma mra_inv_start:
  fixes ranges :: "(u64 \<times> u64) list" and weight :: "u64 \<Rightarrow> 'a::cancel_comm_monoid_add"
  assumes "length buf = 1024" "ranges_ok ranges"
  shows "mra_inv weight ranges counts (ra_mpmc_start buf ranges counts) (mpmc_start buf ranges counts)"
proof -
  let ?M = "initial_memory (mpmc_initial_value (queue_init buf))"
  have one: "written ?M l = [(0, \<lparr>m_value = mpmc_initial_value (queue_init buf) l, m_view = initial_view\<rparr>)]" "loads_done ?M l = 0"
    "\<not> raced ?M" for l by (simp_all add: initial_memory_def)
  have know: "covers ?M l V" "knows_loads ?M l V" "holds ?M l v \<longleftrightarrow> v = mpmc_initial_value (queue_init buf) l" for l V v
    by (auto simp: covers_def knows_loads_def holds_def one)
  have "mring_ok 0 0 {} {} (queue_init buf) ?M"
    by (auto simp: mring_ok_def mhistory_ok_def one know mseq_message_def knows_cell_def sequence_after_init(2) [OF assms(1)])
  moreover have "claimed (Map.empty :: nat \<rightharpoonup> nat \<times> bool) = {}" "claimed (Map.empty :: nat \<rightharpoonup> nat \<times> u64 option) = {}"
    by (simp_all add: claimed_def)
  ultimately have "ring_of (mpmc_start buf ranges counts :: 'a mpmc) ?M"
    by (simp add: ring_of_def mpmc_start_def claims_start counter_ok_initial)
  moreover have "at_entry (mproducer_start r) = mproducer_start r" "cat_entry (mconsumer_start n :: 'a mconsumer) = mconsumer_start n" for r n
    by (simp_all add: at_entry_start mproducer_start_def mconsumer_start_def)
  ultimately show ?thesis
    using mpmc_inv_start [OF assms, of weight counts]
    by (simp add: mra_inv_def ra_mpmc_start_def producer_knows_def consumer_knows_def)
      (simp add: mpmc_start_def mproducer_start_def mconsumer_start_def)
qed

lemma ra_mpmc_reachable:
  fixes weight :: "u64 \<Rightarrow> 'a::cancel_comm_monoid_add"
  assumes "length buf = 1024" "ranges_ok ranges" "ra_mpmc_steps weight (ra_mpmc_start buf ranges counts) s"
  obtains a where "mpmc_steps weight (mpmc_start buf ranges counts) a" "mra_inv weight ranges counts s a"
  using ra_mpmc_simulates [OF assms(3) mra_inv_start [OF assms(1,2)]] by blast

lemma mra_inv_same_mpmc: "mra_inv weight ranges counts s a \<Longrightarrow> same_mpmc s a \<and> \<not> raced (rm_mem s)"
  using counter_holds [of "rm_mem s" Enqueue_Pos "reserved a"] counter_holds [of "rm_mem s" Dequeue_Pos "taken a"]
  by (auto simp: mra_inv_def same_mpmc_def ring_of_def mring_ok_def)

lemma joined_same:
  assumes "same_mpmc s a" "ra_mpmc_joined s"
  shows "mpmc_joined a" "map cn_sum (consumers a) = map (\<lambda>(V, c). cn_sum c) (rm_consumers s)"
proof -
  have "(case x of (V, p) \<Rightarrow> at_entry p) = snd x \<and> pr_pc (snd x) = MPush_Enter \<and> \<not> pr_i (snd x) < pr_hi (snd x)"
    if "x \<in> set (rm_producers s)" for x
    using assms(2) that by (auto simp: ra_mpmc_joined_def at_entry_start)
  moreover have c: "(case x of (V, c) \<Rightarrow> cat_entry c) = snd x \<and> cn_pc (snd x) = MPop_Enter \<and> \<not> cn_i (snd x) < cn_count (snd x)"
    if "x \<in> set (rm_consumers s)" for x
    using assms(2) that by (auto simp: ra_mpmc_joined_def at_entry_start)
  ultimately show "mpmc_joined a"
    using assms(1) by (auto simp: mpmc_joined_def same_mpmc_def)
  show "map cn_sum (consumers a) = map (\<lambda>(V, c). cn_sum c) (rm_consumers s)"
    using assms(1) c by (auto simp: same_mpmc_def)
qed

end
