(* ===== verification/Mpmc_Progress.thy ===== *)
theory Mpmc_Progress
  imports Mpmc_Orderings
begin

text \<open>
  Progress of the queue of \<open>benchmarks/mpmc_queue.cpp\<close> with its memory orders: every step of
  the interleaving machine can be followed by the thread alone, with accesses that are up to
  date, so from every reachable state all threads can still return. The properties of \<open>push\<close>,
  \<open>pop\<close> and \<open>main\<close> are stated here.
\<close>

section \<open>Every thread can go on\<close>

text \<open>Views only name messages that exist, so the up-to-date accesses are possible.\<close>

definition rm_wf :: "'a ra_mpmc \<Rightarrow> bool" where
  "rm_wf s \<longleftrightarrow> views_in (rm_mem s) \<and> (\<forall>(V, p)\<in>set (rm_producers s). view_in (rm_mem s) V) \<and>
     (\<forall>(V, c)\<in>set (rm_consumers s). view_in (rm_mem s) V)"

lemma ra_push_view_in:
  assumes "ra_push_step (M, V, p) (M', V', p')" "views_in M" "view_in M V"
  shows "views_in M' \<and> view_in M' V' \<and> (\<forall>W. view_in M W \<longrightarrow> view_in M' W)"
  using assms(1)
  by cases (use assms(2,3) in \<open>auto dest: load_view_in store_view_in exchange_view_in plain_store_view_in\<close>)

lemma ra_pop_view_in:
  assumes "ra_pop_step weight (M, V, c) (M', V', c')" "views_in M" "view_in M V"
  shows "views_in M' \<and> view_in M' V' \<and> (\<forall>W. view_in M W \<longrightarrow> view_in M' W)"
  using assms(1)
  by cases (use assms(2,3) in \<open>auto dest: load_view_in store_view_in exchange_view_in plain_load_view_in\<close>)

lemma rm_wf_step: "ra_mpmc_step weight s s' \<Longrightarrow> rm_wf s \<Longrightarrow> rm_wf s'"
proof (induction rule: ra_mpmc_step.induct)
  case (ra_producer_moves k s M' p')
  obtain V p V1 p1 where vp: "rm_producers s ! k = (V, p)" "p' = (V1, p1)" by (cases "rm_producers s ! k", cases p')
  from ra_producer_moves(1,3) vp(1) have "views_in (rm_mem s)" "view_in (rm_mem s) V"
    by (auto simp: rm_wf_def) (metis (no_types, lifting) case_prodD nth_mem)
  from ra_push_view_in [OF _ this] ra_producer_moves(2,3) vp set_update_subset_insert [of "rm_producers s" k p']
  show ?case by (fastforce simp: rm_wf_def)
next
  case (ra_consumer_moves k s M' c')
  obtain V c V1 c1 where vc: "rm_consumers s ! k = (V, c)" "c' = (V1, c1)" by (cases "rm_consumers s ! k", cases c')
  from ra_consumer_moves(1,3) vc(1) have "views_in (rm_mem s)" "view_in (rm_mem s) V"
    by (auto simp: rm_wf_def) (metis (no_types, lifting) case_prodD nth_mem)
  from ra_pop_view_in [OF _ this] ra_consumer_moves(2,3) vc set_update_subset_insert [of "rm_consumers s" k c']
  show ?case by (fastforce simp: rm_wf_def)
qed

lemma rm_wf_steps: "ra_mpmc_steps weight s s' \<Longrightarrow> rm_wf s \<Longrightarrow> rm_wf s'"
  by (induction rule: rtranclp_induct) (auto intro: rm_wf_step)

lemma rm_wf_start: "rm_wf (ra_mpmc_start buf ranges counts)"
  by (auto simp: rm_wf_def ra_mpmc_start_def view_in_initial)

lemma rm_wfD:
  assumes "rm_wf s"
  shows "views_in (rm_mem s)" "k < length (rm_producers s) \<Longrightarrow> rm_producers s ! k = (V, p) \<Longrightarrow> view_in (rm_mem s) V"
    "k < length (rm_consumers s) \<Longrightarrow> rm_consumers s ! k = (W, c) \<Longrightarrow> view_in (rm_mem s) W"
  using assms unfolding rm_wf_def by (auto dest!: nth_mem)

text \<open>A thread without a position gets to the exchange of the newest one.\<close>

lemma ra_push_reaches_check:
  assumes wf: "views_in M" "view_in M V" and less: "pr_i p < pr_hi p" and none: "push_claim (pr_pc p) = None"
    and newest: "holds M Enqueue_Pos e"
  shows "\<exists>V'. ra_push_step\<^sup>*\<^sup>* (M, V, p) (M, V', p\<lparr>pr_pc := MPush_Check e\<rparr>) \<and> view_in M V'"
proof -
  have from_reload: "\<exists>V'. ra_push_step\<^sup>*\<^sup>* (M, W, x) (M, V', x\<lparr>pr_pc := MPush_Check e\<rparr>) \<and> view_in M V'"
    if x: "view_in M W" "pr_pc x = MPush_Reload \<or> (\<exists>pos. pr_pc x = MPush_Cas pos) \<or> pr_pc x = MPush_Enter \<and> pr_i x < pr_hi x" for W x
  proof -
    obtain V' where load: "load_at Relaxed Enqueue_Pos (newest M Enqueue_Pos) W M = Some (e, V')"
      using load_newest_message [OF x(1)] newest by metis
    from x(2) have "ra_push_step (M, W, x) (M, V', x\<lparr>pr_pc := MPush_Check e\<rparr>)"
      using load by (auto intro: ra_push_step.intros)
    with load_view_in [OF load wf(1) x(1)] show ?thesis by blast
  qed
  show ?thesis
  proof (cases "pr_pc p")
    case (MPush_Check pos)
    obtain sq V1 where load: "load_at Acquire (Seq_Cell (slot pos)) (newest M (Seq_Cell (slot pos))) V M = Some (sq, V1)"
      by (rule load_newest_message [OF wf(2)])
    consider "seq_diff sq pos = 0" | "seq_diff sq pos < 0" | "0 < seq_diff sq pos" by linarith
    then obtain pc where pc: "ra_push_step (M, V, p) (M, V1, p\<lparr>pr_pc := pc\<rparr>)" "pc = MPush_Reload \<or> pc = MPush_Cas pos"
      using ra_push_ready [OF MPush_Check load] ra_push_full [OF MPush_Check load] ra_push_behind [OF MPush_Check load]
      by cases blast+
    have "pr_pc (p\<lparr>pr_pc := pc\<rparr>) = MPush_Reload \<or> (\<exists>pos. pr_pc (p\<lparr>pr_pc := pc\<rparr>) = MPush_Cas pos)"
      using pc(2) by auto
    with from_reload [OF load_view_in [OF load wf], of "p\<lparr>pr_pc := pc\<rparr>"] obtain V'
      where "ra_push_step\<^sup>*\<^sup>* (M, V1, p\<lparr>pr_pc := pc\<rparr>) (M, V', p\<lparr>pr_pc := MPush_Check e\<rparr>)" "view_in M V'" by auto
    with pc(1) show ?thesis by (meson converse_rtranclp_into_rtranclp)
  qed (use less none from_reload [OF wf(2), of p] in \<open>auto simp: push_claim_def\<close>)
qed

lemma ra_push_reaches_cas:
  assumes wf: "views_in M" "view_in M V" and less: "pr_i p < pr_hi p" and none: "push_claim (pr_pc p) = None"
    and newest: "holds M Enqueue_Pos e" "holds M (Seq_Cell (slot e)) e"
  obtains V' where "ra_push_step\<^sup>*\<^sup>* (M, V, p) (M, V', p\<lparr>pr_pc := MPush_Cas e\<rparr>)" "view_in M V'" "saw_message M (slot e) e V'"
proof -
  from ra_push_reaches_check [OF wf less none newest(1)] obtain V1
    where V1: "ra_push_step\<^sup>*\<^sup>* (M, V, p) (M, V1, p\<lparr>pr_pc := MPush_Check e\<rparr>)" "view_in M V1" by blast
  obtain V' where load: "load_at Acquire (Seq_Cell (slot e)) (newest M (Seq_Cell (slot e))) V1 M = Some (e, V')"
    using load_newest_message [OF V1(2)] newest(2) by metis
  have "ra_push_step (M, V1, p\<lparr>pr_pc := MPush_Check e\<rparr>) (M, V', p\<lparr>pr_pc := MPush_Cas e\<rparr>)"
    using ra_push_ready [of "p\<lparr>pr_pc := MPush_Check e\<rparr>", OF _ load] by simp
  with V1(1) have "ra_push_step\<^sup>*\<^sup>* (M, V, p) (M, V', p\<lparr>pr_pc := MPush_Cas e\<rparr>)" by (rule rtranclp.rtrancl_into_rtrancl)
  then show thesis using load_view_in [OF load wf(1) V1(2)] acquired [OF load] by (rule that)
qed

lemma ra_pop_reaches_check:
  assumes wf: "views_in M" "view_in M V" and less: "cn_i c < cn_count c" and none: "pop_claim (cn_pc c) = None"
    and newest: "holds M Dequeue_Pos d"
  shows "\<exists>V'. (ra_pop_step weight)\<^sup>*\<^sup>* (M, V, c) (M, V', c\<lparr>cn_pc := MPop_Check d\<rparr>) \<and> view_in M V'"
proof -
  have from_reload: "\<exists>V'. (ra_pop_step weight)\<^sup>*\<^sup>* (M, W, x) (M, V', x\<lparr>cn_pc := MPop_Check d\<rparr>) \<and> view_in M V'"
    if x: "view_in M W" "cn_pc x = MPop_Reload \<or> (\<exists>pos. cn_pc x = MPop_Cas pos) \<or> cn_pc x = MPop_Enter \<and> cn_i x < cn_count x" for W x
  proof -
    obtain V' where load: "load_at Relaxed Dequeue_Pos (newest M Dequeue_Pos) W M = Some (d, V')"
      using load_newest_message [OF x(1)] newest by metis
    from x(2) have "ra_pop_step weight (M, W, x) (M, V', x\<lparr>cn_pc := MPop_Check d\<rparr>)"
      using load by (auto intro: ra_pop_step.intros)
    with load_view_in [OF load wf(1) x(1)] show ?thesis by blast
  qed
  show ?thesis
  proof (cases "cn_pc c")
    case (MPop_Check pos)
    obtain sq V1 where load: "load_at Acquire (Seq_Cell (slot pos)) (newest M (Seq_Cell (slot pos))) V M = Some (sq, V1)"
      by (rule load_newest_message [OF wf(2)])
    consider "seq_diff sq (pos + 1) = 0" | "seq_diff sq (pos + 1) < 0" | "0 < seq_diff sq (pos + 1)" by linarith
    then obtain pc where pc: "ra_pop_step weight (M, V, c) (M, V1, c\<lparr>cn_pc := pc\<rparr>)" "pc = MPop_Reload \<or> pc = MPop_Cas pos"
      using ra_pop_ready [OF MPop_Check load] ra_pop_empty [OF MPop_Check load] ra_pop_behind [OF MPop_Check load]
      by cases blast+
    have "cn_pc (c\<lparr>cn_pc := pc\<rparr>) = MPop_Reload \<or> (\<exists>pos. cn_pc (c\<lparr>cn_pc := pc\<rparr>) = MPop_Cas pos)"
      using pc(2) by auto
    with from_reload [OF load_view_in [OF load wf], of "c\<lparr>cn_pc := pc\<rparr>"] obtain V'
      where "(ra_pop_step weight)\<^sup>*\<^sup>* (M, V1, c\<lparr>cn_pc := pc\<rparr>) (M, V', c\<lparr>cn_pc := MPop_Check d\<rparr>)" "view_in M V'" by auto
    with pc(1) show ?thesis by (meson converse_rtranclp_into_rtranclp)
  qed (use less none from_reload [OF wf(2), of c] in \<open>auto simp: pop_claim_def\<close>)
qed

lemma ra_pop_reaches_cas:
  assumes wf: "views_in M" "view_in M V" and less: "cn_i c < cn_count c" and none: "pop_claim (cn_pc c) = None"
    and newest: "holds M Dequeue_Pos d" "holds M (Seq_Cell (slot d)) (d + 1)"
  obtains V' where "(ra_pop_step weight)\<^sup>*\<^sup>* (M, V, c) (M, V', c\<lparr>cn_pc := MPop_Cas d\<rparr>)" "view_in M V'" "saw_message M (slot d) (d + 1) V'"
proof -
  from ra_pop_reaches_check [OF wf less none newest(1), of weight] obtain V1
    where V1: "(ra_pop_step weight)\<^sup>*\<^sup>* (M, V, c) (M, V1, c\<lparr>cn_pc := MPop_Check d\<rparr>)" "view_in M V1" by blast
  obtain V' where load: "load_at Acquire (Seq_Cell (slot d)) (newest M (Seq_Cell (slot d))) V1 M = Some (d + 1, V')"
    using load_newest_message [OF V1(2)] newest(2) by metis
  have "ra_pop_step weight (M, V1, c\<lparr>cn_pc := MPop_Check d\<rparr>) (M, V', c\<lparr>cn_pc := MPop_Cas d\<rparr>)"
    using ra_pop_ready [of "c\<lparr>cn_pc := MPop_Check d\<rparr>", OF _ load] by simp
  with V1(1) have "(ra_pop_step weight)\<^sup>*\<^sup>* (M, V, c) (M, V', c\<lparr>cn_pc := MPop_Cas d\<rparr>)" by (rule rtranclp.rtrancl_into_rtrancl)
  then show thesis using load_view_in [OF load wf(1) V1(2)] acquired [OF load] by (rule that)
qed

lemma lift_ra_push:
  assumes "ra_push_step\<^sup>*\<^sup>* (rm_mem s, rm_producers s ! k) (M', p')" "k < length (rm_producers s)"
  shows "ra_mpmc_steps weight s (s\<lparr>rm_mem := M', rm_producers := (rm_producers s)[k := p']\<rparr>)"
  using assms(1)
proof (induction "(M', p')" arbitrary: M' p' rule: rtranclp_induct)
  case base
  then show ?case by simp
next
  case (step y)
  obtain M1 p1 where y: "y = (M1, p1)" by (cases y)
  let ?s1 = "s\<lparr>rm_mem := M1, rm_producers := (rm_producers s)[k := p1]\<rparr>"
  have "ra_mpmc_steps weight s ?s1" using step.hyps(3) y by blast
  moreover have "ra_mpmc_step weight ?s1 (?s1\<lparr>rm_mem := M', rm_producers := (rm_producers ?s1)[k := p']\<rparr>)"
    using step.hyps(2) y assms(2) by (intro ra_mpmc_step.intros) simp_all
  ultimately show ?case by simp
qed

lemma lift_ra_pop:
  assumes "(ra_pop_step weight)\<^sup>*\<^sup>* (rm_mem s, rm_consumers s ! k) (M', c')" "k < length (rm_consumers s)"
  shows "ra_mpmc_steps weight s (s\<lparr>rm_mem := M', rm_consumers := (rm_consumers s)[k := c']\<rparr>)"
  using assms(1)
proof (induction "(M', c')" arbitrary: M' c' rule: rtranclp_induct)
  case base
  then show ?case by simp
next
  case (step y)
  obtain M1 c1 where y: "y = (M1, c1)" by (cases y)
  let ?s1 = "s\<lparr>rm_mem := M1, rm_consumers := (rm_consumers s)[k := c1]\<rparr>"
  have "ra_mpmc_steps weight s ?s1" using step.hyps(3) y by blast
  moreover have "ra_mpmc_step weight ?s1 (?s1\<lparr>rm_mem := M', rm_consumers := (rm_consumers ?s1)[k := c']\<rparr>)"
    using step.hyps(2) y assms(2) by (intro ra_mpmc_step.intros) simp_all
  ultimately show ?case by simp
qed

text \<open>The interleaving state with the threads that only look sent back to the entry.\<close>

definition all_at_entry :: "'a mpmc \<Rightarrow> 'a mpmc" where
  "all_at_entry a = a\<lparr>producers := map at_entry (producers a), consumers := map cat_entry (consumers a)\<rparr>"

text \<open>Reserving and working, by the thread alone.\<close>

lemma can_reserve_push:
  assumes inv: "mra_inv weight ranges counts s a" and wf: "rm_wf s" and k: "k < length (rm_producers s)"
    and p: "rm_producers s ! k = (V, p)" and less: "pr_i p < pr_hi p" and none: "push_claim (pr_pc p) = None"
    and free: "sequence (mbuffer (mq a) ! slot (enqueue_pos (mq a))) = enqueue_pos (mq a)"
  shows "\<exists>s'. ra_mpmc_steps weight s s' \<and> mra_inv weight ranges counts s'
    (a\<lparr>mq := (mq a)\<lparr>enqueue_pos := enqueue_pos (mq a) + 1\<rparr>,
      producers := (producers a)[k := p\<lparr>pr_pc := MPush_Write (enqueue_pos (mq a))\<rparr>]\<rparr>)"
proof -
  let ?e = "enqueue_pos (mq a)" and ?M = "rm_mem s"
  note ring = mra_invD(4) [OF inv, unfolded ring_of_def]
  have newest: "holds ?M Enqueue_Pos ?e" "holds ?M (Seq_Cell (slot ?e)) ?e"
    using counter_holds [of ?M Enqueue_Pos "reserved a"] mring_okD(2) [OF conjunct1 [OF ring] slot_in_ring, of ?e] ring free by simp_all
  obtain V1 where V1: "ra_push_step\<^sup>*\<^sup>* (?M, V, p) (?M, V1, p\<lparr>pr_pc := MPush_Cas ?e\<rparr>)" "view_in ?M V1" "saw_message ?M (slot ?e) ?e V1"
    using ra_push_reaches_cas [OF rm_wfD(1) [OF wf] rm_wfD(2) [OF wf k p] less none newest] by blast
  let ?s1 = "s\<lparr>rm_mem := ?M, rm_producers := (rm_producers s)[k := (V1, p\<lparr>pr_pc := MPush_Cas ?e\<rparr>)]\<rparr>"
  have s1: "ra_mpmc_steps weight s ?s1" using V1(1) p k by (intro lift_ra_push) simp_all
  have inv1: "mra_inv weight ranges counts ?s1 a"
    using V1(3) less by (intro mra_inv_producer_looks [OF inv k p none]) (simp_all add: push_claim_def)
  obtain V2 M2 where ex: "exchange_at Enqueue_Pos ?e (?e + 1) (reserved a) V1 ?M = Some (V2, M2)"
    using counter_newest [OF _ V1(2), of Enqueue_Pos "reserved a" "?e + 1"] ring by auto
  have k1: "k < length (rm_producers ?s1)" and p1: "rm_producers ?s1 ! k = (V1, p\<lparr>pr_pc := MPush_Cas ?e\<rparr>)" using k by simp_all
  have "ra_push_step (?M, V1, p\<lparr>pr_pc := MPush_Cas ?e\<rparr>) (M2, V2, p\<lparr>pr_pc := MPush_Write ?e\<rparr>)"
    using ra_push_reserve [of "p\<lparr>pr_pc := MPush_Cas ?e\<rparr>" ?e, OF _ ex] by simp
  then have "ra_mpmc_step weight ?s1 (?s1\<lparr>rm_mem := M2, rm_producers := (rm_producers ?s1)[k := (V2, p\<lparr>pr_pc := MPush_Write ?e\<rparr>)]\<rparr>)"
    using p1 by (intro ra_producer_moves [OF k1]) simp
  with s1 ra_reserve_push(2) [OF inv1 k1 p1, of ?e "reserved a" V2 M2] ex show ?thesis
    by (auto intro: rtranclp.rtrancl_into_rtrancl)
qed

lemma can_reserve_pop:
  assumes inv: "mra_inv weight ranges counts s a" and wf: "rm_wf s" and k: "k < length (rm_consumers s)"
    and c: "rm_consumers s ! k = (V, c)" and less: "cn_i c < cn_count c" and none: "pop_claim (cn_pc c) = None"
    and full: "sequence (mbuffer (mq a) ! slot (dequeue_pos (mq a))) = dequeue_pos (mq a) + 1"
  shows "\<exists>s'. ra_mpmc_steps weight s s' \<and> mra_inv weight ranges counts s'
    (a\<lparr>mq := (mq a)\<lparr>dequeue_pos := dequeue_pos (mq a) + 1\<rparr>,
      consumers := (consumers a)[k := c\<lparr>cn_pc := MPop_Read (dequeue_pos (mq a))\<rparr>]\<rparr>)"
proof -
  let ?d = "dequeue_pos (mq a)" and ?M = "rm_mem s"
  note ring = mra_invD(4) [OF inv, unfolded ring_of_def]
  have newest: "holds ?M Dequeue_Pos ?d" "holds ?M (Seq_Cell (slot ?d)) (?d + 1)"
    using counter_holds [of ?M Dequeue_Pos "taken a"] mring_okD(2) [OF conjunct1 [OF ring] slot_in_ring, of ?d] ring full by simp_all
  obtain V1 where V1: "(ra_pop_step weight)\<^sup>*\<^sup>* (?M, V, c) (?M, V1, c\<lparr>cn_pc := MPop_Cas ?d\<rparr>)" "view_in ?M V1" "saw_message ?M (slot ?d) (?d + 1) V1"
    using ra_pop_reaches_cas [OF rm_wfD(1) [OF wf] rm_wfD(3) [OF wf k c] less none newest] by blast
  let ?s1 = "s\<lparr>rm_mem := ?M, rm_consumers := (rm_consumers s)[k := (V1, c\<lparr>cn_pc := MPop_Cas ?d\<rparr>)]\<rparr>"
  have s1: "ra_mpmc_steps weight s ?s1" using V1(1) c k by (intro lift_ra_pop) simp_all
  have inv1: "mra_inv weight ranges counts ?s1 a"
    using V1(3) less by (intro mra_inv_consumer_looks [OF inv k c none]) (simp_all add: pop_claim_def)
  obtain V2 M2 where ex: "exchange_at Dequeue_Pos ?d (?d + 1) (taken a) V1 ?M = Some (V2, M2)"
    using counter_newest [OF _ V1(2), of Dequeue_Pos "taken a" "?d + 1"] ring by auto
  have k1: "k < length (rm_consumers ?s1)" and c1: "rm_consumers ?s1 ! k = (V1, c\<lparr>cn_pc := MPop_Cas ?d\<rparr>)" using k by simp_all
  have "ra_pop_step weight (?M, V1, c\<lparr>cn_pc := MPop_Cas ?d\<rparr>) (M2, V2, c\<lparr>cn_pc := MPop_Read ?d\<rparr>)"
    using ra_pop_reserve [of "c\<lparr>cn_pc := MPop_Cas ?d\<rparr>" ?d, OF _ ex] by simp
  then have "ra_mpmc_step weight ?s1 (?s1\<lparr>rm_mem := M2, rm_consumers := (rm_consumers ?s1)[k := (V2, c\<lparr>cn_pc := MPop_Read ?d\<rparr>)]\<rparr>)"
    using c1 by (intro ra_consumer_moves [OF k1]) simp
  with s1 ra_reserve_pop(2) [OF inv1 k1 c1, of ?d "taken a" V2 M2] ex show ?thesis
    by (auto intro: rtranclp.rtrancl_into_rtrancl)
qed

text \<open>Whatever step a thread of the interleaving machine takes, the run with memory orders can follow.\<close>

lemma at_entry_looks: "push_claim (pr_pc p) = None \<Longrightarrow> push_claim pc = None \<Longrightarrow> at_entry (p\<lparr>pr_pc := pc\<rparr>) = at_entry p"
  "pop_claim (cn_pc c) = None \<Longrightarrow> pop_claim pc' = None \<Longrightarrow> cat_entry (c\<lparr>cn_pc := pc'\<rparr>) = cat_entry c"
  by (simp_all add: at_entry_def cat_entry_def)

lemma same_entry:
  assumes "at_entry r = at_entry p"
  shows "push_claim (pr_pc r) = push_claim (pr_pc p)" "pr_i r = pr_i p" "pr_hi r = pr_hi p"
    "push_claim (pr_pc p) \<noteq> None \<Longrightarrow> r = p" "push_claim (pr_pc p) = None \<Longrightarrow> r\<lparr>pr_pc := pc\<rparr> = p\<lparr>pr_pc := pc\<rparr>"
proof -
  show claim: "push_claim (pr_pc r) = push_claim (pr_pc p)" and "pr_i r = pr_i p" "pr_hi r = pr_hi p"
    using arg_cong [OF assms, of "\<lambda>p. push_claim (pr_pc p)"] arg_cong [OF assms, of pr_i] arg_cong [OF assms, of pr_hi] by simp_all
  show "push_claim (pr_pc p) \<noteq> None \<Longrightarrow> r = p" using assms claim by simp
  assume "push_claim (pr_pc p) = None"
  with assms claim have "r\<lparr>pr_pc := MPush_Enter\<rparr> = p\<lparr>pr_pc := MPush_Enter\<rparr>" by (simp add: at_entry_def)
  then have "(r\<lparr>pr_pc := MPush_Enter\<rparr>)\<lparr>pr_pc := pc\<rparr> = (p\<lparr>pr_pc := MPush_Enter\<rparr>)\<lparr>pr_pc := pc\<rparr>" by (rule arg_cong)
  then show "r\<lparr>pr_pc := pc\<rparr> = p\<lparr>pr_pc := pc\<rparr>" by simp
qed

lemma same_cat_entry:
  assumes "cat_entry r = cat_entry c"
  shows "pop_claim (cn_pc r) = pop_claim (cn_pc c)" "cn_i r = cn_i c" "cn_count r = cn_count c"
    "pop_claim (cn_pc c) \<noteq> None \<Longrightarrow> r = c" "pop_claim (cn_pc c) = None \<Longrightarrow> r\<lparr>cn_pc := pc\<rparr> = c\<lparr>cn_pc := pc\<rparr>"
proof -
  show claim: "pop_claim (cn_pc r) = pop_claim (cn_pc c)" and "cn_i r = cn_i c" "cn_count r = cn_count c"
    using arg_cong [OF assms, of "\<lambda>c. pop_claim (cn_pc c)"] arg_cong [OF assms, of cn_i] arg_cong [OF assms, of cn_count] by simp_all
  show "pop_claim (cn_pc c) \<noteq> None \<Longrightarrow> r = c" using assms claim by simp
  assume "pop_claim (cn_pc c) = None"
  with assms claim have "r\<lparr>cn_pc := MPop_Enter\<rparr> = c\<lparr>cn_pc := MPop_Enter\<rparr>" by (simp add: cat_entry_def)
  then have "(r\<lparr>cn_pc := MPop_Enter\<rparr>)\<lparr>cn_pc := pc\<rparr> = (c\<lparr>cn_pc := MPop_Enter\<rparr>)\<lparr>cn_pc := pc\<rparr>" by (rule arg_cong)
  then show "r\<lparr>cn_pc := pc\<rparr> = c\<lparr>cn_pc := pc\<rparr>" by simp
qed

lemma ra_follows_push:
  assumes step: "push_step (mq a, producers a ! k) (q', p')" and k: "k < length (producers a)"
    and sc: "mpmc_inv weight ranges counts a" and inv: "mra_inv weight ranges counts s (all_at_entry a)" and wf: "rm_wf s"
  shows "\<exists>s'. ra_mpmc_steps weight s s' \<and>
    mra_inv weight ranges counts s' (all_at_entry (a\<lparr>mq := q', producers := (producers a)[k := p']\<rparr>))"
proof -
  let ?p = "producers a ! k" and ?M = "rm_mem s"
  obtain V r where r: "rm_producers s ! k = (V, r)" by (cases "rm_producers s ! k")
  have len: "length (rm_producers s) = length (producers a)"
    using arg_cong [OF mra_invD(2) [OF inv], of length] by (simp add: all_at_entry_def)
  have kr: "k < length (rm_producers s)" using k len by simp
  have "at_entry r = at_entry ?p"
    using arg_cong [OF mra_invD(2) [OF inv], of "\<lambda>xs. xs ! k"] k kr r by (simp add: all_at_entry_def)
  note same = same_entry [OF this]
  note view = rm_wfD(2) [OF wf kr r]
  have looks: ?thesis if "q' = mq a" "p' = ?p\<lparr>pr_pc := pc\<rparr>" "push_claim (pr_pc ?p) = None" "push_claim pc = None" for pc
  proof -
    have "at_entry p' = at_entry ?p" unfolding that(2) by (rule at_entry_looks(1) [OF that(3,4)])
    then have "map at_entry ((producers a)[k := p']) = map at_entry (producers a)"
      using k by (simp add: map_update list_update_same_conv)
    then have "all_at_entry (a\<lparr>mq := q', producers := (producers a)[k := p']\<rparr>) = all_at_entry a"
      by (simp add: all_at_entry_def that(1))
    with inv show ?thesis by auto
  qed
  have entry: "all_at_entry (a\<lparr>mq := q', producers := (producers a)[k := p']\<rparr>) =
      (all_at_entry a)\<lparr>mq := q', producers := (producers (all_at_entry a))[k := p']\<rparr>" if "at_entry p' = p'"
    using that by (simp add: all_at_entry_def map_update)
  have one_step: ?thesis if "ra_mpmc_step weight s s'" "at_entry p' = p'" "mra_inv weight ranges counts s' b"
      "b = (all_at_entry a)\<lparr>mq := q', producers := (producers (all_at_entry a))[k := p']\<rparr>" for s' b
    unfolding entry [OF that(2)] using that(1,3,4) by blast
  from sc obtain log where ok: "queue_ok a log" by (auto simp: mpmc_inv_def)
  have okp: "mproducer_ok (mq a) log ?p" using queue_okD(3) [OF ok] k by simp
  have mq: "mq (all_at_entry a) = mq a" by (simp add: all_at_entry_def)
  from step show ?thesis
  proof cases
    case (push_reserve pos)
    have free: "sequence (mbuffer (mq a) ! slot (enqueue_pos (mq a))) = enqueue_pos (mq a)"
      using okp queue_okD(2) [OF ok] push_reserve(3,4) by (simp add: mproducer_ok_def slot_unat)
    have none: "push_claim (pr_pc ?p) = None" by (simp add: push_reserve(3) push_claim_def)
    have less: "pr_i ?p < pr_hi ?p" using okp push_reserve(3) by (simp add: mproducer_ok_def)
    have fixed: "at_entry p' = p'" by (simp add: push_reserve(2) push_claim_def)
    from can_reserve_push [OF inv wf kr r, unfolded mq same(2,3)] less same(1) none free same(5) [OF none] push_reserve(1,2,4)
    show ?thesis unfolding entry [OF fixed] by simp
  next
    case (push_write pos)
    then have pr: "r = ?p" by (intro same(4)) (simp add: push_claim_def)
    have pc: "pr_pc r = MPush_Write pos" using push_write(3) pr by simp
    obtain V' M' where store: "plain_store (Data_Cell (slot pos)) (pr_i r) (Suc (newest ?M (Data_Cell (slot pos)))) V ?M = Some (V', M')"
      using plain_possible(1) [OF view] by blast
    from ra_producer_moves [OF kr, of M' "(V', r\<lparr>pr_pc := MPush_Publish pos\<rparr>)" weight] ra_push_write [OF pc store] r
    have step1: "ra_mpmc_step weight s (s\<lparr>rm_mem := M', rm_producers := (rm_producers s)[k := (V', r\<lparr>pr_pc := MPush_Publish pos\<rparr>)]\<rparr>)" by simp
    have fixed: "at_entry p' = p'" by (simp add: push_write(2) push_claim_def)
    show ?thesis
      by (rule one_step [OF step1 fixed ra_write(2) [OF inv kr r pc store]]) (simp add: push_write(1,2) pr mq)
  next
    case (push_publish pos)
    then have pr: "r = ?p" by (intro same(4)) (simp add: push_claim_def)
    have pc: "pr_pc r = MPush_Publish pos" using push_publish(3) pr by simp
    obtain V' M' where store: "store_at Release (Seq_Cell (slot pos)) (pos + 1) (Suc (newest ?M (Seq_Cell (slot pos)))) V ?M = Some (V', M')"
      using plain_possible(3) [OF view] by blast
    from ra_producer_moves [OF kr, of M' "(V', r\<lparr>pr_pc := MPush_Enter, pr_i := pr_i r + 1\<rparr>)" weight] ra_push_publish [OF pc store] r
    have step1: "ra_mpmc_step weight s (s\<lparr>rm_mem := M', rm_producers := (rm_producers s)[k := (V', r\<lparr>pr_pc := MPush_Enter, pr_i := pr_i r + 1\<rparr>)]\<rparr>)" by simp
    have fixed: "at_entry p' = p'" by (simp add: push_publish(2) at_entry_start)
    show ?thesis
      by (rule one_step [OF step1 fixed ra_publish(2) [OF inv kr r pc store]]) (simp add: push_publish(1,2) pr mq)
  qed (rule looks, simp, simp, simp add: push_claim_def, simp add: push_claim_def)+
qed

lemma ra_follows_pop:
  assumes step: "pop_step weight (mq a, consumers a ! k) (q', c')" and k: "k < length (consumers a)"
    and sc: "mpmc_inv weight ranges counts a" and inv: "mra_inv weight ranges counts s (all_at_entry a)" and wf: "rm_wf s"
  shows "\<exists>s'. ra_mpmc_steps weight s s' \<and>
    mra_inv weight ranges counts s' (all_at_entry (a\<lparr>mq := q', consumers := (consumers a)[k := c']\<rparr>))"
proof -
  let ?c = "consumers a ! k" and ?M = "rm_mem s"
  obtain V r where r: "rm_consumers s ! k = (V, r)" by (cases "rm_consumers s ! k")
  have len: "length (rm_consumers s) = length (consumers a)"
    using arg_cong [OF mra_invD(3) [OF inv], of length] by (simp add: all_at_entry_def)
  have kr: "k < length (rm_consumers s)" using k len by simp
  have "cat_entry r = cat_entry ?c"
    using arg_cong [OF mra_invD(3) [OF inv], of "\<lambda>xs. xs ! k"] k kr r by (simp add: all_at_entry_def)
  note same = same_cat_entry [OF this]
  note view = rm_wfD(3) [OF wf kr r]
  have looks: ?thesis if "q' = mq a" "c' = ?c\<lparr>cn_pc := pc\<rparr>" "pop_claim (cn_pc ?c) = None" "pop_claim pc = None" for pc
  proof -
    have "cat_entry c' = cat_entry ?c" unfolding that(2) by (rule at_entry_looks(2) [OF that(3,4)])
    then have "map cat_entry ((consumers a)[k := c']) = map cat_entry (consumers a)"
      using k by (simp add: map_update list_update_same_conv)
    then have "all_at_entry (a\<lparr>mq := q', consumers := (consumers a)[k := c']\<rparr>) = all_at_entry a"
      by (simp add: all_at_entry_def that(1))
    with inv show ?thesis by auto
  qed
  have entry: "all_at_entry (a\<lparr>mq := q', consumers := (consumers a)[k := c']\<rparr>) =
      (all_at_entry a)\<lparr>mq := q', consumers := (consumers (all_at_entry a))[k := c']\<rparr>" if "cat_entry c' = c'"
    using that by (simp add: all_at_entry_def map_update)
  have one_step: ?thesis if "ra_mpmc_step weight s s'" "cat_entry c' = c'" "mra_inv weight ranges counts s' b"
      "b = (all_at_entry a)\<lparr>mq := q', consumers := (consumers (all_at_entry a))[k := c']\<rparr>" for s' b
    unfolding entry [OF that(2)] using that(1,3,4) by blast
  from sc obtain log where ok: "queue_ok a log" by (auto simp: mpmc_inv_def)
  have okc: "mconsumer_ok (mq a) (unat (dequeue_pos (mq a))) ?c" using queue_okD(4) [OF ok] k by simp
  have mq: "mq (all_at_entry a) = mq a" by (simp add: all_at_entry_def)
  from step show ?thesis
  proof cases
    case (pop_reserve pos)
    have full: "sequence (mbuffer (mq a) ! slot (dequeue_pos (mq a))) = dequeue_pos (mq a) + 1"
      using okc pop_reserve(3,4) by (simp add: mconsumer_ok_def slot_unat add.commute)
    have none: "pop_claim (cn_pc ?c) = None" by (simp add: pop_reserve(3) pop_claim_def)
    have less: "cn_i ?c < cn_count ?c" using okc pop_reserve(3) by (simp add: mconsumer_ok_def)
    have fixed: "cat_entry c' = c'" by (simp add: pop_reserve(2) pop_claim_def)
    from can_reserve_pop [OF inv wf kr r, unfolded mq same(2,3)] less same(1) none full same(5) [OF none] pop_reserve(1,2,4)
    show ?thesis unfolding entry [OF fixed] by simp
  next
    case (pop_read pos)
    then have cr: "r = ?c" by (intro same(4)) (simp add: pop_claim_def)
    have pc: "cn_pc r = MPop_Read pos" using pop_read(3) cr by simp
    obtain v V' M' where load: "plain_load (Data_Cell (slot pos)) (newest ?M (Data_Cell (slot pos))) V ?M = Some (v, V', M')"
      using plain_possible(2) [OF view] by blast
    from ra_consumer_moves [OF kr, of weight M' "(V', r\<lparr>cn_pc := MPop_Release pos v\<rparr>)"] ra_pop_read [OF pc load] r
    have step1: "ra_mpmc_step weight s (s\<lparr>rm_mem := M', rm_consumers := (rm_consumers s)[k := (V', r\<lparr>cn_pc := MPop_Release pos v\<rparr>)]\<rparr>)" by simp
    have fixed: "cat_entry c' = c'" by (simp add: pop_read(2) pop_claim_def)
    have v: "v = cdata (mbuffer (mq a) ! slot pos)"
    proof -
      from mra_invD(6) [OF inv kr] r pc have "covers ?M (Data_Cell (slot pos)) V" by (simp add: consumer_knows_def knows_cell_def)
      from plain_loadD(1) [OF load this mring_okD(3) [OF conjunct1 [OF mra_invD(4) [OF inv, unfolded ring_of_def]] slot_in_ring]]
      show ?thesis by (simp add: mq)
    qed
    show ?thesis
      by (rule one_step [OF step1 fixed ra_read(2) [OF inv kr r pc load]]) (simp add: pop_read(1,2) cr mq v)
  next
    case (pop_release pos v)
    then have cr: "r = ?c" by (intro same(4)) (simp add: pop_claim_def)
    have pc: "cn_pc r = MPop_Release pos v" using pop_release(3) cr by simp
    obtain V' M' where store: "store_at Release (Seq_Cell (slot pos)) (pos + kCapacity) (Suc (newest ?M (Seq_Cell (slot pos)))) V ?M = Some (V', M')"
      using plain_possible(3) [OF view] by blast
    from ra_consumer_moves [OF kr, of weight M' "(V', r\<lparr>cn_pc := MPop_Enter, cn_i := cn_i r + 1, cn_sum := cn_sum r + weight v\<rparr>)"]
      ra_pop_release [OF pc store, of weight] r
    have step1: "ra_mpmc_step weight s (s\<lparr>rm_mem := M', rm_consumers := (rm_consumers s)[k :=
        (V', r\<lparr>cn_pc := MPop_Enter, cn_i := cn_i r + 1, cn_sum := cn_sum r + weight v\<rparr>)]\<rparr>)" by simp
    have fixed: "cat_entry c' = c'" by (simp add: pop_release(2) at_entry_start)
    show ?thesis
      by (rule one_step [OF step1 fixed ra_release(2) [OF inv kr r pc store]]) (simp add: pop_release(1,2) cr mq)
  qed (rule looks, simp, simp, simp add: pop_claim_def, simp add: pop_claim_def)+
qed

lemma ra_follows:
  assumes "mpmc_steps weight a a'" "mpmc_inv weight ranges counts a"
    and "mra_inv weight ranges counts s (all_at_entry a)" "rm_wf s"
  shows "\<exists>s'. ra_mpmc_steps weight s s' \<and> mra_inv weight ranges counts s' (all_at_entry a')"
  using assms(1)
proof (induction rule: rtranclp_induct)
  case base
  then show ?case using assms(3) by blast
next
  case (step a1 a2)
  then obtain s1 where s1: "ra_mpmc_steps weight s s1" "mra_inv weight ranges counts s1 (all_at_entry a1)" by blast
  note sc = mpmc_inv_steps [OF step(1) assms(2)] and wf = rm_wf_steps [OF s1(1) assms(4)]
  from step(2) have "\<exists>s2. ra_mpmc_steps weight s1 s2 \<and> mra_inv weight ranges counts s2 (all_at_entry a2)"
  proof cases
    case (producer_moves k q' p')
    then show ?thesis using ra_follows_push [OF _ _ sc s1(2) wf] by blast
  next
    case (consumer_moves k q' c')
    then show ?thesis using ra_follows_pop [OF _ _ sc s1(2) wf] by blast
  qed
  with s1(1) show ?case by (meson rtranclp_trans)
qed

lemma mra_inv_at_entry: "mra_inv weight ranges counts s a \<Longrightarrow> all_at_entry a = a"
proof -
  assume inv: "mra_inv weight ranges counts s a"
  have "at_entry (at_entry p) = at_entry p" "cat_entry (cat_entry c) = cat_entry c" for p and c :: "'a mconsumer"
    by (simp_all add: at_entry_def cat_entry_def)
  then show "all_at_entry a = a"
    by (simp add: all_at_entry_def mra_invD(2,3) [OF inv] comp_def)
qed

lemma joined_back:
  assumes inv: "mra_inv weight ranges counts s (all_at_entry a)" and joined: "mpmc_joined a"
  shows "ra_mpmc_joined s"
proof -
  have p: "pr_pc p = MPush_Enter \<and> \<not> pr_i p < pr_hi p" if here: "(V, p) \<in> set (rm_producers s)" for V p
  proof -
    obtain k where k: "k < length (rm_producers s)" "rm_producers s ! k = (V, p)" using here by (auto simp: in_set_conv_nth)
    have "at_entry p \<in> set (map at_entry (producers a))"
      using here mra_invD(2) [OF inv] by (force simp: all_at_entry_def)
    then obtain x where "x \<in> set (producers a)" "at_entry p = at_entry x" by auto
    with joined same_entry(2,3) [of p x] have "\<not> pr_i p < pr_hi p" by (auto simp: mpmc_joined_def)
    with mra_invD(5) [OF inv k(1)] k(2) show ?thesis by (auto simp: producer_knows_def)
  qed
  have c: "cn_pc c = MPop_Enter \<and> \<not> cn_i c < cn_count c" if here: "(V, c) \<in> set (rm_consumers s)" for V c
  proof -
    obtain k where k: "k < length (rm_consumers s)" "rm_consumers s ! k = (V, c)" using here by (auto simp: in_set_conv_nth)
    have "cat_entry c \<in> set (map cat_entry (consumers a))"
      using here mra_invD(3) [OF inv] by (force simp: all_at_entry_def)
    then obtain x where "x \<in> set (consumers a)" "cat_entry c = cat_entry x" by auto
    with joined same_cat_entry(2,3) [of c x] have "\<not> cn_i c < cn_count c" by (auto simp: mpmc_joined_def)
    with mra_invD(6) [OF inv k(1)] k(2) show ?thesis by (auto simp: consumer_knows_def)
  qed
  from p c show ?thesis by (auto simp: ra_mpmc_joined_def)
qed

lemma ra_mpmc_finishes:
  assumes "length buf = 1024" "ranges_ok ranges" "sum_list (map unat counts) = sum_list (map range_size ranges)"
    and "ra_mpmc_steps weight (ra_mpmc_start buf ranges counts) s"
  shows "\<exists>s'. ra_mpmc_steps weight s s' \<and> ra_mpmc_joined s'"
proof -
  obtain a where a: "mpmc_steps weight (mpmc_start buf ranges counts) a" "mra_inv weight ranges counts s a"
    by (rule ra_mpmc_reachable [OF assms(1,2,4)])
  note inv = mra_invD(1) [OF a(2)]
  obtain a' where a': "mpmc_steps weight a a'" "mpmc_joined a'" using mpmc_finishes [OF inv assms(3)] by blast
  obtain s' where "ra_mpmc_steps weight s s'" "mra_inv weight ranges counts s' (all_at_entry a')"
    using ra_follows [OF a'(1) inv _ rm_wf_steps [OF assms(4) rm_wf_start]] a(2) mra_inv_at_entry [OF a(2)] by auto
  with joined_back [OF _ a'(2)] show ?thesis by blast
qed

text \<open>The checksum of \<open>main\<close>.\<close>

lemma joined_exit:
  assumes "length mem = 1024"
    and "ra_mpmc_steps (\<lambda>v. v) (ra_mpmc_start mem producer_ranges consumer_counts) s" "ra_mpmc_joined s"
  shows "ra_mpmc_exit s = 0"
proof -
  obtain a where a: "mpmc_steps (\<lambda>v. v) (mpmc_start mem producer_ranges consumer_counts) a"
    "mra_inv (\<lambda>v. v) producer_ranges consumer_counts s a"
    by (rule ra_mpmc_reachable [OF assms(1) main_args(1) assms(2)])
  note same = joined_same [OF conjunct1 [OF mra_inv_same_mpmc [OF a(2)]] assms(3)]
  have "fold (\<lambda>(V, c) sum. sum + cn_sum c) xs x = x + (\<Sum>(V, c)\<leftarrow>xs. cn_sum c)"
    for xs :: "(mpmc_loc view \<times> u64 mconsumer) list" and x
    by (induction xs arbitrary: x) (auto simp: add.assoc)
  with joined_checksum [OF mra_invD(1) [OF a(2)] same(1)] same(2) show ?thesis
    by (simp add: ra_mpmc_exit_def)
qed

section \<open>Properties\<close>

text \<open>
  C5: Many producers, many consumers, the memory orders of the code: whatever stale
  values the loads return and however often compare_exchange_weak fails, once all
  threads have returned the values popped are exactly the values pushed, each as often
  as it was pushed.
\<close>

theorem mpmc_delivers_exactly_once:
  assumes "length mem = 1024" "ranges_ok ranges"
    and "sum_list (map unat counts) = sum_list (map range_size ranges)"
    and "ra_mpmc_steps (\<lambda>v. {#v#}) (ra_mpmc_start mem ranges counts) s" "ra_mpmc_joined s"
  shows "(\<Sum>(V, c)\<leftarrow>rm_consumers s. cn_sum c) =
    mset (concat (map (\<lambda>r. map word_of_nat [unat (fst r)..<unat (snd r)]) ranges))"
proof -
  obtain a where a: "mpmc_steps (\<lambda>v. {#v#}) (mpmc_start mem ranges counts) a" "mra_inv (\<lambda>v. {#v#}) ranges counts s a"
    by (rule ra_mpmc_reachable [OF assms(1,2,4)])
  note same = joined_same [OF conjunct1 [OF mra_inv_same_mpmc [OF a(2)]] assms(5)]
  from joined_values [OF mra_invD(1) [OF a(2)] same(1) assms(3)] same(2) show ?thesis by simp
qed

theorem mpmc_delivers_exactly_once_witness:
  "\<exists>s. ra_mpmc_steps (\<lambda>v. {#v#}) (ra_mpmc_start (replicate 1024 \<lparr>sequence = 0, cdata = 0\<rparr>) [(0, 2), (7, 8)] [1, 2]) s \<and>
    ra_mpmc_joined s \<and> (\<Sum>(V, c)\<leftarrow>rm_consumers s. cn_sum c) = {#0, 1, 7#}"
proof -
  let ?mem = "replicate 1024 \<lparr>sequence = 0, cdata = 0\<rparr>"
  have args: "ranges_ok [(0, 2), (7, 8)]"
    "sum_list (map unat [1 :: u64, 2]) = sum_list (map range_size [(0, 2), (7, 8)])"
    by (simp_all add: ranges_ok_def range_size_def)
  obtain s where s: "ra_mpmc_steps (\<lambda>v. {#v#}) (ra_mpmc_start ?mem [(0, 2), (7, 8)] [1, 2]) s" "ra_mpmc_joined s"
    using ra_mpmc_finishes [OF _ args rtranclp.rtrancl_refl, of ?mem] by auto
  from mpmc_delivers_exactly_once [OF _ args s]
  have "(\<Sum>(V, c)\<leftarrow>rm_consumers s. cn_sum c) = {#0, 1, 7#}" by (simp del: mset_map mset_upt add: upt_rec)
  with s show ?thesis by blast
qed

text \<open>
  C16: With the memory orders of the code no run of any number of producers and
  consumers has a data race on the plain data of a cell, although the positions
  themselves are read and exchanged with relaxed order: the acquire load of the
  sequence number before the exchange is what orders the accesses.
\<close>

theorem mpmc_orderings_prevent_races:
  assumes "length mem = 1024" "ranges_ok ranges"
    and "ra_mpmc_steps weight (ra_mpmc_start mem ranges counts) s"
  shows "\<not> raced (rm_mem s)"
  using ra_mpmc_reachable [OF assms] mra_inv_same_mpmc by metis

theorem mpmc_orderings_prevent_races_witness:
  "\<exists>s. ra_mpmc_steps (\<lambda>v. v) (ra_mpmc_start (replicate 1024 \<lparr>sequence = 0, cdata = 0\<rparr>) [(0, 5), (5, 9)] [3, 6]) s \<and>
    ra_mpmc_joined s \<and> \<not> raced (rm_mem s)"
proof -
  let ?mem = "replicate 1024 \<lparr>sequence = 0, cdata = 0\<rparr>"
  have args: "ranges_ok [(0, 5), (5, 9)]"
    "sum_list (map unat [3 :: u64, 6]) = sum_list (map range_size [(0, 5), (5, 9)])"
    by (simp_all add: ranges_ok_def range_size_def)
  obtain s where s: "ra_mpmc_steps (\<lambda>v. v) (ra_mpmc_start ?mem [(0, 5), (5, 9)] [3, 6]) s" "ra_mpmc_joined s"
    using ra_mpmc_finishes [OF _ args rtranclp.rtrancl_refl, of ?mem] by auto
  from mpmc_orderings_prevent_races [OF _ args(1) s(1)] s show ?thesis by auto
qed

end
