(* ===== verification/Mpmc_Main.thy ===== *)
theory Mpmc_Main
  imports Mpmc_Progress Pinning
begin

text \<open>
  \<open>main\<close> of \<open>benchmarks/mpmc_queue.cpp\<close>: the threads, each of which first binds itself to its
  CPU with \<open>pin_to\<close>, run \<open>producer\<close> and \<open>consumer\<close> with the memory orders of the code; once all
  have been joined, the partial sums are added up. A thread that cannot be bound ends the
  process with status 1.
\<close>

section \<open>The code\<close>

datatype mpmc_thread = Producer_Thread nat | Consumer_Thread nat

text \<open>Producer \<open>p\<close> runs on CPU \<open>p\<close>, consumer \<open>c\<close> on the CPU \<open>c\<close> behind those of the producers.\<close>

fun mpmc_cpu :: "nat \<Rightarrow> mpmc_thread \<Rightarrow> int" where
  "mpmc_cpu producer_count (Producer_Thread p) = int p"
| "mpmc_cpu producer_count (Consumer_Thread c) = int producer_count + int c"

definition mpmc_threads :: "'a ra_mpmc \<Rightarrow> mpmc_thread list" where
  "mpmc_threads s =
     map Producer_Thread [0..<length (rm_producers s)] @ map Consumer_Thread [0..<length (rm_consumers s)]"

type_synonym 'a mpmc_process = "(mpmc_thread, 'a ra_mpmc) pinned"

inductive mpmc_main_step ::
  "(int \<Rightarrow> bool) \<Rightarrow> (u64 \<Rightarrow> 'a) \<Rightarrow> 'a::cancel_comm_monoid_add mpmc_process \<Rightarrow> 'a mpmc_process \<Rightarrow> bool"
  for affinity weight where
  main_binds: "\<not> px_exited p \<Longrightarrow> t \<in> set (mpmc_threads (px_state p)) \<Longrightarrow> t \<notin> set (bound_threads p) \<Longrightarrow>
    mpmc_main_step affinity weight p (pin_to affinity (mpmc_cpu (length (rm_producers (px_state p))) t) t p)"
| main_produces: "\<not> px_exited p \<Longrightarrow> Producer_Thread k \<in> set (bound_threads p) \<Longrightarrow>
    px_state p = s \<Longrightarrow> k < length (rm_producers s) \<Longrightarrow>
    ra_push_step (rm_mem s, rm_producers s ! k) (M', pr') \<Longrightarrow>
    mpmc_main_step affinity weight p
      (p\<lparr>px_state := s\<lparr>rm_mem := M', rm_producers := (rm_producers s)[k := pr']\<rparr>\<rparr>)"
| main_consumes: "\<not> px_exited p \<Longrightarrow> Consumer_Thread k \<in> set (bound_threads p) \<Longrightarrow>
    px_state p = s \<Longrightarrow> k < length (rm_consumers s) \<Longrightarrow>
    ra_pop_step weight (rm_mem s, rm_consumers s ! k) (M', cn') \<Longrightarrow>
    mpmc_main_step affinity weight p
      (p\<lparr>px_state := s\<lparr>rm_mem := M', rm_consumers := (rm_consumers s)[k := cn']\<rparr>\<rparr>)"

abbreviation mpmc_main_steps ::
  "(int \<Rightarrow> bool) \<Rightarrow> (u64 \<Rightarrow> 'a) \<Rightarrow> 'a::cancel_comm_monoid_add mpmc_process \<Rightarrow> 'a mpmc_process \<Rightarrow> bool" where
  "mpmc_main_steps affinity weight \<equiv> (mpmc_main_step affinity weight)\<^sup>*\<^sup>*"

definition mpmc_main_start :: "cell list \<Rightarrow> (u64 \<times> u64) list \<Rightarrow> u64 list \<Rightarrow> 'a::cancel_comm_monoid_add mpmc_process" where
  "mpmc_main_start mem ranges counts = pinned_start (ra_mpmc_start mem ranges counts)"

text \<open>All threads have been joined: each was bound and has returned.\<close>

definition mpmc_main_joined :: "'a mpmc_process \<Rightarrow> bool" where
  "mpmc_main_joined p \<longleftrightarrow>
     \<not> px_exited p \<and> set (mpmc_threads (px_state p)) \<subseteq> set (bound_threads p) \<and> ra_mpmc_joined (px_state p)"

text \<open>The exit status, once there is one.\<close>

definition mpmc_main_exit :: "u64 mpmc_process \<Rightarrow> int option" where
  "mpmc_main_exit p =
     (if px_exited p then Some 1
      else if mpmc_main_joined p then Some (ra_mpmc_exit (px_state p))
      else None)"

section \<open>What the process does to the queue\<close>

text \<open>Binding a thread leaves the queue alone; the rest is a run of the queue.\<close>

lemma pin_to_simps [simp]:
  "px_state (pin_to affinity cpu t p) = px_state p"
  "px_exited (pin_to affinity cpu t p) \<longleftrightarrow> px_exited p \<or> \<not> affinity cpu"
  "bound_threads (pin_to affinity cpu t p) = (if affinity cpu then t # bound_threads p else bound_threads p)"
  by (simp_all add: pin_to_def)

lemma main_step_state:
  "mpmc_main_step affinity weight p q \<Longrightarrow> (ra_mpmc_step weight)\<^sup>=\<^sup>= (px_state p) (px_state q)"
  by (induction rule: mpmc_main_step.induct) (auto intro: ra_mpmc_step.intros)

lemma main_run_state:
  "mpmc_main_steps affinity weight p q \<Longrightarrow> ra_mpmc_steps weight (px_state p) (px_state q)"
proof (induction rule: rtranclp_induct)
  case (step q r)
  from main_step_state [OF step.hyps(2)] have "ra_mpmc_steps weight (px_state q) (px_state r)" by auto
  with step.IH show ?case by (rule rtranclp_trans)
qed simp

section \<open>Which threads are bound\<close>

definition bindable :: "(int \<Rightarrow> bool) \<Rightarrow> nat \<Rightarrow> bool" where
  "bindable affinity n \<longleftrightarrow> (\<forall>cpu\<in>{0..<int n}. affinity cpu)"

definition main_ok :: "(int \<Rightarrow> bool) \<Rightarrow> nat \<Rightarrow> nat \<Rightarrow> 'a mpmc_process \<Rightarrow> bool" where
  "main_ok affinity np nc p \<longleftrightarrow>
     length (rm_producers (px_state p)) = np \<and> length (rm_consumers (px_state p)) = nc \<and>
     bound_ok affinity (mpmc_cpu np) p \<and> (px_exited p \<longrightarrow> \<not> bindable affinity (np + nc))"

lemma main_okD:
  assumes "main_ok affinity np nc p"
  shows "length (rm_producers (px_state p)) = np" "length (rm_consumers (px_state p)) = nc"
    and "t \<in> set (bound_threads p) \<Longrightarrow> affinity (mpmc_cpu np t)"
    and "px_exited p \<Longrightarrow> \<not> bindable affinity (np + nc)"
  using assms by (simp_all add: main_ok_def bound_ok_def)

lemma set_mpmc_threads:
  "set (mpmc_threads s) = Producer_Thread ` {..<length (rm_producers s)} \<union> Consumer_Thread ` {..<length (rm_consumers s)}"
  by (simp add: mpmc_threads_def lessThan_atLeast0)

text \<open>The CPUs of the threads are \<open>0\<close> up to their number.\<close>

lemma cpus_of_threads:
  assumes "length (rm_producers s) = np" "length (rm_consumers s) = nc"
  shows "mpmc_cpu np ` set (mpmc_threads s) = {0..<int (np + nc)}"
proof
  show "mpmc_cpu np ` set (mpmc_threads s) \<subseteq> {0..<int (np + nc)}"
    using assms by (auto simp: set_mpmc_threads)
  show "{0..<int (np + nc)} \<subseteq> mpmc_cpu np ` set (mpmc_threads s)"
  proof
    fix cpu assume cpu: "cpu \<in> {0..<int (np + nc)}"
    show "cpu \<in> mpmc_cpu np ` set (mpmc_threads s)"
    proof (cases "cpu < int np")
      case True
      with cpu assms(1) show ?thesis
        by (intro image_eqI [of _ _ "Producer_Thread (nat cpu)"]) (auto simp: set_mpmc_threads)
    next
      case False
      with cpu assms(2) show ?thesis
        by (intro image_eqI [of _ _ "Consumer_Thread (nat cpu - np)"]) (auto simp: set_mpmc_threads)
    qed
  qed
qed

lemma bindable_threads:
  assumes "main_ok affinity np nc p"
  shows "bindable affinity (np + nc) \<longleftrightarrow> (\<forall>t\<in>set (mpmc_threads (px_state p)). affinity (mpmc_cpu np t))"
  unfolding bindable_def cpus_of_threads [OF main_okD(1,2) [OF assms], symmetric] by simp

lemma main_ok_start: "main_ok affinity (length ranges) (length counts) (mpmc_main_start mem ranges counts)"
  by (simp add: main_ok_def mpmc_main_start_def pinned_start_def ra_mpmc_start_def bound_ok_def)

lemma main_ok_step:
  assumes "mpmc_main_step affinity weight p q" "main_ok affinity np nc p"
  shows "main_ok affinity np nc q"
  using assms
proof cases
  case (main_binds t)
  with assms(2) bindable_threads [OF assms(2)] show ?thesis
    by (auto simp: main_ok_def bound_ok_def)
qed (use assms(2) in \<open>simp_all add: main_ok_def bound_ok_def\<close>)

lemma main_ok_steps:
  "mpmc_main_steps affinity weight p q \<Longrightarrow> main_ok affinity np nc p \<Longrightarrow> main_ok affinity np nc q"
  by (induction rule: rtranclp_induct) (auto intro: main_ok_step)

section \<open>The process can go on\<close>

lemma can_bind_all:
  assumes "main_ok affinity np nc p" "bindable affinity (np + nc)"
  shows "\<exists>q. mpmc_main_steps affinity weight p q \<and> px_state q = px_state p \<and> \<not> px_exited q \<and>
    set (mpmc_threads (px_state q)) \<subseteq> set (bound_threads q)"
  using assms(1)
proof (induction "card (set (mpmc_threads (px_state p)) - set (bound_threads p))" arbitrary: p rule: less_induct)
  case (less p)
  have running: "\<not> px_exited p" using main_okD(4) [OF less.prems] assms(2) by blast
  show ?case
  proof (cases "set (mpmc_threads (px_state p)) \<subseteq> set (bound_threads p)")
    case True
    with running show ?thesis by blast
  next
    case False
    then obtain t where t: "t \<in> set (mpmc_threads (px_state p))" "t \<notin> set (bound_threads p)" by blast
    let ?q = "pin_to affinity (mpmc_cpu np t) t p"
    have step: "mpmc_main_step affinity weight p ?q"
      using main_binds [OF running t] main_okD(1) [OF less.prems] by simp
    have "affinity (mpmc_cpu np t)" using bindable_threads [OF less.prems] assms(2) t(1) by blast
    then have "card (set (mpmc_threads (px_state ?q)) - set (bound_threads ?q)) <
        card (set (mpmc_threads (px_state p)) - set (bound_threads p))"
      using t by (intro psubset_card_mono) auto
    from less.hyps [OF this main_ok_step [OF step less.prems]] obtain q
      where "mpmc_main_steps affinity weight ?q q" "px_state q = px_state p" "\<not> px_exited q"
        "set (mpmc_threads (px_state q)) \<subseteq> set (bound_threads q)" by auto
    with converse_rtranclp_into_rtranclp [of "mpmc_main_step affinity weight", OF step] show ?thesis by blast
  qed
qed

text \<open>Once all threads are bound, a run of the queue is a run of the process.\<close>

lemma bound_process_runs:
  assumes "ra_mpmc_steps weight (px_state p) s" "\<not> px_exited p"
    and "set (mpmc_threads (px_state p)) \<subseteq> set (bound_threads p)"
  shows "mpmc_main_steps affinity weight p (p\<lparr>px_state := s\<rparr>) \<and> mpmc_threads s = mpmc_threads (px_state p)"
  using assms(1)
proof (induction rule: rtranclp_induct)
  case base
  then show ?case by simp
next
  case (step s s')
  let ?p = "p\<lparr>px_state := s\<rparr>"
  have bound: "set (mpmc_threads s) \<subseteq> set (bound_threads ?p)" using step.IH assms(3) by simp
  from step.hyps(2) have "mpmc_main_step affinity weight ?p (p\<lparr>px_state := s'\<rparr>) \<and> mpmc_threads s' = mpmc_threads s"
  proof cases
    case (ra_producer_moves k M' pr')
    then have "Producer_Thread k \<in> set (bound_threads ?p)" using bound by (auto simp: set_mpmc_threads)
    with main_produces [of ?p k s M' pr' affinity weight] ra_producer_moves assms(2)
    show ?thesis by (simp add: mpmc_threads_def)
  next
    case (ra_consumer_moves k M' cn')
    then have "Consumer_Thread k \<in> set (bound_threads ?p)" using bound by (auto simp: set_mpmc_threads)
    with main_consumes [of ?p k s weight M' cn' affinity] ra_consumer_moves assms(2)
    show ?thesis by (simp add: mpmc_threads_def)
  qed
  with step.IH show ?case by auto
qed

lemma mpmc_process_ends:
  assumes "length mem = 1024" "ranges_ok ranges" "sum_list (map unat counts) = sum_list (map range_size ranges)"
    and "mpmc_main_steps affinity weight (mpmc_main_start mem ranges counts) p"
  shows "\<exists>q. mpmc_main_steps affinity weight p q \<and>
    (if bindable affinity (length ranges + length counts) then mpmc_main_joined q else px_exited q)"
proof -
  note ok = main_ok_steps [OF assms(4) main_ok_start]
  show ?thesis
  proof (cases "bindable affinity (length ranges + length counts)")
    case True
    obtain q where q: "mpmc_main_steps affinity weight p q" "px_state q = px_state p" "\<not> px_exited q"
      "set (mpmc_threads (px_state q)) \<subseteq> set (bound_threads q)"
      using can_bind_all [OF ok True] by blast
    have "ra_mpmc_steps weight (ra_mpmc_start mem ranges counts) (px_state q)"
      using main_run_state [OF assms(4)] q(2) by (simp add: mpmc_main_start_def pinned_start_def)
    then obtain s where s: "ra_mpmc_steps weight (px_state q) s" "ra_mpmc_joined s"
      using ra_mpmc_finishes [OF assms(1-3)] by blast
    note run = bound_process_runs [OF s(1) q(3,4), of affinity]
    then have "mpmc_main_joined (q\<lparr>px_state := s\<rparr>)" using q(3,4) s(2) by (simp add: mpmc_main_joined_def)
    with rtranclp_trans [OF q(1) conjunct1 [OF run]] True show ?thesis by auto
  next
    case refused: False
    show ?thesis
    proof (cases "px_exited p")
      case False
      obtain t where t: "t \<in> set (mpmc_threads (px_state p))" "\<not> affinity (mpmc_cpu (length ranges) t)"
        using refused bindable_threads [OF ok] by blast
      then have "t \<notin> set (bound_threads p)" using main_okD(3) [OF ok] by blast
      from main_binds [OF False t(1) this, of affinity weight] t(2) main_okD(1) [OF ok]
      have "mpmc_main_step affinity weight p (pin_to affinity (mpmc_cpu (length ranges) t) t p)"
        "px_exited (pin_to affinity (mpmc_cpu (length ranges) t) t p)" by simp_all
      with refused show ?thesis by auto
    qed (use refused in auto)
  qed
qed

section \<open>Properties\<close>

text \<open>
  C30: In every run of mpmc_queue.cpp with the memory orders of the code: if main ends,
  it ends with status 0 and the checksum N (N - 1) / 2 when the CPUs 0 to 3 of its
  threads can be bound, and with status 1 otherwise.
\<close>

theorem mpmc_main_succeeds:
  assumes "length mem = 1024"
    and "mpmc_main_steps affinity (\<lambda>v. v) (mpmc_main_start mem producer_ranges consumer_counts) p"
    and "mpmc_main_exit p = Some status"
  shows "status = (if \<forall>cpu\<in>{0..<4}. affinity cpu then 0 else 1)"
proof -
  have counts: "length producer_ranges + length consumer_counts = 4" by (simp add: producer_ranges consumer_counts)
  note ok = main_ok_steps [OF assms(2) main_ok_start]
  show ?thesis
  proof (cases "px_exited p")
    case True
    with main_okD(4) [OF ok] counts assms(3) show ?thesis by (auto simp: mpmc_main_exit_def bindable_def)
  next
    case False
    with assms(3) have joined: "mpmc_main_joined p" "status = ra_mpmc_exit (px_state p)"
      by (auto simp: mpmc_main_exit_def split: if_splits)
    then have "bindable affinity 4"
      using bindable_threads [OF ok, unfolded counts] main_okD(3) [OF ok] by (auto simp: mpmc_main_joined_def)
    moreover have "ra_mpmc_exit (px_state p) = 0"
      using main_run_state [OF assms(2)] joined(1)
      by (intro joined_exit [OF assms(1)]) (auto simp: mpmc_main_start_def pinned_start_def mpmc_main_joined_def)
    ultimately show ?thesis using joined(2) by (simp add: bindable_def)
  qed
qed

theorem mpmc_main_succeeds_witness:
  "\<exists>p. mpmc_main_steps (\<lambda>cpu. cpu < 12) (\<lambda>v. v)
      (mpmc_main_start (replicate 1024 \<lparr>sequence = 0, cdata = 0\<rparr>) producer_ranges consumer_counts) p \<and>
    mpmc_main_exit p = Some 0"
proof -
  let ?mem = "replicate 1024 \<lparr>sequence = 0, cdata = 0\<rparr>"
  obtain p where p: "mpmc_main_steps (\<lambda>cpu. cpu < 12) (\<lambda>v. v) (mpmc_main_start ?mem producer_ranges consumer_counts) p"
    "mpmc_main_joined p"
    using mpmc_process_ends [OF _ main_args rtranclp.rtrancl_refl, of ?mem "\<lambda>cpu. cpu < 12" "\<lambda>v. v"]
    by (auto simp: bindable_def producer_ranges consumer_counts)
  then have "mpmc_main_exit p = Some (ra_mpmc_exit (px_state p))" by (simp add: mpmc_main_exit_def mpmc_main_joined_def)
  with mpmc_main_succeeds [OF _ p(1) this] p(1) show ?thesis by auto
qed

text \<open>
  C31: No reachable state of the program is a dead end, whatever old values its threads
  have seen: if the CPUs of the threads can be bound, all of them can still be bound
  and return; otherwise the process can still exit in pin_to.
\<close>

theorem mpmc_can_always_finish:
  assumes "length mem = 1024" "ranges_ok ranges"
    and "sum_list (map unat counts) = sum_list (map range_size ranges)"
    and "mpmc_main_steps affinity weight (mpmc_main_start mem ranges counts) p"
  shows "\<exists>q. mpmc_main_steps affinity weight p q \<and>
    (if bindable affinity (length ranges + length counts) then mpmc_main_joined q else px_exited q)"
  by (rule mpmc_process_ends [OF assms])

theorem mpmc_can_always_finish_witness:
  "\<exists>q. mpmc_main_steps (\<lambda>cpu. cpu \<noteq> 3) (\<lambda>v. v)
      (mpmc_main_start (replicate 1024 \<lparr>sequence = 0, cdata = 0\<rparr>) producer_ranges consumer_counts) q \<and>
    px_exited q"
  using mpmc_can_always_finish [OF _ main_args rtranclp.rtrancl_refl,
      of "replicate 1024 \<lparr>sequence = 0, cdata = 0\<rparr>" "\<lambda>cpu. cpu \<noteq> 3" "\<lambda>v. v"]
  by (auto simp: bindable_def producer_ranges consumer_counts)

end
