(* ===== verification/Queue_Latency.thy ===== *)
theory Queue_Latency
  imports Spsc_Orderings Percentiles
begin

text \<open>
  The open-loop latency harness of \<open>benchmarks/queue_latency.cpp\<close>. It runs the queue of
  \<open>Spsc_Orderings\<close> (its \<open>push\<close> and \<open>pop\<close> make the same accesses with the same memory orders) with the
  intended send times as payload; a wait for the clock is time in which the scheduler does
  not run the producer. The times at which the consumer receives the items are a
  parameter.
\<close>

section \<open>The code\<close>

definition kOps :: u64 where "kOps = 2000000"

definition kTargetRateHz :: real where "kTargetRateHz = 500000"

definition kIntervalNs :: u64 where
  "kIntervalNs = word_of_nat (nat \<lfloor>10 ^ 9 / kTargetRateHz + 0.5\<rfloor>)"

definition kSamples :: u64 where "kSamples = 100000"

text \<open>\<open>clock k\<close> is the \<open>k\<close>-th reading of the clock: one before and one after the loop.\<close>

definition measure_timer_overhead_ns :: "(nat \<Rightarrow> u64) \<Rightarrow> u64" where
  "measure_timer_overhead_ns clock = (clock (Suc (unat kSamples)) - clock 0) div kSamples"

definition intended_send :: "u64 \<Rightarrow> u64 \<Rightarrow> u64" where
  "intended_send start_ns i = start_ns + i * kIntervalNs"

text \<open>\<open>latencies_ns[i] = static_cast<int64_t>(received - intended_send)\<close>.\<close>

definition record_latency :: "(u64 \<Rightarrow> u64) \<Rightarrow> u64 \<Rightarrow> u64 \<Rightarrow> int list \<Rightarrow> int list" where
  "record_latency received i intended latencies =
     latencies[unat i := sint (received i - intended)]"

definition latency_client :: "u64 \<Rightarrow> (u64 \<Rightarrow> u64) \<Rightarrow> int list client" where
  "latency_client start_ns received =
     \<lparr>total = kOps, payload = intended_send start_ns, consume = record_latency received\<rparr>"

record percentiles =
  p50 :: int
  p99 :: int
  p999 :: int
  p9999 :: int
  p_max :: int

definition compute_percentiles :: "int list \<Rightarrow> percentiles" where
  "compute_percentiles latencies =
     (let ls = sort_by (<) latencies; at_q = quantile_at ls
      in \<lparr>p50 = at_q 0.5, p99 = at_q 0.99, p999 = at_q 0.999, p9999 = at_q 0.9999, p_max = last ls\<rparr>)"

text \<open>\<open>main\<close>: the percentiles that are printed, once both threads have joined.\<close>

definition latency_main ::
  "(int \<Rightarrow> bool) \<Rightarrow> cell list \<Rightarrow> u64 \<Rightarrow> (u64 \<Rightarrow> u64) \<Rightarrow> (thread \<times> pick) list \<Rightarrow> (int + percentiles) option" where
  "latency_main affinity mem start_ns received choices =
     (let cl = latency_client start_ns received;
          p = run (\<lambda>c. pinned_step affinity thread_cpu (\<lambda>_. ra_step cl c) (fst c)) choices
                (pinned_start (ra_start mem (replicate (unat kOps) 0)))
      in if px_exited p then Some (Inl 1)
         else if ra_joined cl (px_state p) then Some (Inr (compute_percentiles (rc_acc (px_state p))))
         else None)"

section \<open>What is measured\<close>

definition schedule_latencies :: "u64 \<Rightarrow> (u64 \<Rightarrow> u64) \<Rightarrow> nat \<Rightarrow> int list" where
  "schedule_latencies start_ns received n =
     map (\<lambda>i. sint (received (word_of_nat i) - (start_ns + word_of_nat i * 2000))) [0..<n]"

lemma kIntervalNs: "kIntervalNs = 2000"
proof -
  have a: "10 ^ 9 / kTargetRateHz + 0.5 = 2000.5" by (simp add: kTargetRateHz_def)
  have b: "\<lfloor>2000.5 :: real\<rfloor> = 2000" by (simp add: floor_eq_iff)
  show ?thesis unfolding kIntervalNs_def a b by simp
qed

lemma kOps_nat: "unat kOps = 2000000"
  by (simp add: kOps_def)

lemma consumed_latencies:
  "n \<le> unat kOps \<Longrightarrow> consumed (latency_client start_ns received) (replicate (unat kOps) 0) n =
     schedule_latencies start_ns received n @ replicate (unat kOps - n) 0"
proof (induction n)
  case 0
  then show ?case by (simp add: consumed_def schedule_latencies_def)
next
  case (Suc n)
  then have "unat (word_of_nat n :: u64) = n" by (simp add: kOps_nat unat_of_nat)
  moreover have "replicate (unat kOps - n) (0 :: int) = 0 # replicate (unat kOps - Suc n) 0"
    using Suc.prems by (simp add: Suc_diff_Suc flip: replicate_Suc)
  ultimately show ?case
    using Suc by (simp add: consumed_Suc latency_client_def record_latency_def schedule_latencies_def
        intended_send_def kIntervalNs list_update_append)
qed

text \<open>
  C32: Under every schedule with enough rounds of up-to-date accesses the harness ends;
  if both threads could be bound to their CPUs, the latency of item i is measured from
  start + 2000 i, however late the item was pushed: the load is open loop, without
  coordinated omission.
\<close>

theorem latencies_follow_the_schedule:
  assumes "length mem = 1024" "fair_rounds UNIV (Suc (10 * unat kOps)) (up_to_date choices)"
  shows "latency_main affinity mem start_ns received choices = Some
    (if affinity 0 \<and> affinity 1 then Inr (compute_percentiles (schedule_latencies start_ns received 2000000)) else Inl 1)"
proof -
  let ?cl = "latency_client start_ns received" and ?acc = "replicate (unat kOps) (0 :: int)"
  have total: "total ?cl = kOps" by (simp add: latency_client_def)
  then have bound: "unat (total ?cl) + 1024 \<le> 2 ^ 64" by (simp add: kOps_nat)
  note outcome = ra_bound_threads_join [OF assms(1) bound, of choices affinity ?acc, unfolded total, OF assms(2)]
  then show ?thesis
    using consumed_latencies [of "unat kOps" start_ns received] by (simp add: latency_main_def Let_def kOps_nat)
qed

theorem latencies_follow_the_schedule_witness:
  "latency_main (\<lambda>cpu. cpu < 12) (replicate 1024 \<lparr>sequence = 0, cdata = 0\<rparr>) 5 (\<lambda>i. 100 + i * 2000)
     (turns (Suc (10 * unat kOps))) =
   Some (Inr (compute_percentiles (schedule_latencies 5 (\<lambda>i. 100 + i * 2000) 2000000)))"
  using latencies_follow_the_schedule [OF _ fair_turns, of "replicate 1024 \<lparr>sequence = 0, cdata = 0\<rparr>" "\<lambda>cpu. cpu < 12" 5
      "\<lambda>i. 100 + i * 2000"] by simp

text \<open>
  C33: Each reported percentile q has at most a fraction q of the samples below it and
  more than that fraction up to it; the percentiles are increasing and the last one is
  the maximum.
\<close>

theorem percentiles_split_the_samples:
  assumes "latencies \<noteq> []"
  shows "let p = compute_percentiles latencies; n = real (length latencies);
             below = (\<lambda>x. real (length (filter (\<lambda>l. l < x) latencies)));
             up_to = (\<lambda>x. real (length (filter (\<lambda>l. l \<le> x) latencies))) in
    below (p50 p) \<le> 0.5 * n \<and> 0.5 * n < up_to (p50 p) \<and>
    below (p99 p) \<le> 0.99 * n \<and> 0.99 * n < up_to (p99 p) \<and>
    below (p999 p) \<le> 0.999 * n \<and> 0.999 * n < up_to (p999 p) \<and>
    below (p9999 p) \<le> 0.9999 * n \<and> 0.9999 * n < up_to (p9999 p) \<and>
    p50 p \<le> p99 p \<and> p99 p \<le> p999 p \<and> p999 p \<le> p9999 p \<and> p9999 p \<le> p_max p \<and>
    p_max p = Max (set latencies)"
proof -
  show ?thesis
    unfolding Let_def compute_percentiles_def percentiles.simps
    by (intro conjI quantile_splits quantile_mono quantile_le_last last_sort_by assms) simp_all
qed

theorem percentiles_split_the_samples_witness:
  "real (length (filter (\<lambda>l. l \<le> p50 (compute_percentiles [30, 10, 20])) [30, 10, 20 :: int])) > 0.5 * 3"
  using percentiles_split_the_samples [of "[30, 10, 20]"] unfolding Let_def
  by (simp only: list.size One_nat_def) simp

end
