(* ===== verification/Struct_Layout.thy ===== *)
theory Struct_Layout
  imports Prelude
begin

text \<open>
  The memory layouts the benchmarks are about: the C++ structs \<open>Queue\<close> (shared and padded
  builds of \<open>spsc_queue.cpp\<close> and \<open>mpmc_queue.cpp\<close>), \<open>Counters\<close> of
  \<open>p4_false_sharing.cpp\<close> and \<open>Node\<close> of \<open>pointer_chase.cpp\<close>, laid out by the rules of the
  x86-64 ABI.
\<close>

section \<open>Layout of a struct\<close>

record member =
  m_size :: nat
  m_align :: nat

definition round_up :: "nat \<Rightarrow> nat \<Rightarrow> nat" where
  "round_up a n = (n + a - 1) div a * a"

text \<open>Each member goes to the next offset that its alignment allows.\<close>

fun member_offsets :: "nat \<Rightarrow> member list \<Rightarrow> nat list" where
  "member_offsets off [] = []"
| "member_offsets off (m # ms) =
     (let o' = round_up (m_align m) off in o' # member_offsets (o' + m_size m) ms)"

fun members_end :: "nat \<Rightarrow> member list \<Rightarrow> nat" where
  "members_end off [] = off"
| "members_end off (m # ms) = members_end (round_up (m_align m) off + m_size m) ms"

definition struct_align :: "member list \<Rightarrow> nat" where
  "struct_align ms = fold (max \<circ> m_align) ms 1"

definition struct_size :: "member list \<Rightarrow> nat" where
  "struct_size ms = round_up (struct_align ms) (members_end 0 ms)"

definition offsetof :: "member list \<Rightarrow> nat \<Rightarrow> nat" where
  "offsetof ms k = member_offsets 0 ms ! k"

section \<open>The structs\<close>

definition scalar :: "nat \<Rightarrow> member" where "scalar n = \<lparr>m_size = n, m_align = n\<rparr>"
definition chars :: "nat \<Rightarrow> member" where "chars n = \<lparr>m_size = n, m_align = 1\<rparr>"
definition alignas64 :: "member \<Rightarrow> member" where "alignas64 m = m\<lparr>m_align := 64\<rparr>"
definition array_of :: "nat \<Rightarrow> member list \<Rightarrow> member" where
  "array_of n ms = \<lparr>m_size = n * struct_size ms, m_align = struct_align ms\<rparr>"

definition Cell_members :: "member list" where "Cell_members = [scalar 8, scalar 8]"

text \<open>\<open>CACHELENS_PAD_INDICES\<close> selects the build. Members: buffer, tail, (pad,) head (, pad).\<close>

definition spsc_Queue_members :: "bool \<Rightarrow> member list" where
  "spsc_Queue_members padded =
     (if padded
      then [array_of 1024 Cell_members, alignas64 (scalar 8), chars (64 - 8), alignas64 (scalar 8), chars (64 - 8)]
      else [array_of 1024 Cell_members, scalar 8, scalar 8])"

definition spsc_tail_member :: nat where "spsc_tail_member = 1"

definition spsc_head_member :: "bool \<Rightarrow> nat" where
  "spsc_head_member padded = (if padded then 3 else 2)"

definition mpmc_Queue_members :: "bool \<Rightarrow> member list" where
  "mpmc_Queue_members padded =
     (if padded
      then [array_of 1024 Cell_members, alignas64 (scalar 8), alignas64 (scalar 8)]
      else [array_of 1024 Cell_members, scalar 8, scalar 8])"

definition Counters_members :: "bool \<Rightarrow> member list" where
  "Counters_members padded =
     (if padded then [alignas64 (scalar 8), alignas64 (scalar 8)] else [scalar 8, scalar 8])"

text \<open>The \<open>static_assert\<close> of the probe on the build that was asked for.\<close>

definition Counters_static_assert :: "bool \<Rightarrow> bool" where
  "Counters_static_assert padded \<longleftrightarrow>
     (let distance = offsetof (Counters_members padded) 1 - offsetof (Counters_members padded) 0
      in if padded then 64 \<le> distance else distance < 64)"

text \<open>\<open>value\<close>, \<open>next\<close>, \<open>pad[64 - sizeof(int) - sizeof(Node*)]\<close>.\<close>

definition Node_members :: "member list" where
  "Node_members = [scalar 4, scalar 8, chars (64 - 4 - 8)]"

text \<open>The 64-byte cache line of an address.\<close>

definition cache_line :: "nat \<Rightarrow> nat" where "cache_line a = a div 64"

section \<open>Layout rules\<close>

lemma round_up_ge: "0 < a \<Longrightarrow> n \<le> round_up a n"
proof -
  assume a: "0 < a"
  have "n + a - 1 = (n + a - 1) div a * a + (n + a - 1) mod a" by simp
  moreover have "(n + a - 1) mod a < a" using a by simp
  ultimately show ?thesis unfolding round_up_def using a by linarith
qed

lemma round_up_dvd: "a dvd round_up a n"
  by (simp add: round_up_def)

lemma offsets_aligned: "k < length ms \<Longrightarrow> m_align (ms ! k) dvd member_offsets off ms ! k"
proof (induction off ms arbitrary: k rule: member_offsets.induct)
  case (2 off m ms)
  then show ?case by (cases k) (simp_all add: Let_def round_up_dvd)
qed simp

lemma offsets_ge:
  "\<forall>m\<in>set ms. 0 < m_align m \<Longrightarrow> k < length ms \<Longrightarrow> off \<le> member_offsets off ms ! k"
proof (induction off ms arbitrary: k rule: member_offsets.induct)
  case (2 off m ms)
  have up: "off \<le> round_up (m_align m) off" using 2(2) by (simp add: round_up_ge)
  show ?case
  proof (cases k)
    case (Suc k')
    with 2 have "round_up (m_align m) off + m_size m \<le>
        member_offsets (round_up (m_align m) off + m_size m) ms ! k'" by simp
    with up Suc show ?thesis by (simp add: Let_def)
  qed (simp add: up Let_def)
qed simp

lemma offsets_disjoint:
  "\<forall>m\<in>set ms. 0 < m_align m \<Longrightarrow> j < k \<Longrightarrow> k < length ms \<Longrightarrow>
   member_offsets off ms ! j + m_size (ms ! j) \<le> member_offsets off ms ! k"
proof (induction off ms arbitrary: j k rule: member_offsets.induct)
  case (2 off m ms)
  then obtain k' where k: "k = Suc k'" by (cases k) auto
  with 2 show ?case by (cases j) (simp_all add: Let_def offsets_ge)
qed simp

lemma cell_layout: "struct_size Cell_members = 16" "struct_align Cell_members = 8"
  by (simp_all add: Cell_members_def scalar_def struct_size_def struct_align_def round_up_def)

lemmas layout_defs = spsc_Queue_members_def mpmc_Queue_members_def Counters_members_def Node_members_def
  array_of_def Cell_members_def scalar_def chars_def alignas64_def offsetof_def round_up_def
  struct_size_def struct_align_def spsc_tail_member_def spsc_head_member_def

section \<open>Properties\<close>

text \<open>
  C36: Wherever the allocator puts the queue (16-byte aligned), the two indices share a
  cache line in the shared build and are on different lines in the padded build, for
  both queues.
\<close>

theorem builds_differ_in_sharing:
  assumes "16 dvd base"
  shows "cache_line (base + offsetof (spsc_Queue_members False) spsc_tail_member) =
      cache_line (base + offsetof (spsc_Queue_members False) (spsc_head_member False)) \<and>
    cache_line (base + offsetof (mpmc_Queue_members False) 1) =
      cache_line (base + offsetof (mpmc_Queue_members False) 2) \<and>
    cache_line (base + offsetof (spsc_Queue_members True) spsc_tail_member) \<noteq>
      cache_line (base + offsetof (spsc_Queue_members True) (spsc_head_member True)) \<and>
    cache_line (base + offsetof (mpmc_Queue_members True) 1) \<noteq>
      cache_line (base + offsetof (mpmc_Queue_members True) 2)"
proof -
  from assms obtain k where k: "base = 16 * k" by (auto simp: dvd_def)
  have lines: "(16 * k + 16384) div (16 * 4) = k div 4 + 256" "(16 * k + 16392) div (16 * 4) = k div 4 + 256"
    "(16 * k + 16448) div (16 * 4) = k div 4 + 257"
    unfolding div_mult2_eq by simp_all
  have "offsetof (spsc_Queue_members False) spsc_tail_member = 16384"
    "offsetof (spsc_Queue_members False) (spsc_head_member False) = 16392"
    "offsetof (mpmc_Queue_members False) 1 = 16384" "offsetof (mpmc_Queue_members False) 2 = 16392"
    "offsetof (spsc_Queue_members True) spsc_tail_member = 16384"
    "offsetof (spsc_Queue_members True) (spsc_head_member True) = 16448"
    "offsetof (mpmc_Queue_members True) 1 = 16384" "offsetof (mpmc_Queue_members True) 2 = 16448"
    by (simp_all add: layout_defs Let_def)
  with lines show ?thesis unfolding k by (simp add: cache_line_def)
qed

theorem builds_differ_in_sharing_witness:
  "cache_line (48 + offsetof (spsc_Queue_members False) spsc_tail_member) =
     cache_line (48 + offsetof (spsc_Queue_members False) (spsc_head_member False))"
proof -
  have "16 dvd (48 :: nat)" by simp
  from builds_differ_in_sharing [OF this] show ?thesis by blast
qed

theorem node_is_larger_than_a_line:
  "struct_size Node_members = 72 \<and> offsetof Node_members 1 = 8 \<and>
   offsetof (Counters_members False) 1 - offsetof (Counters_members False) 0 = 8 \<and>
   offsetof (Counters_members True) 1 - offsetof (Counters_members True) 0 = 64 \<and>
   Counters_static_assert pad"
  by (simp add: layout_defs Counters_static_assert_def Let_def)

end
