(* ===== verification/Probe_False_Sharing.thy ===== *)
theory Probe_False_Sharing
  imports Pinning
begin

text \<open>
  The counting threads of \<open>src/probes/p4_false_sharing.cpp\<close>: each binds itself to a CPU and
  then increments its counter \<open>kIters\<close> times. The layout of \<open>Counters\<close> is in
  \<open>Struct_Layout\<close>. Whether a CPU can be had is a parameter.
\<close>

section \<open>The code\<close>

datatype worker = Worker_A | Worker_B

record counters =
  ctr_a :: u64
  ctr_b :: u64
  i_a :: u64
  i_b :: u64

definition kIters :: u64 where "kIters = 200000000"

text \<open>One iteration is one atomic \<open>fetch_add\<close>.\<close>

fun worker_step :: "worker \<Rightarrow> counters \<Rightarrow> counters" where
  "worker_step Worker_A c = (if i_a c < kIters then c\<lparr>ctr_a := ctr_a c + 1, i_a := i_a c + 1\<rparr> else c)"
| "worker_step Worker_B c = (if i_b c < kIters then c\<lparr>ctr_b := ctr_b c + 1, i_b := i_b c + 1\<rparr> else c)"

fun worker_cpu :: "worker \<Rightarrow> int" where
  "worker_cpu Worker_A = 0"
| "worker_cpu Worker_B = 1"

definition counters_start :: counters where
  "counters_start = \<lparr>ctr_a = 0, ctr_b = 0, i_a = 0, i_b = 0\<rparr>"

definition workers_joined :: "counters \<Rightarrow> bool" where
  "workers_joined c \<longleftrightarrow> \<not> i_a c < kIters \<and> \<not> i_b c < kIters"

text \<open>\<open>main\<close>: the exit status, if the process has ended.\<close>

definition p4_main :: "(int \<Rightarrow> bool) \<Rightarrow> worker list \<Rightarrow> int option" where
  "p4_main affinity schedule =
     (let p = run (pinned_step affinity worker_cpu worker_step) schedule (pinned_start counters_start);
          c = px_state p; checksum = ctr_a c + ctr_b c
      in if px_exited p then Some 1
         else if workers_joined c then Some (if checksum = 2 * kIters then 0 else 1)
         else None)"

section \<open>The counters\<close>

definition counters_inv :: "counters \<Rightarrow> bool" where
  "counters_inv c \<longleftrightarrow> ctr_a c = i_a c \<and> ctr_b c = i_b c \<and> i_a c \<le> kIters \<and> i_b c \<le> kIters"

definition iterations_left :: "counters \<Rightarrow> nat" where
  "iterations_left c = (unat kIters - unat (i_a c)) + (unat kIters - unat (i_b c))"

lemma step_le: "(i :: u64) < n \<Longrightarrow> i + 1 \<le> n \<and> unat (i + 1) = Suc (unat i) \<and> unat i < unat n"
proof -
  assume "i < n"
  then have "unat i < unat n" by (simp add: word_less_nat_alt)
  moreover from this have "unat (i + 1) = Suc (unat i)"
    using unat_u64_bound [of n] by (subst unat_add_no_wrap) simp_all
  ultimately show ?thesis by (simp add: word_le_nat_alt)
qed

interpretation p4: fair_machine worker_step UNIV counters_inv workers_joined iterations_left
proof unfold_locales
  show "counters_inv s \<Longrightarrow> counters_inv (worker_step t s)" for s t
    using step_le by (cases t) (auto simp: counters_inv_def)
  show "counters_inv s \<Longrightarrow> worker_step t s \<noteq> s \<Longrightarrow> iterations_left (worker_step t s) < iterations_left s" for s t
    using step_le [of "i_a s" kIters] step_le [of "i_b s" kIters]
    by (cases t) (auto simp: iterations_left_def split: if_splits)
  show "\<exists>t\<in>UNIV. worker_step t s \<noteq> s" if "counters_inv s" "\<not> workers_joined s" for s
  proof -
    from that(2) consider "i_a s < kIters" | "i_b s < kIters" by (auto simp: workers_joined_def)
    then show ?thesis
    proof cases
      case 1
      then have "i_a (worker_step Worker_A s) \<noteq> i_a s" by simp
      then show ?thesis by (metis UNIV_I)
    next
      case 2
      then have "i_b (worker_step Worker_B s) \<noteq> i_b s" by simp
      then show ?thesis by (metis UNIV_I)
    qed
  qed
  show "workers_joined s \<Longrightarrow> worker_step t s = s" for s t
    by (cases t) (simp_all add: workers_joined_def)
qed

lemma both_workers_bound: "(\<forall>t. affinity (worker_cpu t)) \<longleftrightarrow> affinity 0 \<and> affinity 1"
  by (metis worker.exhaust worker_cpu.simps)

section \<open>Properties\<close>

theorem p4_main_ends:
  assumes "fair_rounds UNIV (Suc (2 * unat kIters)) schedule"
  shows "p4_main affinity schedule = Some (if affinity 0 \<and> affinity 1 then 0 else 1)"
proof -
  let ?p = "run (pinned_step affinity worker_cpu worker_step) schedule (pinned_start counters_start)"
  have start: "counters_inv counters_start" "iterations_left counters_start = 2 * unat kIters"
    by (simp_all add: counters_inv_def counters_start_def iterations_left_def)
  note outcome = p4.pinned_outcome [OF start(1), of schedule affinity worker_cpu, unfolded start(2), OF assms refl]
  have "px_exited ?p \<longleftrightarrow> \<not> (affinity 0 \<and> affinity 1)"
    unfolding outcome(1) using both_workers_bound [of affinity] by blast
  moreover have "ctr_a (px_state ?p) = kIters \<and> ctr_b (px_state ?p) = kIters" if "\<not> px_exited ?p"
    using outcome(2) [OF that] by (auto simp: counters_inv_def workers_joined_def not_less)
  ultimately show ?thesis using outcome(2) by (simp add: p4_main_def Let_def)
qed

theorem p4_main_ends_witness:
  "p4_main (\<lambda>cpu. cpu < 12) (concat (replicate (Suc (2 * unat kIters)) [Worker_A, Worker_B])) = Some 0"
proof -
  have "fair_rounds UNIV (Suc (2 * unat kIters)) (concat (replicate (Suc (2 * unat kIters)) [Worker_A, Worker_B]))"
    by (rule fair_round_robin) (auto intro: worker.exhaust)
  from p4_main_ends [OF this, of "\<lambda>cpu. cpu < 12"] show ?thesis by simp
qed

end
