(* ===== verification/Matrix.thy ===== *)
theory Matrix
  imports Prelude
begin

text \<open>
  The two matrix benchmarks: \<open>multiply_bad\<close> of \<open>benchmarks/matrix_bad.cpp\<close> (i-j-k order)
  and \<open>multiply_good\<close> of \<open>benchmarks/matrix_good.cpp\<close> (i-k-j order), with the
  \<open>init\<close> they share. A matrix is the flat array of the code. The arithmetic of
  \<open>double\<close> is a parameter: nothing is assumed about it, not even associativity.
\<close>

section \<open>The code\<close>

definition N :: nat where "N = 2400"

record 'a arith =
  a_add :: "'a \<Rightarrow> 'a \<Rightarrow> 'a"
  a_mul :: "'a \<Rightarrow> 'a \<Rightarrow> 'a"
  a_zero :: 'a

text \<open>\<open>mat(m, r, c)\<close>: read, and the index it denotes.\<close>

definition mat_index :: "nat \<Rightarrow> nat \<Rightarrow> nat \<Rightarrow> nat" where
  "mat_index n r c = r * n + c"

definition mat :: "nat \<Rightarrow> 'a list \<Rightarrow> nat \<Rightarrow> nat \<Rightarrow> 'a" where
  "mat n m r c = m ! mat_index n r c"

text \<open>
  \<open>init\<close>: \<open>rnd k\<close> is the \<open>k\<close>-th value of \<open>std::rand() / RAND_MAX\<close>. \<open>A\<close> and \<open>B\<close> are
  filled alternately, \<open>C\<close> is zeroed.
\<close>

definition init_matrices :: "'a arith \<Rightarrow> (nat \<Rightarrow> 'a) \<Rightarrow> nat \<Rightarrow> 'a list \<times> 'a list \<times> 'a list" where
  "init_matrices ar rnd n =
     (map (\<lambda>i. rnd (2 * i)) [0..<n * n], map (\<lambda>i. rnd (2 * i + 1)) [0..<n * n],
      replicate (n * n) (a_zero ar))"

definition multiply_bad :: "'a arith \<Rightarrow> nat \<Rightarrow> 'a list \<Rightarrow> 'a list \<Rightarrow> 'a list \<Rightarrow> 'a list" where
  "multiply_bad ar n A B C =
     fold (\<lambda>i C.
       fold (\<lambda>j C.
         let s = fold (\<lambda>k s. a_add ar s (a_mul ar (mat n A i k) (mat n B k j))) [0..<n] (a_zero ar)
         in C[mat_index n i j := s]) [0..<n] C) [0..<n] C"

definition multiply_good :: "'a arith \<Rightarrow> nat \<Rightarrow> 'a list \<Rightarrow> 'a list \<Rightarrow> 'a list \<Rightarrow> 'a list" where
  "multiply_good ar n A B C =
     fold (\<lambda>i C.
       fold (\<lambda>k C.
         let a_ik = mat n A i k
         in fold (\<lambda>j C. C[mat_index n i j := a_add ar (mat n C i j) (a_mul ar a_ik (mat n B k j))])
              [0..<n] C) [0..<n] C) [0..<n] C"

text \<open>What each \<open>main\<close> prints.\<close>

definition bad_main :: "'a arith \<Rightarrow> (nat \<Rightarrow> 'a) \<Rightarrow> 'a" where
  "bad_main ar rnd = (let (A, B, C) = init_matrices ar rnd N in mat N (multiply_bad ar N A B C) 0 0)"

definition good_main :: "'a arith \<Rightarrow> (nat \<Rightarrow> 'a) \<Rightarrow> 'a" where
  "good_main ar rnd = (let (A, B, C) = init_matrices ar rnd N in mat N (multiply_good ar N A B C) 0 0)"

section \<open>Loops over a row\<close>

text \<open>The element of the product, summed in the order of \<open>k\<close>.\<close>

definition dot :: "'a arith \<Rightarrow> nat \<Rightarrow> 'a list \<Rightarrow> 'a list \<Rightarrow> nat \<Rightarrow> nat \<Rightarrow> nat \<Rightarrow> 'a" where
  "dot ar n A B i j m =
     fold (\<lambda>k s. a_add ar s (a_mul ar (mat n A i k) (mat n B k j))) [0..<m] (a_zero ar)"

lemma dot_Suc:
  "dot ar n A B i j (Suc m) = a_add ar (dot ar n A B i j m) (a_mul ar (mat n A i m) (mat n B m j))"
  by (simp add: dot_def)

lemma mat_index_inj:
  "j < n \<Longrightarrow> j' < n \<Longrightarrow> mat_index n i j = mat_index n i' j' \<longleftrightarrow> i = i' \<and> j = j'"
proof
  assume j: "j < n" "j' < n" and eq: "mat_index n i j = mat_index n i' j'"
  then have "(i * n + j) div n = (i' * n + j') div n" "(i * n + j) mod n = (i' * n + j') mod n"
    by (simp_all add: mat_index_def)
  with j show "i = i' \<and> j = j'" by simp
qed simp

lemma mat_index_less: "i < n \<Longrightarrow> j < n \<Longrightarrow> mat_index n i j < n * n"
proof -
  assume "i < n" "j < n"
  then have "i * n + j < Suc i * n" by simp
  also have "\<dots> \<le> n * n" using \<open>i < n\<close> by (intro mult_le_mono1) simp
  finally show ?thesis by (simp add: mat_index_def)
qed

lemma mat_index_surj: "p < n * n \<Longrightarrow> \<exists>i<n. \<exists>j<n. p = mat_index n i j"
proof -
  assume p: "p < n * n"
  then have "0 < n" by (cases n) auto
  with p have "p div n < n" "p mod n < n" by (simp_all add: div_less_iff_less_mult)
  moreover have "p = mat_index n (p div n) (p mod n)" by (simp add: mat_index_def)
  ultimately show ?thesis by blast
qed

text \<open>A loop over \<open>j\<close> that updates \<open>C[i][j]\<close> from its old value changes row \<open>i\<close> only.\<close>

lemma length_row_loop: "length (fold (\<lambda>j C. C[mat_index n i j := f j (mat n C i j)]) js C) = length C"
  by (induction js arbitrary: C) simp_all

lemma row_loop:
  assumes "length C = n * n" "i < n" "i' < n" "j' < n" "m \<le> n"
  shows "mat n (fold (\<lambda>j C. C[mat_index n i j := f j (mat n C i j)]) [0..<m] C) i' j' =
    (if i' = i \<and> j' < m then f j' (mat n C i' j') else mat n C i' j')"
  using assms(5)
proof (induction m)
  case (Suc m)
  let ?C = "fold (\<lambda>j C. C[mat_index n i j := f j (mat n C i j)]) [0..<m] C"
  have len: "length ?C = n * n" by (simp add: length_row_loop assms(1))
  have "fold (\<lambda>j C. C[mat_index n i j := f j (mat n C i j)]) [0..<Suc m] C =
      ?C[mat_index n i m := f m (mat n ?C i m)]" by simp
  moreover have "mat n (?C[mat_index n i m := v]) i' j' =
      (if i' = i \<and> j' = m then v else mat n ?C i' j')" for v
    using Suc.prems assms(2-4) len
    by (auto simp: mat_def nth_list_update mat_index_inj mat_index_less)
  ultimately show ?case using Suc assms(4) by (auto simp: less_Suc_eq)
qed simp

text \<open>A loop over the rows whose body changes its own row only.\<close>

lemma rows_loop:
  assumes "length C = n * n" "i' < n" "j' < n" "m \<le> n"
    and len: "\<And>i C. length C = n * n \<Longrightarrow> length (body i C) = n * n"
    and own: "\<And>i C. length C = n * n \<Longrightarrow> i < n \<Longrightarrow> mat n (body i C) i' j' =
      (if i' = i then g i j' (mat n C i' j') else mat n C i' j')"
  shows "length (fold body [0..<m] C) = n * n \<and> mat n (fold body [0..<m] C) i' j' =
    (if i' < m then g i' j' (mat n C i' j') else mat n C i' j')"
  using assms(4)
proof (induction m)
  case (Suc m)
  then show ?case using len own by (auto simp: less_Suc_eq)
qed (simp add: assms(1))

lemma matrix_eqI:
  assumes "length X = n * n" "length Y = n * n" "\<And>i j. i < n \<Longrightarrow> j < n \<Longrightarrow> mat n X i j = mat n Y i j"
  shows "X = Y"
proof (rule nth_equalityI)
  fix p assume "p < length X"
  with assms(1) mat_index_surj [of p n] obtain i j where "i < n" "j < n" "p = mat_index n i j" by auto
  with assms(3) show "X ! p = Y ! p" by (simp add: mat_def)
qed (simp add: assms)

section \<open>Both orders compute the same elements\<close>

lemma multiply_bad_element:
  assumes "length C = n * n" "i' < n" "j' < n"
  shows "length (multiply_bad ar n A B C) = n * n \<and> mat n (multiply_bad ar n A B C) i' j' = dot ar n A B i' j' n"
proof -
  have "length (multiply_bad ar n A B C) = n * n \<and> mat n (multiply_bad ar n A B C) i' j' =
      (if i' < n then dot ar n A B i' j' n else mat n C i' j')"
    unfolding multiply_bad_def Let_def dot_def [symmetric]
  proof (rule rows_loop [where g = "\<lambda>i j _. dot ar n A B i j n"])
    fix i and C :: "'a list"
    assume C: "length C = n * n"
    show "length (fold (\<lambda>j C. C[mat_index n i j := dot ar n A B i j n]) [0..<n] C) = n * n"
      using C length_row_loop [of n i "\<lambda>j _. dot ar n A B i j n" "[0..<n]" C] by simp
    assume "i < n"
    with C assms row_loop [of C n i i' j' n "\<lambda>j _. dot ar n A B i j n"]
    show "mat n (fold (\<lambda>j C. C[mat_index n i j := dot ar n A B i j n]) [0..<n] C) i' j' =
        (if i' = i then dot ar n A B i j' n else mat n C i' j')" by simp
  qed (use assms in simp_all)
  with assms show ?thesis by simp
qed

text \<open>The two inner loops of the good order: row \<open>k\<close> of \<open>B\<close> is added to row \<open>i\<close>.\<close>

definition add_row :: "'a arith \<Rightarrow> nat \<Rightarrow> 'a list \<Rightarrow> 'a list \<Rightarrow> nat \<Rightarrow> nat \<Rightarrow> 'a list \<Rightarrow> 'a list" where
  "add_row ar n A B i k C = fold (\<lambda>j C. C[mat_index n i j :=
     a_add ar (mat n C i j) (a_mul ar (mat n A i k) (mat n B k j))]) [0..<n] C"

lemma multiply_good_rows:
  "multiply_good ar n A B C = fold (\<lambda>i. fold (add_row ar n A B i) [0..<n]) [0..<n] C"
  by (simp add: multiply_good_def Let_def add_row_def [abs_def])

lemma length_add_row: "length (add_row ar n A B i k C) = length C"
  unfolding add_row_def
  by (rule length_row_loop [of n i "\<lambda>j c. a_add ar c (a_mul ar (mat n A i k) (mat n B k j))"])

lemma mat_add_row:
  assumes "length C = n * n" "i < n" "i' < n" "j' < n"
  shows "mat n (add_row ar n A B i k C) i' j' =
    (if i' = i then a_add ar (mat n C i' j') (a_mul ar (mat n A i k) (mat n B k j')) else mat n C i' j')"
  unfolding add_row_def
  using row_loop [OF assms order_refl, of "\<lambda>j c. a_add ar c (a_mul ar (mat n A i k) (mat n B k j))"] assms(4)
  by simp

lemma length_add_rows: "length (fold (add_row ar n A B i) ks C) = length C"
  by (induction ks arbitrary: C) (simp_all add: length_add_row)

lemma mat_add_rows:
  assumes "length C = n * n" "i < n" "i' < n" "j' < n"
  shows "mat n (fold (add_row ar n A B i) [0..<m] C) i' j' =
    (if i' = i then fold (\<lambda>k s. a_add ar s (a_mul ar (mat n A i k) (mat n B k j'))) [0..<m] (mat n C i' j')
     else mat n C i' j')"
proof (induction m)
  case (Suc m)
  have "length (fold (add_row ar n A B i) [0..<m] C) = n * n" by (simp add: length_add_rows assms(1))
  from mat_add_row [OF this assms(2-4), of ar A B m] Suc show ?case
    by (cases "i' = i") simp_all
qed simp

lemma multiply_good_element:
  assumes "length C = n * n" "i' < n" "j' < n" "mat n C i' j' = a_zero ar"
  shows "length (multiply_good ar n A B C) = n * n \<and> mat n (multiply_good ar n A B C) i' j' = dot ar n A B i' j' n"
proof -
  have "length (multiply_good ar n A B C) = n * n \<and> mat n (multiply_good ar n A B C) i' j' =
      (if i' < n then fold (\<lambda>k s. a_add ar s (a_mul ar (mat n A i' k) (mat n B k j'))) [0..<n] (mat n C i' j')
       else mat n C i' j')"
    unfolding multiply_good_rows
  proof (rule rows_loop [where g = "\<lambda>i j c. fold (\<lambda>k s. a_add ar s (a_mul ar (mat n A i k) (mat n B k j))) [0..<n] c"])
    fix i and C :: "'a list"
    assume C: "length C = n * n"
    then show "length (fold (add_row ar n A B i) [0..<n] C) = n * n" by (simp add: length_add_rows)
    assume "i < n"
    from mat_add_rows [OF C this assms(2,3)]
    show "mat n (fold (add_row ar n A B i) [0..<n] C) i' j' =
      (if i' = i then fold (\<lambda>k s. a_add ar s (a_mul ar (mat n A i k) (mat n B k j'))) [0..<n] (mat n C i' j')
       else mat n C i' j')" by simp
  qed (use assms in simp_all)
  with assms show ?thesis by (simp add: dot_def)
qed

lemma multiply_orders_agree:
  assumes "length C = n * n" "\<And>i j. i < n \<Longrightarrow> j < n \<Longrightarrow> mat n C' i j = a_zero ar" "length C' = n * n"
  shows "multiply_bad ar n A B C = multiply_good ar n A B C'"
proof (cases "n = 0")
  case True
  then show ?thesis using assms by (simp add: multiply_bad_def multiply_good_def)
next
  case False
  then have n: "0 < n" by simp
  show ?thesis
  proof (rule matrix_eqI)
    show "length (multiply_bad ar n A B C) = n * n"
      using multiply_bad_element [OF assms(1) n n] by blast
    show "length (multiply_good ar n A B C') = n * n"
      using multiply_good_element [OF assms(3) n n assms(2) [OF n n]] by blast
  next
    fix i j assume ij: "i < n" "j < n"
    with multiply_bad_element [OF assms(1) ij] multiply_good_element [OF assms(3) ij assms(2) [OF ij]]
    show "mat n (multiply_bad ar n A B C) i j = mat n (multiply_good ar n A B C') i j" by simp
  qed
qed

lemma mat_zeros: "i < n \<Longrightarrow> j < n \<Longrightarrow> mat n (replicate (n * n) z) i j = z"
  by (simp add: mat_def mat_index_less)

section \<open>Properties\<close>

text \<open>
  C34: The i-j-k product and the i-k-j product started on zeros are the same matrix,
  element by element the sum in the order of k, for any addition and multiplication:
  the benchmarks differ in memory order only, bit for bit.
\<close>

theorem loop_orders_agree:
  assumes "length C = n * n" "i < n" "j < n"
  shows "multiply_bad ar n A B C = multiply_good ar n A B (replicate (n * n) (a_zero ar)) \<and>
    mat n (multiply_bad ar n A B C) i j = dot ar n A B i j n"
proof
  show "multiply_bad ar n A B C = multiply_good ar n A B (replicate (n * n) (a_zero ar))"
    using assms(1) by (rule multiply_orders_agree) (simp_all add: mat_zeros)
  show "mat n (multiply_bad ar n A B C) i j = dot ar n A B i j n"
    using multiply_bad_element [OF assms] by blast
qed

theorem loop_orders_agree_witness:
  "multiply_bad \<lparr>a_add = (+), a_mul = (*), a_zero = 0\<rparr> 2 [1, 2, 3, 4] [5, 6, 7, 8] [9, 9, 9, 9 :: int] =
     multiply_good \<lparr>a_add = (+), a_mul = (*), a_zero = 0\<rparr> 2 [1, 2, 3, 4] [5, 6, 7, 8]
       (replicate (2 * 2) (a_zero \<lparr>a_add = (+), a_mul = (*), a_zero = 0\<rparr>)) \<and>
   mat 2 (multiply_bad \<lparr>a_add = (+), a_mul = (*), a_zero = 0\<rparr> 2 [1, 2, 3, 4] [5, 6, 7, 8] [9, 9, 9, 9 :: int]) 1 0 =
     dot \<lparr>a_add = (+), a_mul = (*), a_zero = 0\<rparr> 2 [1, 2, 3, 4] [5, 6, 7, 8] 1 0 2"
  by (rule loop_orders_agree) simp_all

theorem matrix_programs_agree: "bad_main ar rnd = good_main ar rnd"
  unfolding bad_main_def good_main_def init_matrices_def Let_def prod.case
  by (subst multiply_orders_agree [where C' = "replicate (N * N) (a_zero ar)"]) (simp_all add: mat_zeros)

end
