(* ===== verification/Pointer_Chase.thy ===== *)
theory Pointer_Chase
  imports Prelude "HOL-Library.Multiset"
begin

text \<open>
  The linked-list benchmark \<open>benchmarks/pointer_chase.cpp\<close>. The heap maps addresses to
  nodes; an access to an address that holds no node is \<open>None\<close>, and so is a loop that does
  not end. Where \<open>new\<close> puts the nodes and the order that \<open>std::shuffle\<close> chooses are
  parameters. The sums are \<open>long\<close>s; the bound shows that they do not overflow.
\<close>

section \<open>The code\<close>

type_synonym addr = nat

record node =
  n_value :: int
  n_next :: "addr option"

type_synonym heap = "addr \<rightharpoonup> node"

definition NUM_NODES :: nat where "NUM_NODES = 2 ^ 20"
definition ITERATIONS :: nat where "ITERATIONS = 5"

definition set_next :: "addr \<Rightarrow> addr option \<Rightarrow> heap \<Rightarrow> heap option" where
  "set_next a nxt h = map_option (\<lambda>nd. h(a \<mapsto> nd\<lparr>n_next := nxt\<rparr>)) (h a)"

definition new_nodes :: "(nat \<Rightarrow> addr) \<Rightarrow> nat \<Rightarrow> heap" where
  "new_nodes alloc n =
     fold (\<lambda>i h. h(alloc i \<mapsto> \<lparr>n_value = int i, n_next = None\<rparr>)) [0..<n] Map.empty"

definition link_nodes :: "(nat \<Rightarrow> addr) \<Rightarrow> nat list \<Rightarrow> nat \<Rightarrow> heap \<Rightarrow> heap option" where
  "link_nodes alloc order m h =
     fold (\<lambda>i ho. Option.bind ho (set_next (alloc (order ! i)) (Some (alloc (order ! (i + 1))))))
       [0..<m] (Some h)"

definition build_shuffled_list :: "(nat \<Rightarrow> addr) \<Rightarrow> nat list \<Rightarrow> nat \<Rightarrow> (heap \<times> addr option) option" where
  "build_shuffled_list alloc order n =
     Option.bind (link_nodes alloc order (n - 1) (new_nodes alloc n)) (\<lambda>h.
       map_option (\<lambda>h. (h, Some (alloc (order ! 0)))) (set_next (alloc (order ! (n - 1))) None h))"

partial_function (option) traverse_from :: "heap \<Rightarrow> addr option \<Rightarrow> int \<Rightarrow> int option" where
  "traverse_from h cur s =
     (case cur of
        None \<Rightarrow> Some s
      | Some a \<Rightarrow> (case h a of None \<Rightarrow> None | Some nd \<Rightarrow> traverse_from h (n_next nd) (s + n_value nd)))"

definition traverse :: "heap \<Rightarrow> addr option \<Rightarrow> int option" where
  "traverse h head = traverse_from h head 0"

text \<open>The cleanup loop, with the nodes it has deleted so far.\<close>

partial_function (option) delete_from :: "heap \<Rightarrow> addr option \<Rightarrow> addr list \<Rightarrow> (heap \<times> addr list) option" where
  "delete_from h cur freed =
     (case cur of
        None \<Rightarrow> Some (h, freed)
      | Some a \<Rightarrow>
          (case h a of
             None \<Rightarrow> None
           | Some nd \<Rightarrow> delete_from (h(a := None)) (n_next nd) (freed @ [a])))"

definition chase_main :: "(nat \<Rightarrow> addr) \<Rightarrow> nat list \<Rightarrow> nat \<Rightarrow> (int \<times> heap \<times> addr list) option" where
  "chase_main alloc order n =
     Option.bind (build_shuffled_list alloc order n) (\<lambda>(h, head).
       Option.bind (fold (\<lambda>i total. Option.bind total (\<lambda>t. map_option (\<lambda>s. t + s) (traverse h head)))
                     [0..<ITERATIONS] (Some 0)) (\<lambda>total.
         map_option (\<lambda>r. (total, r)) (delete_from h head [])))"

section \<open>Lists in the heap\<close>

fun chain :: "heap \<Rightarrow> addr option \<Rightarrow> (addr \<times> int) list \<Rightarrow> bool" where
  "chain h p [] \<longleftrightarrow> p = None"
| "chain h p ((a, v) # xs) \<longleftrightarrow>
     p = Some a \<and> (\<exists>nxt. h a = Some \<lparr>n_value = v, n_next = nxt\<rparr> \<and> chain h nxt xs)"

lemma traverse_chain: "chain h p xs \<Longrightarrow> traverse_from h p s = Some (s + sum_list (map snd xs))"
proof (induction h p xs arbitrary: s rule: chain.induct)
  case (1 h p)
  then show ?case by (subst traverse_from.simps) simp
next
  case (2 h p a v xs)
  then obtain nxt where "p = Some a" "h a = Some \<lparr>n_value = v, n_next = nxt\<rparr>" "chain h nxt xs" by auto
  with 2 show ?case by (subst traverse_from.simps) (simp add: add.assoc)
qed

lemma chain_drop: "chain h p xs \<Longrightarrow> a \<notin> fst ` set xs \<Longrightarrow> chain (h(a := None)) p xs"
  by (induction h p xs rule: chain.induct) auto

lemma delete_chain:
  "chain h p xs \<Longrightarrow> distinct (map fst xs) \<Longrightarrow>
   delete_from h p freed = Some (h |` (- fst ` set xs), freed @ map fst xs)"
proof (induction xs arbitrary: h p freed)
  case Nil
  then show ?case by (subst delete_from.simps) (simp add: restrict_map_def)
next
  case (Cons x xs)
  obtain a v where x: "x = (a, v)" by (cases x)
  with Cons.prems obtain nxt where nxt: "p = Some a" "h a = Some \<lparr>n_value = v, n_next = nxt\<rparr>"
    "chain h nxt xs" by auto
  have "delete_from (h(a := None)) nxt (freed @ [a]) =
      Some (h(a := None) |` (- fst ` set xs), (freed @ [a]) @ map fst xs)"
    using Cons.prems(2) x nxt(3) by (intro Cons.IH chain_drop) auto
  moreover have "h(a := None) |` (- fst ` set xs) = h |` (- fst ` set (x # xs))"
    by (rule ext) (simp add: restrict_map_def x)
  ultimately show ?case using nxt x by (subst delete_from.simps) simp
qed

section \<open>Building the list\<close>

lemma new_nodes_at:
  "inj_on alloc {..<n} \<Longrightarrow> dom (new_nodes alloc n) = alloc ` {..<n} \<and>
   (\<forall>i<n. new_nodes alloc n (alloc i) = Some \<lparr>n_value = int i, n_next = None\<rparr>)"
proof (induction n)
  case (Suc n)
  have "new_nodes alloc (Suc n) = (new_nodes alloc n)(alloc n \<mapsto> \<lparr>n_value = int n, n_next = None\<rparr>)"
    by (simp add: new_nodes_def)
  moreover have "inj_on alloc {..<n}" using Suc.prems by (auto simp: inj_on_def)
  moreover have "alloc i \<noteq> alloc n" if "i < n" for i
    using Suc.prems that by (auto simp: inj_on_def)
  ultimately show ?case using Suc.IH by (auto simp: less_Suc_eq lessThan_Suc)
qed (simp add: new_nodes_def)

lemma link_nodes_at:
  assumes at: "\<And>i. i < n \<Longrightarrow> h (alloc (order ! i)) = Some \<lparr>n_value = val i, n_next = None\<rparr>"
    and inj: "\<And>i j. i < n \<Longrightarrow> j < n \<Longrightarrow> alloc (order ! i) = alloc (order ! j) \<Longrightarrow> i = j"
    and m: "m < n"
  shows "\<exists>h'. link_nodes alloc order m h = Some h' \<and> dom h' = dom h \<and>
    (\<forall>i<n. h' (alloc (order ! i)) =
       Some \<lparr>n_value = val i, n_next = if i < m then Some (alloc (order ! (i + 1))) else None\<rparr>)"
  using m
proof (induction m)
  case 0
  then show ?case using at by (simp add: link_nodes_def)
next
  case (Suc m)
  then obtain h' where h': "link_nodes alloc order m h = Some h'" "dom h' = dom h"
    "\<And>i. i < n \<Longrightarrow> h' (alloc (order ! i)) =
       Some \<lparr>n_value = val i, n_next = if i < m then Some (alloc (order ! (i + 1))) else None\<rparr>" by auto
  let ?h = "h'(alloc (order ! m) \<mapsto> \<lparr>n_value = val m, n_next = Some (alloc (order ! (m + 1)))\<rparr>)"
  have "link_nodes alloc order (Suc m) h =
      set_next (alloc (order ! m)) (Some (alloc (order ! (m + 1)))) h'"
    using h'(1) by (simp add: link_nodes_def)
  then have "link_nodes alloc order (Suc m) h = Some ?h"
    using h'(3) [of m] Suc.prems by (simp add: set_next_def)
  moreover have "dom ?h = dom h" using h'(2) h'(3) [of m] Suc.prems by auto
  moreover have "?h (alloc (order ! i)) =
      Some \<lparr>n_value = val i, n_next = if i < Suc m then Some (alloc (order ! (i + 1))) else None\<rparr>"
    if "i < n" for i
    using that h'(3) [of i] inj [of i m] Suc.prems by (cases "i = m") auto
  ultimately show ?case by blast
qed

text \<open>Nodes in a row are a chain.\<close>

lemma chain_of_row:
  assumes "\<And>i. i < n \<Longrightarrow> h (loc i) =
      Some \<lparr>n_value = val i, n_next = if i < n - 1 then Some (loc (i + 1)) else None\<rparr>"
    and "k < n"
  shows "chain h (Some (loc (n - Suc k))) (map (\<lambda>i. (loc i, val i)) [n - Suc k..<n])"
  using assms(2)
proof (induction k)
  case 0
  then have "[n - Suc 0..<n] = [n - 1]" by (simp add: upt_conv_Cons)
  with 0 assms(1) [of "n - 1"] show ?case by simp
next
  case (Suc k)
  let ?i = "n - Suc (Suc k)"
  have i: "?i < n" "?i < n - 1" "?i + 1 = n - Suc k" using Suc.prems by simp_all
  then have "[?i..<n] = ?i # [n - Suc k..<n]" by (simp add: upt_conv_Cons)
  with Suc i assms(1) [OF i(1)] show ?case by simp
qed

lemma built_chain:
  assumes "inj_on alloc {..<n}" "mset order = mset [0..<n]" "0 < n"
  shows "\<exists>h. build_shuffled_list alloc order n = Some (h, Some (alloc (order ! 0))) \<and>
    dom h = alloc ` {..<n} \<and>
    chain h (Some (alloc (order ! 0))) (map (\<lambda>i. (alloc i, int i)) order)"
proof -
  have len: "length order = n" using assms(2) by (metis diff_zero length_upt size_mset)
  have set: "set order = {..<n}" using assms(2) by (metis atLeast_upt set_mset_mset)
  have dist: "distinct order" using assms(2) by (metis distinct_upt mset_eq_imp_distinct_iff)
  have mem: "order ! i < n" if "i < n" for i using that len set by (metis lessThan_iff nth_mem)
  have inj: "i = j" if "i < n" "j < n" "alloc (order ! i) = alloc (order ! j)" for i j
    using that assms(1) mem dist len by (metis inj_on_def lessThan_iff nth_eq_iff_index_eq)
  note new = new_nodes_at [OF assms(1)]
  obtain h where h: "link_nodes alloc order (n - 1) (new_nodes alloc n) = Some h"
    "dom h = alloc ` {..<n}"
    "\<And>i. i < n \<Longrightarrow> h (alloc (order ! i)) = Some \<lparr>n_value = int (order ! i),
       n_next = if i < n - 1 then Some (alloc (order ! (i + 1))) else None\<rparr>"
    using link_nodes_at [of n "new_nodes alloc n" alloc order "\<lambda>i. int (order ! i)" "n - 1"] new mem inj assms(3)
    by auto
  have "h (alloc (order ! (n - 1))) = Some \<lparr>n_value = int (order ! (n - 1)), n_next = None\<rparr>"
    using h(3) [of "n - 1"] assms(3) by simp
  then have "set_next (alloc (order ! (n - 1))) None h = Some h"
    by (simp add: set_next_def fun_upd_idem)
  with h(1) have "build_shuffled_list alloc order n = Some (h, Some (alloc (order ! 0)))"
    by (simp add: build_shuffled_list_def)
  moreover have "chain h (Some (alloc (order ! (n - Suc (n - 1)))))
      (map (\<lambda>i. (alloc (order ! i), int (order ! i))) [n - Suc (n - 1)..<n])"
    using h(3) assms(3)
    by (intro chain_of_row [where loc = "\<lambda>i. alloc (order ! i)" and val = "\<lambda>i. int (order ! i)"]) simp_all
  moreover have "map (\<lambda>i. (alloc (order ! i), int (order ! i))) [0..<n] = map (\<lambda>i. (alloc i, int i)) order"
    by (rule nth_equalityI) (simp_all add: len)
  ultimately show ?thesis using h(2) assms(3) by simp
qed

lemma sum_of_order: "mset order = mset [0..<n] \<Longrightarrow> sum_list (map int order) = int (n * (n - 1) div 2)"
proof -
  assume "mset order = mset [0..<n]"
  then have "sum_list (map int order) = sum_list (map int [0..<n])"
    by (metis mset_map sum_mset_sum_list)
  also have "\<dots> = int (\<Sum>{..<n})" by (induction n) simp_all
  also have "\<Sum>{..<n} = n * (n - 1) div 2" using Sum_Ico_nat [of 0 n] by (simp add: atLeast0LessThan)
  finally show ?thesis .
qed

section \<open>Properties\<close>

text \<open>
  C35: For every shuffle, each traversal terminates and sums every value once, the
  cleanup deletes every node exactly once, in list order and without touching a deleted
  node, and leaves an empty heap.
\<close>

theorem chase_visits_every_node_once:
  assumes "inj_on alloc {..<n}" "mset order = mset [0..<n]" "0 < n"
  shows "chase_main alloc order n = Some (int ITERATIONS * int (n * (n - 1) div 2), Map.empty, map alloc order)"
proof -
  obtain h where h: "build_shuffled_list alloc order n = Some (h, Some (alloc (order ! 0)))"
    "dom h = alloc ` {..<n}"
    "chain h (Some (alloc (order ! 0))) (map (\<lambda>i. (alloc i, int i)) order)"
    using built_chain [OF assms] by blast
  have set: "set order = {..<n}" using assms(2) by (metis atLeast_upt set_mset_mset)
  have dist: "distinct order" using assms(2) by (metis distinct_upt mset_eq_imp_distinct_iff)
  have t: "traverse h (Some (alloc (order ! 0))) = Some (int (n * (n - 1) div 2))"
    using traverse_chain [OF h(3)] sum_of_order [OF assms(2)] by (simp add: traverse_def comp_def)
  have loop: "fold (\<lambda>i total. Option.bind total (\<lambda>t. map_option (\<lambda>s. t + s) (traverse h (Some (alloc (order ! 0))))))
      [0..<k] (Some 0) = Some (int k * int (n * (n - 1) div 2))" for k
    unfolding t by (induction k) (simp_all add: distrib_right)
  have "distinct (map fst (map (\<lambda>i. (alloc i, int i)) order))"
    using dist assms(1) set by (simp add: comp_def distinct_map)
  from delete_chain [OF h(3) this, of "[]"]
  have "delete_from h (Some (alloc (order ! 0))) [] = Some (h |` (- alloc ` {..<n}), map alloc order)"
    using set by (simp add: comp_def image_image)
  moreover have "h |` (- alloc ` {..<n}) = Map.empty"
    using h(2) by (auto simp: restrict_map_def fun_eq_iff dom_def)
  ultimately show ?thesis by (simp add: chase_main_def h(1) loop)
qed

theorem chase_visits_every_node_once_witness:
  "chase_main (\<lambda>i. 100 - 8 * i) [2, 0, 1] 3 = Some (15, Map.empty, [84, 100, 92])"
proof -
  have "inj_on (\<lambda>i. 100 - 8 * i) {..<3 :: nat}" by (auto simp: inj_on_def)
  from chase_visits_every_node_once [OF this, of "[2, 0, 1]"] show ?thesis
    by (simp add: ITERATIONS_def upt_rec)
qed

theorem chase_sum_fits_long:
  assumes "inj_on alloc {..<NUM_NODES}" "mset order = mset [0..<NUM_NODES]"
  shows "map_option fst (chase_main alloc order NUM_NODES) = Some 2748776448000 \<and>
    (2748776448000 :: int) < 2 ^ 63"
  using chase_visits_every_node_once [OF assms] by (simp add: NUM_NODES_def ITERATIONS_def)

theorem chase_sum_fits_long_witness:
  "map_option fst (chase_main (\<lambda>i. 4096 + 72 * i) (rev [0..<NUM_NODES]) NUM_NODES) = Some 2748776448000"
proof -
  have "inj_on (\<lambda>i. 4096 + 72 * i) {..<NUM_NODES}" by (simp add: inj_on_def)
  from chase_sum_fits_long [OF this, of "rev [0..<NUM_NODES]"] show ?thesis
    by (simp only: mset_rev simp_thms)
qed

end
