(* ===== verification/Spec2Isabelle.thy ===== *)
theory Spec2Isabelle
  imports
    Prelude Diagnostics Cli Ring_Drain Elf_Image Std_Lib Attribution Double_Rounding Wilson
    Wilson_Double Primes Ranking
    System_Calls Target_Process Perf_Events Calibration Measurement Event_Lifecycle
    Ring_Sources Sample_Delivery Event_Report Analysis Report_Text Session Profiling_Run
    Probe_Percpu_Open Probe_Enable_On_Exec Probe_Mlock_Budget
    Schedules Pinning Cell_Ring Cell_Claims Release_Acquire Spsc_Queue Spsc_Orderings Mpmc_Queue
    Mpmc_Messages Mpmc_Orderings Mpmc_Progress Mpmc_Main Percentiles Queue_Latency
    Struct_Layout Probe_False_Sharing Matrix Pointer_Chase
begin

text \<open>
  CacheLens: the cache-miss profiler \<open>src/main.cpp\<close>, the benchmark programs it is measured
  on (\<open>benchmarks/\<close>) and the kernel probes it rests on (\<open>probes/\<close>).

  The program. \<open>cachelens [--period N] -- command\<close> reads the text range of the target from
  its ELF headers and opens its DWARF with \<open>libdw\<close>, runs the target once to measure the rates
  of two events (cache misses and cache accesses) unless a period is given, derives a prime
  sample period for each, runs the target again with one sampling event per event and CPU,
  drains the ring buffers of all events while it runs, checks that the measurement can be
  trusted, attributes the samples to source lines, and ranks the lines by the Wilson lower
  bound of misses per access.

  The theories, and what they model.
  \<^item> \<open>Prelude\<close>: word lengths, little-endian bytes, lists. \<open>Std_Lib\<close>: \<open>std::map\<close> as a sorted
    association list, \<open>std::sort\<close> by its contract. \<open>Diagnostics\<close>: \<open>die\<close>, \<open>die_errno\<close>,
    \<open>ring_label\<close>, \<open>diagnose_perf_open_failure\<close>, as values.
  \<^item> \<open>Cli\<close>: the arguments of \<open>main\<close>, with \<open>strtoll\<close>.
  \<^item> \<open>Ring_Drain\<close>: \<open>drain\<close> and \<open>copy_wrapped\<close> on the bytes of a ring, with the records the
    kernel writes as the specification. \<open>Elf_Image\<close>: \<open>get_target_text_range\<close> and
    \<open>classify\<close>. \<open>Attribution\<close>: \<open>resolve\<close> and \<open>classify_and_attribute\<close>. \<open>Double_Rounding\<close>: the
    rounding of \<open>double\<close> arithmetic and the calculus of its errors. \<open>Wilson\<close>, \<open>Wilson_Double\<close>:
    \<open>wilson_lower_bound\<close> as a formula and as it is computed. \<open>Primes\<close>, \<open>Ranking\<close>: \<open>is_prime\<close>
    and \<open>nearest_prime\<close>, the end of \<open>main\<close>.
  \<^item> \<open>System_Calls\<close>: the boundary to the kernel. A run is a function of an arbitrary kernel
    and of the calls made so far; it returns a result, or how the process ended, and the
    history it leaves. \<open>Target_Process\<close>: \<open>fork_stop_exec\<close> (both sides), \<open>reap\<close>, the wait
    status macros. \<open>Perf_Events\<close>: \<open>open_counting\<close>, \<open>open_sampling\<close>, \<open>finish_sampling\<close>, one
    call of \<open>drain\<close>. \<open>Calibration\<close>: \<open>calibrate_both\<close> and the periods. \<open>Measurement\<close>: the
    measurement run of \<open>main\<close>, with the poll loop. \<open>Event_Report\<close>: \<open>print_event_report\<close> and
    the drain statistics. \<open>Analysis\<close>: the checks and the report of \<open>main\<close>.
    \<open>Report_Text\<close>: what is printed, byte by byte. \<open>Session\<close>: \<open>main\<close>
    as a whole.
  \<^item> \<open>Event_Lifecycle\<close>, \<open>Ring_Sources\<close>, \<open>Sample_Delivery\<close>, \<open>Profiling_Run\<close>: what a run does, on
    every kernel and on one that serves its rings.
  \<^item> \<open>Probe_Percpu_Open\<close>, \<open>Probe_Enable_On_Exec\<close>, \<open>Probe_Mlock_Budget\<close>: the probes \<open>p1\<close>,
    \<open>p2\<close> with its victim, and \<open>p3\<close>, on the same system calls. \<open>Probe_False_Sharing\<close>: the
    threads of \<open>p4\<close>.
  \<^item> \<open>Schedules\<close>: threads under an arbitrary scheduler. \<open>Pinning\<close>: \<open>pin_to\<close>, the first step of
    each thread, in front of any such machine. \<open>Cell_Ring\<close>, \<open>Cell_Claims\<close>, \<open>Spsc_Queue\<close>, \<open>Mpmc_Queue\<close>: the two queue
    benchmarks as step relations, one atomic access per step, and the ring of cells they
    share. \<open>Release_Acquire\<close>: the part of the C++ memory model they use, by views; \<open>Spsc_Orderings\<close>:
    the SPSC queue and its \<open>main\<close> with the memory orders of the code; \<open>Mpmc_Messages\<close>,
    \<open>Mpmc_Orderings\<close>, \<open>Mpmc_Progress\<close>, \<open>Mpmc_Main\<close>: the same for the MPMC queue.
    \<open>Percentiles\<close>, \<open>Queue_Latency\<close>: the latency harness on the SPSC queue.
    \<open>Struct_Layout\<close>: the layouts that decide about false sharing.
    \<open>Matrix\<close>, \<open>Pointer_Chase\<close>: the other benchmarks.

  How state and errors correspond. A struct is a record with the fields of the source, a
  64-bit integer a \<open>64 word\<close>, an early \<open>exit\<close> a constructor of \<open>fatal\<close> or \<open>stop\<close>, a loop
  that may not end a \<open>partial_function\<close>. The rings of \<open>ev[2][nr_cpus]\<close> are one list, event by
  event. A read outside the mapped ring, undefined in C++, is the value
  \<open>Undefined_Behaviour\<close>; so is a \<open>double\<close> out of the range of \<open>uint64_t\<close>. Neither has an exit
  status or a text. A wait that the process blocks in for ever is a run without an outcome
  (\<open>waiting_call\<close>), as is a poll loop that never ends; \<open>waits_return\<close> says of a kernel that
  the waits return. A \<open>double\<close> is a real number; in the scores, the ranking and the calibration
  each operation of the code is followed by the rounding \<open>fl\<close> to 53 bits, ties to even.

  What the lemmas show.
  \<^item> Ring: every stream of records is delivered whole, in order and in bounds, wherever it
    wraps; a corrupt ring ends in an error; a throttle stops the run.
  \<^item> Run: events are opened before the target starts, each as the report describes it; on a
    kernel that writes its records at any time and a target that exits at any time, every
    sample is delivered or a throttle ends the run; the report says which event and CPU a
    ring is of; what is opened is closed; an early end has a non-zero status and a message,
    unless the process became the target or the run was undefined.
    Three ways of reasoning about runs are used: \<open>outcome\<close> (a weakest precondition that
    rewrites, total where it says so), \<open>does\<close> (what a run adds to the history) and
    \<open>ends_in\<close> (how it ends early). The locale \<open>ring_invariant\<close> carries a property of a ring
    through a run.
  \<^item> Report: counts, buckets and ranking are those of the samples; a run is refused exactly
    when its counters did not arm, were shared, or sampled at another period. The printed text
    determines the rankings.
  \<^item> Numbers: primality and nearest prime on words, termination included; the Wilson bound
    as the root of the score equation; the score as computed, within 2^-47 of it, and how far
    below 0 it can be; the rounding errors of the ranking and of the calibrated quotient.
  \<^item> Queues: FIFO refinement, exactly-once delivery for any number of threads, no race on
    the plain data, no dead end, termination of the SPSC programs under fair schedules. The
    memory orders of the code are enough for both queues: a run with stale loads is race
    free, and it reaches what a run of the interleaving machine reaches.
  \<^item> Probes: each CPU probed once, with the line that says so, and everything released;
    children waited for; the descriptor that \<open>p3\<close> leaks.

  Bounds and fuel. There is no fuel. The poll loop is total on a kernel whose child exits
  within some number of polls, the calibration on one whose waits return; the prime search
  always ends; the scheduled programs end within the stated number of fair rounds. A stream has less than \<open>2 ^ 64\<close> bytes.

  Not modelled. \<open>strerror\<close> (a parameter); the lines about progress that \<open>main\<close> prints before
  the report (calibration, override, status of the child); the exponent range of \<open>double\<close>
  (overflow, subnormals, signed zeros), and the rounding of the fractions, percentages and means
  of the report and of the multiplexing check, which are exact reals, also in their printed
  digits; \<open>attr.size\<close>; a number of CPUs beyond \<open>int\<close>; failures of allocation,
  except in the victim; reordering beyond the views of \<open>Release_Acquire\<close> (a store becomes
  readable when its thread reaches it); wall-clock time. The kernel, \<open>libdw\<close>, the file system, the allocator, \<open>std::shuffle\<close> and the clock are parameters.
  The build files and shell scripts are not modelled.
\<close>

end
